(* ===== verification/Prelude.thy ===== *)
theory Prelude
  imports Main "HOL-Library.Word" "HOL-Library.Multiset"
begin

text \<open>
  Shared vocabulary of the development: names for the machine integers and byte strings of
  the C++ sources, the fact collections the component proofs feed to the simplifier, and the
  generic lemmas on little-endian byte runs, association lists (the standard library's
  \<^verbatim>\<open>unordered_map\<close>) and reachability that several components use.
\<close>

section \<open>Machine integers and byte strings\<close>

type_synonym u8 = "8 word"
type_synonym u16 = "16 word"
type_synonym u32 = "32 word"
type_synonym u64 = "64 word"

text \<open>A \<^verbatim>\<open>std::string\<close> and a \<^verbatim>\<open>std::vector<uint8_t>\<close> are both byte lists.\<close>

type_synonym bytes = "u8 list"

text \<open>The bytes of an ASCII literal.\<close>

definition chars :: "string \<Rightarrow> bytes" where
  "chars s = map (\<lambda>c. word_of_nat (of_char c)) s"

text \<open>A \<^verbatim>\<open>const char*\<close> made from a string ends at the first zero byte.\<close>

definition c_str :: "bytes \<Rightarrow> bytes" where
  "c_str s = takeWhile (\<lambda>b. b \<noteq> 0) s"

named_theorems wire_simps \<open>read and write equations of the byte codecs\<close>
named_theorems alist_simps \<open>lookups and key sets of the table operations\<close>
named_theorems eval_simps \<open>equations that evaluate closed terms\<close>
named_theorems inv_intros \<open>an operation keeps a component invariant\<close>

section \<open>Little-endian byte runs\<close>

text \<open>\<open>le_bytes n v\<close> is the object representation of an \<open>n\<close>-byte unsigned integer on the
  supported (little-endian) targets, the bytes that \<^verbatim>\<open>memcpy\<close> copies.\<close>

primrec le_bytes :: "nat \<Rightarrow> nat \<Rightarrow> bytes" where
  "le_bytes 0 v = []"
| "le_bytes (Suc n) v = of_nat (v mod 256) # le_bytes n (v div 256)"

primrec le_value :: "bytes \<Rightarrow> nat" where
  "le_value [] = 0"
| "le_value (b # bs) = unat b + 256 * le_value bs"

lemma length_le_bytes [simp]: "length (le_bytes n v) = n"
  by (induction n arbitrary: v) auto

lemma le_bytes_numeral [eval_simps]:
  "le_bytes (numeral k) v = of_nat (v mod 256) # le_bytes (pred_numeral k) (v div 256)"
  by (metis le_bytes.simps(2) numeral_eq_Suc)

lemma replicate_numeral_eval [eval_simps]:
  "replicate (numeral k) x = x # replicate (pred_numeral k) x"
  by (metis numeral_eq_Suc replicate_Suc)

lemma unat_byte [simp]: "unat (of_nat (v mod 256) :: u8) = v mod 256"
  by (simp add: unat_of_nat take_bit_nat_def)

lemma byte_mod [simp]: "of_nat (unat (a :: u8) mod 256) = a"
proof -
  have "unat a < 2 ^ LENGTH(8)" by (rule unsigned_less)
  then show ?thesis by simp
qed

lemma le_value_le_bytes: "le_value (le_bytes n v) = v mod 256 ^ n"
proof (induction n arbitrary: v)
  case 0
  then show ?case by simp
next
  case (Suc n)
  have "v mod 256 ^ Suc n = v mod 256 + 256 * (v div 256 mod 256 ^ n)"
    using mod_mult2_eq [of v 256 "256 ^ n"] by simp
  with Suc.IH [of "v div 256"] show ?case by simp
qed

lemma le_value_bound: "le_value bs < 256 ^ length bs"
proof (induction bs)
  case Nil
  then show ?case by simp
next
  case (Cons b bs)
  have "unat b < 256" using unsigned_less [of b] by simp
  then show ?case using Cons.IH by simp
qed

lemma le_bytes_le_value: "le_bytes (length bs) (le_value bs) = bs"
proof (induction bs)
  case Nil
  then show ?case by simp
next
  case (Cons b bs)
  have "unat b < 256" using unsigned_less [of b] by simp
  then show ?case using Cons.IH by simp
qed

lemma le_bytes_inject:
  assumes "le_bytes n v = le_bytes n w" "v < 256 ^ n" "w < 256 ^ n"
  shows "v = w"
proof -
  have "v mod 256 ^ n = w mod 256 ^ n"
    using assms(1) le_value_le_bytes by metis
  with assms(2,3) show ?thesis by simp
qed

lemma le_roundtrip_word:
  fixes w :: "'a::len word"
  assumes "LENGTH('a) = 8 * n"
  shows "of_nat (le_value (le_bytes n (unat w))) = w"
proof -
  have "(2::nat) ^ LENGTH('a) = 256 ^ n"
    using assms by (simp add: power_mult)
  then have "unat w < 256 ^ n" by (metis unsigned_less)
  then show ?thesis by (simp add: le_value_le_bytes)
qed

section \<open>Hash tables\<close>

text \<open>
  A \<^verbatim>\<open>std::unordered_map\<close> is an association list with distinct keys. The order of the list
  stands for the container's iteration order, which C++ leaves unspecified: what the
  components promise is stated over lookups, key sets and multisets, never over positions.
  \<open>um_insert\<close> is \<^verbatim>\<open>insert\<close>/\<^verbatim>\<open>emplace\<close> (an existing entry stays), \<open>um_modify\<close> a write
  through an iterator, \<open>um_erase\<close> the \<^verbatim>\<open>erase\<close> of one key.
\<close>

type_synonym ('k, 'v) umap = "('k \<times> 'v) list"

abbreviation um_find :: "('k, 'v) umap \<Rightarrow> 'k \<Rightarrow> 'v option" where
  "um_find m k \<equiv> map_of m k"

abbreviation um_keys :: "('k, 'v) umap \<Rightarrow> 'k set" where
  "um_keys m \<equiv> fst ` set m"

definition um_wf :: "('k, 'v) umap \<Rightarrow> bool" where
  "um_wf m \<longleftrightarrow> distinct (map fst m)"

definition um_insert :: "'k \<Rightarrow> 'v \<Rightarrow> ('k, 'v) umap \<Rightarrow> ('k, 'v) umap" where
  "um_insert k v m = (if um_find m k = None then m @ [(k, v)] else m)"

definition um_modify :: "'k \<Rightarrow> ('v \<Rightarrow> 'v) \<Rightarrow> ('k, 'v) umap \<Rightarrow> ('k, 'v) umap" where
  "um_modify k f m = map (\<lambda>(k', v). (k', if k' = k then f v else v)) m"

definition um_erase :: "'k \<Rightarrow> ('k, 'v) umap \<Rightarrow> ('k, 'v) umap" where
  "um_erase k m = filter (\<lambda>p. fst p \<noteq> k) m"

lemma um_find_None_iff: "um_find m k = None \<longleftrightarrow> k \<notin> um_keys m"
  by (simp add: map_of_eq_None_iff)

lemma um_find_Some_key: "um_find m k = Some v \<Longrightarrow> k \<in> um_keys m"
  by (metis um_find_None_iff option.distinct(1))

lemma um_modify_simps [simp]:
  "um_modify k f [] = []"
  "um_modify k f (p # m) = (fst p, if fst p = k then f (snd p) else snd p) # um_modify k f m"
  by (simp_all add: um_modify_def case_prod_beta)

lemma um_modify_absent: "k \<notin> um_keys m \<Longrightarrow> um_modify k f m = m"
  by (induction m) auto

lemma um_find_insert [alist_simps]:
  "um_find (um_insert k v m) k' =
     (if k' = k \<and> um_find m k = None then Some v else um_find m k')"
  by (auto simp: um_insert_def map_add_def split: option.splits)

lemma um_find_modify [alist_simps]:
  "um_find (um_modify k f m) k' =
     (if k' = k then map_option f (um_find m k) else um_find m k')"
  by (induction m) auto

lemma um_find_erase [alist_simps]:
  "um_find (um_erase k m) k' = (if k' = k then None else um_find m k')"
  by (induction m) (auto simp: um_erase_def)

lemma um_keys_insert [alist_simps]: "um_keys (um_insert k v m) = insert k (um_keys m)"
  by (auto simp: um_insert_def um_find_Some_key)

lemma map_fst_modify [simp]: "map fst (um_modify k f m) = map fst m"
  by (induction m) auto

lemma um_keys_modify [simp]: "um_keys (um_modify k f m) = um_keys m"
  by (metis map_fst_modify set_map)

lemma um_keys_erase [alist_simps]: "um_keys (um_erase k m) = um_keys m - {k}"
  by (auto simp: um_erase_def)

lemma um_wf_Nil [simp, inv_intros]: "um_wf []"
  by (simp add: um_wf_def)

lemma um_wf_insert [inv_intros]: "um_wf m \<Longrightarrow> um_wf (um_insert k v m)"
  by (auto simp: um_wf_def um_insert_def um_find_None_iff)

lemma um_wf_modify [inv_intros]: "um_wf m \<Longrightarrow> um_wf (um_modify k f m)"
  by (simp add: um_wf_def)

lemma um_wf_filter [inv_intros]: "um_wf m \<Longrightarrow> um_wf (filter P m)"
  by (simp add: um_wf_def distinct_map_filter)

lemma um_wf_erase [inv_intros]: "um_wf m \<Longrightarrow> um_wf (um_erase k m)"
  by (simp add: um_erase_def um_wf_filter)

lemma um_wf_mapval: "um_wf (map (\<lambda>(k, v). (k, f k v)) m) = um_wf m"
  by (simp add: um_wf_def comp_def case_prod_beta)

lemma um_find_mapval [simp]:
  "um_find (map (\<lambda>(k, v). (k, f v)) m) k = map_option f (um_find m k)"
  by (induction m) auto

lemma um_find_iff: "um_wf m \<Longrightarrow> um_find m k = Some v \<longleftrightarrow> (k, v) \<in> set m"
  by (simp add: um_wf_def map_of_eq_Some_iff)

text \<open>
  What a client of the table relies on, as an interface: lookups after an insertion that
  never overwrites. The name caches of the profiler client are built on it.
\<close>

locale insert_table =
  fixes lookup :: "'m \<Rightarrow> 'k \<Rightarrow> 'v option"
    and ins :: "'k \<Rightarrow> 'v \<Rightarrow> 'm \<Rightarrow> 'm"
  assumes lookup_ins:
    "lookup (ins k v m) k' = (if k' = k \<and> lookup m k = None then Some v else lookup m k')"
begin

lemma lookup_ins_new: "lookup m k = None \<Longrightarrow> lookup (ins k v m) = (lookup m)(k \<mapsto> v)"
  by (auto simp: lookup_ins)

lemma lookup_ins_old: "lookup m k = Some w \<Longrightarrow> lookup (ins k v m) = lookup m"
  by (auto simp: lookup_ins)

lemma lookup_ins_stable: "lookup m k' = Some w \<Longrightarrow> lookup (ins k v m) k' = Some w"
  by (auto simp: lookup_ins)

end

interpretation um: insert_table "map_of :: ('k \<times> 'v) list \<Rightarrow> 'k \<Rightarrow> 'v option" um_insert
  by unfold_locales (rule um_find_insert)

lemma count_list_replicate: "count_list (replicate n a) x = (if x = a then n else 0)"
  by (induction n) auto

lemma count_list_distinct: "distinct xs \<Longrightarrow> count_list xs x = of_bool (x \<in> set xs)"
  by (induction xs) auto

section \<open>Reachability\<close>

text \<open>Everything the edges of \<open>R\<close> lead to from the set \<open>S\<close>.\<close>

definition reach :: "'a set \<Rightarrow> ('a \<times> 'a) set \<Rightarrow> 'a set" where
  "reach S R = R\<^sup>* `` S"

lemma reach_base: "S \<subseteq> reach S R"
  by (auto simp: reach_def)

lemma reach_step: "x \<in> reach S R \<Longrightarrow> (x, y) \<in> R \<Longrightarrow> y \<in> reach S R"
  by (auto simp: reach_def intro: rtrancl_into_rtrancl)

lemma reach_subset:
  assumes "S \<subseteq> X" and "\<And>x y. x \<in> X \<Longrightarrow> (x, y) \<in> R \<Longrightarrow> y \<in> X"
  shows "reach S R \<subseteq> X"
proof
  fix y
  assume "y \<in> reach S R"
  then obtain x where "x \<in> S" and "(x, y) \<in> R\<^sup>*" by (auto simp: reach_def)
  from this(2) show "y \<in> X"
    by (induction rule: rtrancl_induct) (use \<open>x \<in> S\<close> assms in auto)
qed

section \<open>Invariants of step relations\<close>

text \<open>
  The shape every state machine of the development has: initial states, steps, and a
  predicate that holds initially and is kept by each step.
\<close>

inductive steps :: "('s \<Rightarrow> 's \<Rightarrow> bool) \<Rightarrow> 's \<Rightarrow> 's \<Rightarrow> bool" for step where
  steps_refl: "steps step s s"
| steps_more: "steps step s t \<Longrightarrow> step t u \<Longrightarrow> steps step s u"

lemma steps_trans: "steps step s t \<Longrightarrow> steps step t u \<Longrightarrow> steps step s u"
  by (rotate_tac 1, induction rule: steps.induct) (auto intro: steps_more)

lemma steps_one: "step s t \<Longrightarrow> steps step s t"
  using steps_more [where step = step, OF steps_refl] .

locale invariant_machine =
  fixes init :: "'s \<Rightarrow> bool" and step :: "'s \<Rightarrow> 's \<Rightarrow> bool" and inv :: "'s \<Rightarrow> bool"
  assumes init_inv: "init s \<Longrightarrow> inv s"
    and step_inv: "inv s \<Longrightarrow> step s t \<Longrightarrow> inv t"
begin

lemma steps_keep: "steps step s t \<Longrightarrow> inv s \<Longrightarrow> inv t"
  by (induction rule: steps.induct) (auto intro: step_inv)

lemma reachable_inv: "init s \<Longrightarrow> steps step s t \<Longrightarrow> inv t"
  by (blast intro: init_inv steps_keep)

end

text \<open>A machine that implements an abstract one through \<open>abs\<close>: each step is matched by steps of
  the abstract machine (none for steps it does not see).\<close>

locale refinement = invariant_machine init step inv
  for init :: "'s \<Rightarrow> bool" and step :: "'s \<Rightarrow> 's \<Rightarrow> bool" and inv :: "'s \<Rightarrow> bool" +
  fixes abs :: "'s \<Rightarrow> 'a" and astep :: "'a \<Rightarrow> 'a \<Rightarrow> bool"
  assumes step_refines: "inv s \<Longrightarrow> step s t \<Longrightarrow> abs t = abs s \<or> astep (abs s) (abs t)"
begin

lemma run_refines: "steps step s t \<Longrightarrow> inv s \<Longrightarrow> steps astep (abs s) (abs t)"
proof (induction rule: steps.induct)
  case (steps_more s t u)
  then have "steps astep (abs s) (abs t)" "inv t" using steps_keep by blast+
  with step_refines [OF \<open>inv t\<close> steps_more.hyps(2)] show ?case
    using steps.steps_more [of astep "abs s" "abs t" "abs u"] by auto
qed (rule steps_refl)

lemma reachable_refines: "init s \<Longrightarrow> steps step s t \<Longrightarrow> steps astep (abs s) (abs t)"
  by (blast intro: init_inv run_refines)

end

section \<open>Calls that may wait or crash\<close>

text \<open>A call returns, waits for another thread (a lock or a flag), or accesses invalid memory.\<close>

datatype 'a call = Returns 'a | Blocks | Faults

definition call_bind :: "'a call \<Rightarrow> ('a \<Rightarrow> 'b call) \<Rightarrow> 'b call" where
  "call_bind m f = (case m of Returns a \<Rightarrow> f a | Blocks \<Rightarrow> Blocks | Faults \<Rightarrow> Faults)"

definition call_of :: "'a option \<Rightarrow> 'a call" where
  "call_of x = (case x of Some a \<Rightarrow> Returns a | None \<Rightarrow> Faults)"

lemma call_bind_simps [simp]:
  "call_bind (Returns a) f = f a" "call_bind Blocks f = Blocks" "call_bind Faults f = Faults"
  by (simp_all add: call_bind_def)

lemma call_of_simps [simp]: "call_of (Some a) = Returns a" "call_of None = Faults"
  by (simp_all add: call_of_def)

end
