(* ===== verification/Wire.thy ===== *)
theory Wire
  imports Prelude
begin

unbundle bit_operations_syntax

text \<open>
  The byte codec both ends of the profiler share: \<^verbatim>\<open>common/memory_writer.h\<close> appends values to
  a byte vector, \<^verbatim>\<open>common/memory_reader.h\<close> reads them back. A writer is the vector it fills,
  a reader is the vector with a position of type \<^verbatim>\<open>size_t\<close>; the position arithmetic of the
  bounds checks is done on 64-bit words, so that its wrap-around is part of the model.
\<close>

section \<open>memory\_writer.h\<close>

text \<open>\<^verbatim>\<open>write<T>\<close>: grow the vector by \<^verbatim>\<open>sizeof(T)\<close> bytes and copy the object there.\<close>

definition write_raw :: "nat \<Rightarrow> nat \<Rightarrow> bytes \<Rightarrow> bytes" where
  "write_raw value_size v storage = storage @ le_bytes value_size v"

definition write_uint8 :: "u8 \<Rightarrow> bytes \<Rightarrow> bytes" where
  "write_uint8 value storage = write_raw 1 (unat value) storage"

definition write_uint16 :: "u16 \<Rightarrow> bytes \<Rightarrow> bytes" where
  "write_uint16 value storage = write_raw 2 (unat value) storage"

definition write_uint32 :: "u32 \<Rightarrow> bytes \<Rightarrow> bytes" where
  "write_uint32 value storage = write_raw 4 (unat value) storage"

definition write_uint64 :: "u64 \<Rightarrow> bytes \<Rightarrow> bytes" where
  "write_uint64 value storage = write_raw 8 (unat value) storage"

text \<open>The four masks and shifts that both \<^verbatim>\<open>_be\<close> functions spell out.\<close>

definition swap_uint32 :: "u32 \<Rightarrow> u32" where
  "swap_uint32 value =
     (let value_be = push_bit 24 (value AND 0xFF);
          value_be = value_be OR push_bit 8 (value AND 0xFF00);
          value_be = value_be OR drop_bit 8 (value AND 0xFF0000);
          value_be = value_be OR drop_bit 24 (value AND 0xFF000000)
      in value_be)"

definition write_uint32_be :: "u32 \<Rightarrow> bytes \<Rightarrow> bytes" where
  "write_uint32_be value storage = write_uint32 (swap_uint32 value) storage"

definition write_varint :: "u64 \<Rightarrow> bytes \<Rightarrow> bytes" where
  "write_varint value storage =
     (if value < 0xFD then write_uint8 (ucast value) storage
      else if value < 0xFFFF then write_uint16 (ucast value) (write_uint8 0xFD storage)
      else if value < 0xFFFFFFFF then write_uint32 (ucast value) (write_uint8 0xFE storage)
      else write_uint64 value (write_uint8 0xFF storage))"

definition write_buffer :: "bytes \<Rightarrow> bytes \<Rightarrow> bytes" where
  "write_buffer buffer storage = storage @ buffer"

definition write_buffer_reversed :: "bytes \<Rightarrow> bytes \<Rightarrow> bytes" where
  "write_buffer_reversed buffer storage = storage @ rev buffer"

text \<open>The overload for a pointer and a length; \<open>None\<close> when the array is shorter than that.\<close>

definition write_buffer_ptr :: "bytes \<Rightarrow> nat \<Rightarrow> bytes \<Rightarrow> bytes option" where
  "write_buffer_ptr buffer len storage =
     (if len \<le> length buffer then Some (storage @ take len buffer) else None)"

definition write_varint_length_and_bufffer :: "bytes \<Rightarrow> bytes \<Rightarrow> bytes" where
  "write_varint_length_and_bufffer buffer storage =
     write_buffer buffer (write_varint (of_nat (length buffer)) storage)"

definition write_string :: "bytes \<Rightarrow> bytes \<Rightarrow> bytes" where
  "write_string str storage =
     (let s = c_str str in write_varint (of_nat (length s)) storage @ s)"

section \<open>memory\_reader.h\<close>

record memory_reader =
  m_storage :: bytes
  m_pos :: u64

text \<open>
  A read yields its value, or \<^verbatim>\<open>false\<close> (\<open>Fail\<close>), or it passes its bounds check and still
  touches bytes outside the vector (\<open>Undef\<close>: undefined behaviour, an exception or a crash).
\<close>

datatype 'a read_result = Ok 'a | Fail | Undef

type_synonym 'a read_m = "memory_reader \<Rightarrow> 'a read_result \<times> memory_reader"

definition read_bind :: "'a read_m \<Rightarrow> ('a \<Rightarrow> 'b read_m) \<Rightarrow> 'b read_m" where
  "read_bind m f r =
     (case m r of
        (Ok a, r') \<Rightarrow> f a r'
      | (Fail, r') \<Rightarrow> (Fail, r')
      | (Undef, r') \<Rightarrow> (Undef, r'))"

definition read_return :: "'a \<Rightarrow> 'a read_m" where
  "read_return a r = (Ok a, r)"

text \<open>\<^verbatim>\<open>m_storage.size()\<close> as the \<^verbatim>\<open>size_t\<close> it is.\<close>

abbreviation storage_size :: "memory_reader \<Rightarrow> u64" where
  "storage_size r \<equiv> of_nat (length (m_storage r))"

text \<open>The bounds check and the copy that \<^verbatim>\<open>read<T>\<close>, \<^verbatim>\<open>read_buffer\<close> and \<^verbatim>\<open>read_string\<close>
  share: the check compares wrapped sums, the copy needs the bytes to exist.\<close>

definition read_span :: "u64 \<Rightarrow> bytes read_m" where
  "read_span len r =
     (if m_pos r + len > storage_size r then (Fail, r)
      else if unat (m_pos r) + unat len \<le> length (m_storage r)
      then (Ok (take (unat len) (drop (unat (m_pos r)) (m_storage r))),
            r\<lparr>m_pos := m_pos r + len\<rparr>)
      else (Undef, r))"

definition read_uint8 :: "u8 read_m" where
  "read_uint8 = read_bind (read_span 1) (\<lambda>bs. read_return (of_nat (le_value bs)))"

definition read_uint16 :: "u16 read_m" where
  "read_uint16 = read_bind (read_span 2) (\<lambda>bs. read_return (of_nat (le_value bs)))"

definition read_uint32 :: "u32 read_m" where
  "read_uint32 = read_bind (read_span 4) (\<lambda>bs. read_return (of_nat (le_value bs)))"

definition read_uint64 :: "u64 read_m" where
  "read_uint64 = read_bind (read_span 8) (\<lambda>bs. read_return (of_nat (le_value bs)))"

definition read_uint32_be :: "u32 read_m" where
  "read_uint32_be = read_bind read_uint32 (\<lambda>value_be. read_return (swap_uint32 value_be))"

definition read_varint :: "u64 read_m" where
  "read_varint =
     read_bind read_uint8 (\<lambda>first_byte.
       if first_byte < 0xFD then read_return (ucast first_byte)
       else if first_byte = 0xFD then
         read_bind read_uint16 (\<lambda>value16. read_return (ucast value16))
       else if first_byte = 0xFE then
         read_bind read_uint32 (\<lambda>value32. read_return (ucast value32))
       else if first_byte = 0xFF then read_uint64
       else (\<lambda>r. (Fail, r)))"

text \<open>\<^verbatim>\<open>read_buffer\<close> into a vector and into a raw pointer (the caller's space is assumed).\<close>

definition read_buffer :: "u64 \<Rightarrow> bytes read_m" where
  "read_buffer len = read_span len"

definition read_buffer_ptr :: "u64 \<Rightarrow> bytes read_m" where
  "read_buffer_ptr len = read_span len"

definition read_varint_length_and_bufffer :: "bytes read_m" where
  "read_varint_length_and_bufffer = read_bind read_varint (\<lambda>len. read_buffer len)"

text \<open>\<^verbatim>\<open>read_string\<close> leaves the caller's string as it was when the length is zero.\<close>

definition read_string :: "bytes \<Rightarrow> bytes read_m" where
  "read_string str =
     read_bind read_varint (\<lambda>len r.
       if m_pos r + len > storage_size r then (Fail, r)
       else if len > 0 then read_span len r
       else (Ok str, r))"

definition get_pos :: "memory_reader \<Rightarrow> u64" where
  "get_pos r = m_pos r"

definition new_reader :: "bytes \<Rightarrow> memory_reader" where
  "new_reader storage = \<lparr>m_storage = storage, m_pos = 0\<rparr>"

text \<open>A caller that ignores the returned flag keeps what its variable held before.\<close>

definition read_ignoring :: "'a read_m \<Rightarrow> 'a \<Rightarrow> memory_reader \<Rightarrow> 'a read_result \<times> memory_reader" where
  "read_ignoring m junk r =
     (case m r of
        (Ok a, r') \<Rightarrow> (Ok a, r')
      | (Fail, r') \<Rightarrow> (Ok junk, r')
      | (Undef, r') \<Rightarrow> (Undef, r'))"

text \<open>A loop that reads \<open>n\<close> values and pushes each of them, as the message handlers do.\<close>

primrec read_loop :: "'a read_m \<Rightarrow> 'a \<Rightarrow> nat \<Rightarrow> 'a list read_m" where
  "read_loop m junk 0 = read_return []"
| "read_loop m junk (Suc n) =
     read_bind (read_ignoring m junk) (\<lambda>a.
       read_bind (read_loop m junk n) (\<lambda>as. read_return (a # as)))"

section \<open>Readers between what is consumed and what is left\<close>

definition reader_at :: "bytes \<Rightarrow> bytes \<Rightarrow> memory_reader" where
  "reader_at pre rest = \<lparr>m_storage = pre @ rest, m_pos = of_nat (length pre)\<rparr>"

definition reader_wf :: "memory_reader \<Rightarrow> bool" where
  "reader_wf r \<longleftrightarrow> unat (m_pos r) \<le> length (m_storage r) \<and> length (m_storage r) < 2 ^ 63"

lemma new_reader_at: "new_reader s = reader_at [] s"
  by (simp add: new_reader_def reader_at_def)

lemma unat_of_len [simp]: "n < 2 ^ 63 \<Longrightarrow> unat (of_nat n :: u64) = n"
  by (simp add: unat_of_nat take_bit_nat_eq_self)

lemma reader_wf_at: "length (pre @ rest) < 2 ^ 63 \<Longrightarrow> reader_wf (reader_at pre rest)"
  by (simp add: reader_wf_def reader_at_def)

lemma read_bind_simps [simp]:
  "m r = (Ok a, r') \<Longrightarrow> read_bind m f r = f a r'"
  "m r = (Fail, r') \<Longrightarrow> read_bind m f r = (Fail, r')"
  "m r = (Undef, r') \<Longrightarrow> read_bind m f r = (Undef, r')"
  by (simp_all add: read_bind_def)

lemma of_nat_le_len:
  fixes a b :: nat
  assumes "a < 2 ^ 63" "b < 2 ^ 63"
  shows "(of_nat a :: u64) \<le> of_nat b \<longleftrightarrow> a \<le> b" "(of_nat a :: u64) < of_nat b \<longleftrightarrow> a < b"
  using assms by (simp_all add: word_le_nat_alt word_less_nat_alt)

lemma read_span_at:
  assumes "length (pre @ s @ rest) < 2 ^ 63"
  shows "read_span (of_nat (length s)) (reader_at pre (s @ rest)) =
           (Ok s, reader_at (pre @ s) rest)"
proof -
  have "(of_nat (length pre) :: u64) + of_nat (length s) = of_nat (length (pre @ s))"
    by simp
  moreover have "\<not> (of_nat (length (pre @ s)) :: u64) > of_nat (length (pre @ s @ rest))"
    using assms by (subst of_nat_le_len) auto
  ultimately show ?thesis
    using assms by (simp add: read_span_def reader_at_def)
qed

lemma read_span_le:
  assumes "length (pre @ le_bytes n v @ rest) < 2 ^ 63" "w = of_nat n"
  shows "read_span w (reader_at pre (le_bytes n v @ rest)) =
           (Ok (le_bytes n v), reader_at (pre @ le_bytes n v) rest)"
  using read_span_at [of pre "le_bytes n v" rest] assms by simp

lemma read_le_at:
  fixes x :: "'a::len word"
  assumes "length (pre @ le_bytes n (unat x) @ rest) < 2 ^ 63" "w = of_nat n"
    and "LENGTH('a) = 8 * n"
  shows "read_bind (read_span w) (\<lambda>bs. read_return (of_nat (le_value bs) :: 'a word))
           (reader_at pre (le_bytes n (unat x) @ rest)) =
         (Ok x, reader_at (pre @ le_bytes n (unat x)) rest)"
  using read_span_le [OF assms(1,2)] le_roundtrip_word [OF assms(3), of x]
  by (simp add: read_return_def)

lemma le_bytes_byte [simp]: "le_bytes (Suc 0) (unat (a :: u8)) = [a]"
  by simp

lemma read_uint8_at [wire_simps]:
  assumes "length (pre @ a # rest) < 2 ^ 63"
  shows "read_uint8 (reader_at pre (a # rest)) = (Ok a, reader_at (pre @ [a]) rest)"
  using read_le_at [of pre 1 a rest 1] assms by (simp add: read_uint8_def)

lemma read_uint_at [wire_simps]:
  "length (pre @ le_bytes 2 (unat b) @ rest) < 2 ^ 63 \<Longrightarrow>
     read_uint16 (reader_at pre (le_bytes 2 (unat b) @ rest)) =
       (Ok b, reader_at (pre @ le_bytes 2 (unat b)) rest)"
  "length (pre @ le_bytes 4 (unat c) @ rest) < 2 ^ 63 \<Longrightarrow>
     read_uint32 (reader_at pre (le_bytes 4 (unat c) @ rest)) =
       (Ok c, reader_at (pre @ le_bytes 4 (unat c)) rest)"
  "length (pre @ le_bytes 8 (unat d) @ rest) < 2 ^ 63 \<Longrightarrow>
     read_uint64 (reader_at pre (le_bytes 8 (unat d) @ rest)) =
       (Ok d, reader_at (pre @ le_bytes 8 (unat d)) rest)"
  by (simp_all add: read_uint16_def read_uint32_def read_uint64_def read_le_at)

lemmas write_defs =
  write_raw_def write_uint8_def write_uint16_def write_uint32_def write_uint64_def

lemma write_varint_append [wire_simps]: "write_varint v s = s @ write_varint v []"
  by (simp add: write_varint_def write_defs)

text \<open>The encoding is one of four fixed layouts, chosen by the value.\<close>

lemma write_varint_cases:
  obtains (byte) "write_varint v [] = [ucast v]" "v < 0xFD"
  | (word16) "write_varint v [] = 0xFD # le_bytes 2 (unat (ucast v :: u16))" "v < 0xFFFF"
      "\<not> v < 0xFD"
  | (word32) "write_varint v [] = 0xFE # le_bytes 4 (unat (ucast v :: u32))" "v < 0xFFFFFFFF"
      "\<not> v < 0xFFFF"
  | (word64) "write_varint v [] = 0xFF # le_bytes 8 (unat v)" "\<not> v < 0xFFFFFFFF"
proof -
  consider "v < 0xFD" | "\<not> v < 0xFD" "v < 0xFFFF" | "\<not> v < 0xFFFF" "v < 0xFFFFFFFF"
    | "\<not> v < 0xFFFFFFFF" by linarith
  then show ?thesis
  proof cases
    case 1
    then show ?thesis by (intro byte) (simp_all add: write_varint_def write_defs)
  next
    case 2
    then show ?thesis by (intro word16) (simp_all add: write_varint_def write_defs)
  next
    case 3
    then have "\<not> v < 0xFD" by (simp add: word_less_nat_alt)
    with 3 show ?thesis by (intro word32) (simp_all add: write_varint_def write_defs)
  next
    case 4
    then have "\<not> v < 0xFD" "\<not> v < 0xFFFF" by (simp_all add: word_less_nat_alt)
    with 4 show ?thesis by (intro word64) (simp_all add: write_varint_def write_defs)
  qed
qed

lemma ucast_ucast_small:
  fixes v :: u64
  assumes "unat v < 2 ^ LENGTH('b::len)"
  shows "ucast (ucast v :: 'b word) = v"
proof (rule unsigned_word_eqI)
  have "unat (ucast v :: 'b word) = unat v"
    using assms by (simp add: unsigned_ucast_eq take_bit_nat_eq_self)
  moreover have "unat v < 2 ^ LENGTH(64)" by (rule unsigned_less)
  ultimately show "unat (ucast (ucast v :: 'b word) :: u64) = unat v"
    by (simp add: unsigned_ucast_eq take_bit_nat_eq_self unsigned_take_bit_eq)
qed

lemma ucast_back:
  fixes v :: u64
  shows "v < 0xFD \<Longrightarrow> ucast (ucast v :: u8) = v"
    and "v < 0xFFFF \<Longrightarrow> ucast (ucast v :: u16) = v"
    and "v < 0xFFFFFFFF \<Longrightarrow> ucast (ucast v :: u32) = v"
  by (rule ucast_ucast_small; simp add: word_less_nat_alt)+

lemma ucast_byte_small: "v < 0xFD \<Longrightarrow> (ucast (v :: u64) :: u8) < 0xFD"
  by (simp add: word_less_nat_alt unsigned_ucast_eq take_bit_nat_eq_self)

lemma read_varint_at [wire_simps]:
  assumes "length (pre @ write_varint v [] @ rest) < 2 ^ 63"
  shows "read_varint (reader_at pre (write_varint v [] @ rest)) =
           (Ok v, reader_at (pre @ write_varint v []) rest)"
proof (cases v rule: write_varint_cases)
  case byte
  with assms show ?thesis
    by (simp add: read_varint_def read_uint8_at read_return_def ucast_byte_small ucast_back)
next
  case word16
  with assms show ?thesis
    using read_uint_at(1) [of "pre @ [0xFD]" "ucast v" rest]
    by (simp add: read_varint_def read_uint8_at read_return_def ucast_back)
next
  case word32
  with assms show ?thesis
    using read_uint_at(2) [of "pre @ [0xFE]" "ucast v" rest]
    by (simp add: read_varint_def read_uint8_at read_return_def ucast_back)
next
  case word64
  with assms show ?thesis
    using read_uint_at(3) [of "pre @ [0xFF]" v rest]
    by (simp add: read_varint_def read_uint8_at read_return_def)
qed

lemma length_write_varint: "length (write_varint v []) \<le> 9"
  by (cases v rule: write_varint_cases) simp_all

lemma c_str_idem [simp]: "c_str (c_str s) = c_str s"
  by (simp add: c_str_def takeWhile_idem)

lemma length_c_str: "length (c_str s) \<le> length s"
  by (simp add: c_str_def length_takeWhile_le)

lemma write_string_append [wire_simps]: "write_string v s = s @ write_string v []"
  unfolding write_string_def Let_def
  by (subst write_varint_append) simp

lemma read_string_at [wire_simps]:
  assumes "length (pre @ write_string v [] @ rest) < 2 ^ 63"
  shows "read_string [] (reader_at pre (write_string v [] @ rest)) =
           (Ok (c_str v), reader_at (pre @ write_string v []) rest)"
proof -
  let ?s = "c_str v" and ?n = "write_varint (of_nat (length (c_str v))) []"
  have w: "write_string v [] = ?n @ ?s" by (simp add: write_string_def Let_def)
  have len: "length (pre @ ?n @ ?s @ rest) < 2 ^ 63" using assms w by simp
  then have rd: "read_varint (reader_at pre (?n @ ?s @ rest)) =
      (Ok (of_nat (length ?s)), reader_at (pre @ ?n) (?s @ rest))"
    by (intro read_varint_at) simp
  have sp: "read_span (of_nat (length ?s)) (reader_at (pre @ ?n) (?s @ rest)) =
      (Ok ?s, reader_at (pre @ ?n @ ?s) rest)"
    using read_span_at [of "pre @ ?n" ?s rest] len by simp
  then have chk: "\<not> storage_size (reader_at (pre @ ?n) (?s @ rest)) <
      m_pos (reader_at (pre @ ?n) (?s @ rest)) + of_nat (length ?s)"
    by (auto simp: read_span_def split: if_splits)
  show ?thesis
  proof (cases "?s = []")
    case True
    with rd w chk show ?thesis by (simp add: read_string_def)
  next
    case False
    then have "(0 :: u64) < of_nat (length ?s)"
      using len of_nat_le_len(2) [of 0 "length ?s"] by simp
    with rd w sp chk show ?thesis by (simp add: read_string_def)
  qed
qed

section \<open>The codec contract\<close>

text \<open>
  What a message handler relies on when it reads fields back in the order they were written:
  the writer appends \<open>put v\<close>, and a reader in front of these bytes returns the value (as the
  codec shows it: a string loses what follows its first zero byte) and stands behind them.
\<close>

locale codec =
  fixes enc :: "'a \<Rightarrow> bytes \<Rightarrow> bytes" and put :: "'a \<Rightarrow> bytes"
    and dec :: "'a read_m" and shown :: "'a \<Rightarrow> 'a"
  assumes enc_put: "enc v s = s @ put v"
    and dec_put: "length (pre @ put v @ rest) < 2 ^ 63 \<Longrightarrow>
      dec (reader_at pre (put v @ rest)) = (Ok (shown v), reader_at (pre @ put v) rest)"
begin

lemma fold_enc: "fold enc vs s = s @ concat (map put vs)"
  by (induction vs arbitrary: s) (simp_all add: enc_put)

lemma bind_put:
  "length (pre @ put v @ rest) < 2 ^ 63 \<Longrightarrow>
     read_bind dec f (reader_at pre (put v @ rest)) = f (shown v) (reader_at (pre @ put v) rest)"
  by (simp add: dec_put)

lemma ignoring_put:
  "length (pre @ put v @ rest) < 2 ^ 63 \<Longrightarrow>
     read_ignoring dec junk (reader_at pre (put v @ rest)) =
       (Ok (shown v), reader_at (pre @ put v) rest)"
  by (simp add: dec_put read_ignoring_def)

lemma loop_put:
  "length (pre @ concat (map put vs) @ rest) < 2 ^ 63 \<Longrightarrow>
     read_loop dec junk (length vs) (reader_at pre (concat (map put vs) @ rest)) =
       (Ok (map shown vs), reader_at (pre @ concat (map put vs)) rest)"
proof (induction vs arbitrary: pre)
  case Nil
  then show ?case by (simp add: read_return_def)
next
  case (Cons v vs)
  have "read_ignoring dec junk (reader_at pre (put v @ concat (map put vs) @ rest)) =
      (Ok (shown v), reader_at (pre @ put v) (concat (map put vs) @ rest))"
    using Cons.prems by (intro ignoring_put) simp
  moreover have "read_loop dec junk (length vs)
        (reader_at (pre @ put v) (concat (map put vs) @ rest)) =
      (Ok (map shown vs), reader_at ((pre @ put v) @ concat (map put vs)) rest)"
    using Cons.prems by (intro Cons.IH) simp
  ultimately show ?case by (simp add: read_return_def)
qed

lemma written_read:
  assumes "length (enc v s @ rest) < 2 ^ 63"
  shows "dec \<lparr>m_storage = enc v s @ rest, m_pos = of_nat (length s)\<rparr> =
           (Ok (shown v), \<lparr>m_storage = enc v s @ rest, m_pos = of_nat (length (enc v s))\<rparr>)"
  using dec_put [of s v rest] assms by (simp add: reader_at_def enc_put)

end

definition put_uint8 :: "u8 \<Rightarrow> bytes" where "put_uint8 v = [v]"
definition put_uint32 :: "u32 \<Rightarrow> bytes" where "put_uint32 v = le_bytes 4 (unat v)"
definition put_uint64 :: "u64 \<Rightarrow> bytes" where "put_uint64 v = le_bytes 8 (unat v)"
definition put_varint :: "u64 \<Rightarrow> bytes" where "put_varint v = write_varint v []"
definition put_string :: "bytes \<Rightarrow> bytes" where "put_string v = write_string v []"

interpretation c8: codec write_uint8 put_uint8 read_uint8 id
  by unfold_locales (simp_all add: put_uint8_def write_defs read_uint8_at)

interpretation c32: codec write_uint32 put_uint32 read_uint32 id
  by unfold_locales (simp_all add: put_uint32_def write_defs read_uint_at)

interpretation c64: codec write_uint64 put_uint64 read_uint64 id
  by unfold_locales (simp_all add: put_uint64_def write_defs read_uint_at)

interpretation cvar: codec write_varint put_varint read_varint id
  by unfold_locales (simp_all add: put_varint_def read_varint_at write_varint_append [symmetric])

interpretation cstr: codec write_string put_string "read_string []" c_str
  by unfold_locales (simp_all add: put_string_def read_string_at write_string_append [symmetric])

lemmas enc_puts [wire_simps] =
  c8.enc_put c32.enc_put c64.enc_put cvar.enc_put cstr.enc_put
lemmas bind_puts [wire_simps] =
  c8.bind_put c32.bind_put c64.bind_put cvar.bind_put cstr.bind_put
lemmas ignoring_puts =
  c8.ignoring_put c32.ignoring_put c64.ignoring_put cvar.ignoring_put cstr.ignoring_put

section \<open>Bounds\<close>

definition read_safe :: "'a read_m \<Rightarrow> bool" where
  "read_safe m \<longleftrightarrow> (\<forall>r. reader_wf r \<longrightarrow>
     fst (m r) \<noteq> Undef \<and> reader_wf (snd (m r)) \<and> m_storage (snd (m r)) = m_storage r)"

lemma unat_plus_small:
  fixes a b :: u64
  assumes "unat a + unat b < 2 ^ 64"
  shows "unat (a + b) = unat a + unat b"
  using assms by (simp add: unat_word_ariths)

lemma read_span_small_safe:
  assumes "unat len < 2 ^ 63"
  shows "read_safe (read_span len)"
  unfolding read_safe_def
proof (intro allI impI)
  fix r
  assume wf: "reader_wf r"
  then have sum: "unat (m_pos r + len) = unat (m_pos r) + unat len"
    using assms by (intro unat_plus_small) (simp add: reader_wf_def)
  have size: "unat (storage_size r) = length (m_storage r)"
    using wf by (simp add: reader_wf_def)
  show "fst (read_span len r) \<noteq> Undef \<and> reader_wf (snd (read_span len r)) \<and>
      m_storage (snd (read_span len r)) = m_storage r"
    using wf by (auto simp: read_span_def reader_wf_def word_less_nat_alt sum size)
qed

lemma read_safe_bind:
  assumes "read_safe m" and "\<And>a. read_safe (f a)"
  shows "read_safe (read_bind m f)"
  unfolding read_safe_def
proof (intro allI impI)
  fix r
  assume wf: "reader_wf r"
  obtain a r' where m: "m r = (a, r')" by (cases "m r")
  with assms(1) wf have "a \<noteq> Undef" "reader_wf r'" "m_storage r' = m_storage r"
    unfolding read_safe_def by (metis fst_conv snd_conv)+
  then show "fst (read_bind m f r) \<noteq> Undef \<and> reader_wf (snd (read_bind m f r)) \<and>
      m_storage (snd (read_bind m f r)) = m_storage r"
    using assms(2) m by (cases a) (auto simp: read_bind_def read_safe_def)
qed

lemma read_safe_return: "read_safe (read_return a)"
  by (simp add: read_safe_def read_return_def)

lemma read_safe_fixed:
  "read_safe read_uint8" "read_safe read_uint16" "read_safe read_uint32" "read_safe read_uint64"
  unfolding read_uint8_def read_uint16_def read_uint32_def read_uint64_def
  by (intro read_safe_bind read_span_small_safe read_safe_return; simp)+

lemma read_safe_varint: "read_safe read_varint"
  unfolding read_varint_def
proof (rule read_safe_bind)
  show "read_safe read_uint8" by (rule read_safe_fixed)
next
  fix b :: u8
  show "read_safe (if b < 0xFD then read_return (ucast b)
      else if b = 0xFD then read_bind read_uint16 (\<lambda>v. read_return (ucast v))
      else if b = 0xFE then read_bind read_uint32 (\<lambda>v. read_return (ucast v))
      else if b = 0xFF then read_uint64 else (\<lambda>r. (Fail, r)))"
    by (simp add: read_safe_bind read_safe_fixed read_safe_return)
      (simp add: read_safe_def)
qed

lemma span_bound_wraps:
  fixes p len :: u64
  assumes "unat p \<le> n" "n < 2 ^ 63"
  shows "\<not> p + len > of_nat n \<and> \<not> unat p + unat len \<le> n \<longleftrightarrow>
    2 ^ 64 \<le> unat p + unat len"
proof (cases "unat p + unat len < 2 ^ 64")
  case True
  then show ?thesis
    using assms by (auto simp: word_less_nat_alt unat_plus_small)
next
  case False
  have "unat len < 2 ^ 64" using unsigned_less [of len, where ?'a = nat] by simp
  then have "unat (p + len) = unat p + unat len - 2 ^ 64"
    using False assms by (simp add: unat_word_ariths mod_if)
  then show ?thesis
    using assms False \<open>unat len < 2 ^ 64\<close> by (simp add: word_less_nat_alt)
qed

section \<open>Properties\<close>

text \<open>
  The variable-length integers survive the wire: whatever was written before and follows
  after, \<^verbatim>\<open>read_varint\<close> at the position where \<^verbatim>\<open>write_varint\<close> put a value returns that value
  and stops right behind its bytes.
\<close>

theorem varint_roundtrip:
  assumes "length (write_varint v s @ rest) < 2 ^ 63"
  shows "read_varint \<lparr>m_storage = write_varint v s @ rest, m_pos = of_nat (length s)\<rparr> =
    (Ok v, \<lparr>m_storage = write_varint v s @ rest, m_pos = of_nat (length (write_varint v s))\<rparr>)"
  using cvar.written_read [OF assms] by simp

theorem varint_roundtrip_witness:
  "read_varint \<lparr>m_storage = write_varint 70000 [7] @ [9], m_pos = 1\<rparr> =
    (Ok 70000, \<lparr>m_storage = [7, 0xFE, 0x70, 0x11, 1, 0, 9], m_pos = 6\<rparr>)"
proof -
  have w: "write_varint 70000 [7] = [7, 0xFE, 0x70, 0x11, 1, 0]"
    by (simp add: write_varint_def write_defs eval_simps)
  then show ?thesis using varint_roundtrip [of 70000 "[7]" "[9]"] by simp
qed

text \<open>
  Strings survive the wire up to their first zero byte, which is where the writer's
  \<^verbatim>\<open>strlen\<close> stops; a reader that starts with an empty string gets exactly that prefix.
\<close>

theorem string_roundtrip:
  assumes "length (write_string v s @ rest) < 2 ^ 63"
  shows "read_string [] \<lparr>m_storage = write_string v s @ rest, m_pos = of_nat (length s)\<rparr> =
    (Ok (takeWhile (\<lambda>b. b \<noteq> 0) v),
     \<lparr>m_storage = write_string v s @ rest, m_pos = of_nat (length (write_string v s))\<rparr>)"
  using cstr.written_read [OF assms] by (simp add: c_str_def)

theorem string_roundtrip_witness:
  "fst (read_string [] \<lparr>m_storage = write_string [104, 105, 0, 7] [1] @ [9], m_pos = 1\<rparr>) =
    Ok [104, 105]"
proof -
  have "length (write_string [104, 105, 0, 7] [1] @ [9]) < 2 ^ 63"
    by (simp add: write_string_def c_str_def write_varint_def write_defs Let_def)
  from string_roundtrip [OF this] show ?thesis by simp
qed

lemma swap_bytes:
  "le_bytes 4 (unat (swap_uint32 v)) = rev (le_bytes 4 (unat v))"
proof -
  have m: "(0xFF :: u32) = mask 8" "(0xFF00 :: u32) = push_bit 8 (mask 8)"
    "(0xFF0000 :: u32) = push_bit 16 (mask 8)" "(0xFF000000 :: u32) = push_bit 24 (mask 8)"
    by (simp_all add: mask_eq_exp_minus_1 push_bit_eq_mult)
  have low: "(of_nat (unat x mod 256) :: u8) = ucast x" for x :: u32
    by (simp add: word_unat_eq_iff unsigned_ucast_eq take_bit_nat_def)
  have drop: "unat (drop_bit k x) = unat x div 2 ^ k" for x :: u32 and k
    using unsigned_less [of x, where ?'a = nat]
    by (simp add: unsigned_drop_bit_eq take_bit_nat_eq_self) (simp add: drop_bit_eq_div)
  have byte: "le_bytes 4 (unat w) =
      [ucast w, ucast (drop_bit 8 w), ucast (drop_bit 16 w), ucast (drop_bit 24 w)]" for w :: u32
    using low [of w] low [of "drop_bit 8 w"] low [of "drop_bit 16 w"] low [of "drop_bit 24 w"]
    by (simp add: eval_simps drop div_mult2_eq [symmetric])
  show ?thesis
    unfolding byte swap_uint32_def Let_def m
    by (auto intro!: bit_word_eqI simp: bit_simps)
qed

text \<open>
  The big-endian writer stores the most significant byte first (its four bytes are the
  little-endian ones in reverse), and the big-endian reader gives the value back.
\<close>

theorem uint32_be_roundtrip:
  assumes "length s + 4 + length rest < 2 ^ 63"
  shows "write_uint32_be v s = s @ rev (le_bytes 4 (unat v)) \<and>
    read_uint32_be \<lparr>m_storage = write_uint32_be v s @ rest, m_pos = of_nat (length s)\<rparr> =
      (Ok v, \<lparr>m_storage = write_uint32_be v s @ rest, m_pos = of_nat (length s + 4)\<rparr>)"
proof -
  have bytes: "write_uint32_be v s = s @ rev (le_bytes 4 (unat v))"
    by (simp add: write_uint32_be_def write_defs swap_bytes)
  have "le_bytes 4 (unat (swap_uint32 (swap_uint32 v))) = le_bytes 4 (unat v)"
    by (simp add: swap_bytes)
  then have "(of_nat (le_value (le_bytes 4 (unat (swap_uint32 (swap_uint32 v))))) :: u32) =
      of_nat (le_value (le_bytes 4 (unat v)))" by simp
  then have swap: "swap_uint32 (swap_uint32 v) = v"
    by (simp add: le_roundtrip_word)
  have "read_uint32 \<lparr>m_storage = write_uint32_be v s @ rest, m_pos = of_nat (length s)\<rparr> =
      (Ok (swap_uint32 v), \<lparr>m_storage = write_uint32_be v s @ rest, m_pos = of_nat (length s + 4)\<rparr>)"
    using c32.written_read [of "swap_uint32 v" s rest] assms
    by (simp add: write_uint32_be_def c32.enc_put put_uint32_def)
  then show ?thesis
    using bytes swap by (simp add: read_uint32_be_def read_return_def)
qed

theorem uint32_be_roundtrip_witness:
  "write_uint32_be 0x01020304 [] = [1, 2, 3, 4] \<and>
   fst (read_uint32_be \<lparr>m_storage = write_uint32_be 0x01020304 [] @ [], m_pos = 0\<rparr>) =
     Ok 0x01020304"
  using uint32_be_roundtrip [of "[]" "[]" "0x01020304"] by (auto simp: eval_simps)





end
