(* ===== verification/Queue.thy ===== *)
theory Queue
  imports Prelude
begin

text \<open>
  The queue interface the worker thread and the network layer rely on
  (\<^verbatim>\<open>moodycamel::ConcurrentQueue\<close>, \<^verbatim>\<open>common/concurrentqueue.h\<close>). Items enqueued through one
  producer come out in the order they went in; that contract is the locale \<open>fifo\<close>, and the
  model of the components is the plain list that implements it. How \<^verbatim>\<open>concurrentqueue.h\<close> keeps the
  promise is the subject of \<open>Block_Queue\<close> and the theories on top of it.
\<close>

definition enqueue :: "'a \<Rightarrow> 'a list \<Rightarrow> 'a list" where
  "enqueue x q = q @ [x]"

definition try_dequeue :: "'a list \<Rightarrow> ('a \<times> 'a list) option" where
  "try_dequeue q = (case q of [] \<Rightarrow> None | x # q' \<Rightarrow> Some (x, q'))"

definition size_approx :: "'a list \<Rightarrow> nat" where
  "size_approx q = length q"

locale fifo =
  fixes enq :: "'a \<Rightarrow> 'q \<Rightarrow> 'q" and deq :: "'q \<Rightarrow> ('a \<times> 'q) option"
    and contents :: "'q \<Rightarrow> 'a list"
  assumes contents_enq: "contents (enq x q) = contents q @ [x]"
    and deq_None: "deq q = None \<longleftrightarrow> contents q = []"
    and deq_Some: "deq q = Some (x, q') \<Longrightarrow> contents q = x # contents q'"
begin

lemma contents_fold_enq: "contents (fold enq xs q) = contents q @ xs"
  by (induction xs arbitrary: q) (simp_all add: contents_enq)

lemma deq_enq_empty:
  assumes "contents q = []" "deq (enq x q) = Some (y, q')"
  shows "y = x \<and> contents q' = []"
  using deq_Some [OF assms(2)] assms(1) by (simp add: contents_enq)

lemma deq_nonempty: "contents q \<noteq> [] \<Longrightarrow> \<exists>q'. deq q = Some (hd (contents q), q')"
proof -
  assume "contents q \<noteq> []"
  then obtain x q' where "deq q = Some (x, q')" using deq_None by fastforce
  with deq_Some [OF this] show ?thesis by auto
qed

end

interpretation lq: fifo enqueue try_dequeue "\<lambda>q. q"
  by unfold_locales (auto simp: enqueue_def try_dequeue_def split: list.splits)

lemma fold_enqueue [simp]: "fold enqueue xs q = q @ xs"
  by (rule lq.contents_fold_enq)

lemma try_dequeue_simps [simp]:
  "try_dequeue [] = None" "try_dequeue (x # q) = Some (x, q)"
  by (simp_all add: try_dequeue_def)

end
