(* ===== verification/Worker.thy ===== *)
theory Worker
  imports Wire Queue
begin

unbundle bit_operations_syntax

text \<open>
  The worker thread of the profiled process (\<^verbatim>\<open>server/src/worker_thread.h\<close> and
  \<^verbatim>\<open>worker_thread.cpp\<close>): the table of live allocations, the queue of work items, the
  pseudo garbage collection that finds the dead allocations, the search for references, and
  the pause lock. Calls of the events sink are collected, in order, in \<open>m_reported\<close>.
\<close>

section \<open>The runtime the worker is attached to\<close>

text \<open>
  The functions of the Mono library that the worker calls, as parameters. Names are the C
  strings they return; \<open>object_get_class\<close> yields \<open>None\<close> where the object is no longer
  accessible and the call faults.
\<close>

record mono_api =
  get_class_namespace :: "u64 \<Rightarrow> bytes option"
  get_class_name :: "u64 \<Rightarrow> bytes"
  get_method_name :: "u64 \<Rightarrow> bytes"
  method_get_class :: "u64 \<Rightarrow> u64"
  object_get_class :: "u64 \<Rightarrow> u64 option"
  object_get_size :: "u64 \<Rightarrow> u32"
  stack_walk :: "u64 list"

text \<open>The memory of the process: what an 8-byte load at an address gives, \<open>None\<close> for an
  access violation.\<close>

type_synonym memory = "u64 \<Rightarrow> u64 option"

section \<open>Allocations, work items, roots\<close>

datatype alloc_flag = TMP_ALLOCATED | TMP_VISITED | IS_ROOT

fun flag_bit :: "alloc_flag \<Rightarrow> u8" where
  "flag_bit TMP_ALLOCATED = push_bit 0 1"
| "flag_bit TMP_VISITED = push_bit 1 1"
| "flag_bit IS_ROOT = push_bit 2 1"

record alloc_info =
  ai_size :: u32
  ai_flags :: u8
  ai_parents :: "u64 list"

definition set_flag :: "alloc_flag \<Rightarrow> alloc_info \<Rightarrow> alloc_info" where
  "set_flag f a = a\<lparr>ai_flags := ai_flags a OR flag_bit f\<rparr>"

definition reset_flag :: "alloc_flag \<Rightarrow> alloc_info \<Rightarrow> alloc_info" where
  "reset_flag f a = a\<lparr>ai_flags := ai_flags a AND NOT (flag_bit f)\<rparr>"

definition flag :: "alloc_info \<Rightarrow> alloc_flag \<Rightarrow> bool" where
  "flag a f \<longleftrightarrow> ai_flags a AND flag_bit f \<noteq> 0"

type_synonym allocations_map = "(u64, alloc_info) umap"

datatype work_item_type = Wi_alloc | Wi_free

record work_item =
  wi_frame :: u64
  wi_klass :: u64
  wi_obj :: u64
  wi_size :: u32
  wi_backtrace :: "u64 list"
  wi_type :: work_item_type

record root_info =
  root_start :: u64
  root_size :: u64

record object_references =
  or_addr :: u64
  or_type :: bytes
  or_parents :: "u64 list"

text \<open>The calls of the \<^verbatim>\<open>events_sink\<close> interface.\<close>

datatype sink_event =
    Report_alloc u64 u64 u32 bytes bytes
  | Report_free u64 u64 u32
  | Report_references u64 "object_references list"
  | Report_paused u64 bool
  | Report_resumed u64 bool

record worker =
  m_stopwords :: "bytes list"
  m_allocated :: u64
  m_freed :: u64
  m_work_items :: "work_item list"
  m_work_items_token :: bool
  m_work_items_empty :: bool
  wt_stop :: bool
  m_last_gc_frame :: u64
  wt_thread :: bool
  m_stop_lock :: bool
  m_allocations :: allocations_map
  m_roots :: "root_info list"
  fr_full_name :: bytes
  m_reported :: "sink_event list"

definition report :: "sink_event \<Rightarrow> worker \<Rightarrow> worker" where
  "report e w = w\<lparr>m_reported := m_reported w @ [e]\<rparr>"

definition new_worker :: worker where
  "new_worker = \<lparr>m_stopwords = map chars [''UberConsole'', ''FPSCounter'', ''CullStateChanged'', ''IMGUI''],
     m_allocated = 0, m_freed = 0, m_work_items = [], m_work_items_token = True, m_work_items_empty = True, wt_stop = False,
     m_last_gc_frame = 0, wt_thread = False, m_stop_lock = False, m_allocations = [], m_roots = [],
     fr_full_name = [], m_reported = []\<rparr>"

section \<open>Names and callstacks\<close>

text \<open>\<^verbatim>\<open>snprintf\<close> into a buffer of \<open>n\<close> bytes keeps \<open>n - 1\<close> characters.\<close>

definition snprintf :: "nat \<Rightarrow> bytes \<Rightarrow> bytes" where
  "snprintf n s = take (n - 1) s"

definition get_full_class_name :: "mono_api \<Rightarrow> nat \<Rightarrow> u64 \<Rightarrow> bytes" where
  "get_full_class_name api buffer_size klass =
     (let namespace_name = (case get_class_namespace api klass of
            None \<Rightarrow> chars ''<global>'' | Some n \<Rightarrow> n);
          class_name = get_class_name api klass
      in snprintf (buffer_size - 1) (c_str namespace_name @ chars ''.'' @ c_str class_name))"

text \<open>The guarded variant keeps the buffer's previous contents when the object is gone.\<close>

definition get_full_class_name_at :: "mono_api \<Rightarrow> nat \<Rightarrow> u64 \<Rightarrow> bytes \<Rightarrow> bytes" where
  "get_full_class_name_at api buffer_size address buffer =
     (case object_get_class api address of
        Some klass \<Rightarrow> get_full_class_name api buffer_size klass
      | None \<Rightarrow> buffer)"

fun strstr :: "bytes \<Rightarrow> bytes \<Rightarrow> bool" where
  "strstr [] s = (s = [])"
| "strstr (c # cs) s = (take (length s) (c # cs) = s \<or> strstr cs s)"

definition method_line :: "mono_api \<Rightarrow> u64 \<Rightarrow> bytes" where
  "method_line api bt_item =
     (let klass = method_get_class api bt_item
      in snprintf 2047 (c_str (get_class_name api klass) @ chars ''.'' @
           c_str (get_method_name api bt_item) @ [10]))"

text \<open>The callstack text, or \<open>None\<close> when a stop word was met.\<close>

fun backtrace_text :: "mono_api \<Rightarrow> bytes list \<Rightarrow> u64 list \<Rightarrow> bytes \<Rightarrow> bytes option" where
  "backtrace_text api stopwords [] acc = Some acc"
| "backtrace_text api stopwords (m # ms) acc =
     (let method_name = method_line api m
      in if \<exists>s \<in> set stopwords. strstr method_name s then None
         else backtrace_text api stopwords ms (acc @ method_name))"

section \<open>The processing loop\<close>

definition add_allocation :: "u64 \<Rightarrow> u32 \<Rightarrow> u64 \<Rightarrow> worker \<Rightarrow> worker" where
  "add_allocation addr obj_size frame w =
     (case um_find (m_allocations w) addr of
        None \<Rightarrow> w\<lparr>m_allocations := um_insert addr \<lparr>ai_size = obj_size, ai_flags = 0, ai_parents = []\<rparr>
                    (m_allocations w)\<rparr>
      | Some old \<Rightarrow>
          let w1 = report (Report_free frame addr (ai_size old)) w
          in w1\<lparr>m_freed := m_freed w1 + ucast (ai_size old),
                m_allocations := um_modify addr (\<lambda>a. a\<lparr>ai_size := obj_size\<rparr>) (m_allocations w1)\<rparr>)"

definition process_item :: "mono_api \<Rightarrow> work_item \<Rightarrow> worker \<Rightarrow> worker" where
  "process_item api item w =
     (if wi_type item = Wi_free then
        let w1 = report (Report_free (wi_frame item) (wi_obj item) (wi_size item)) w
        in w1\<lparr>m_freed := m_freed w1 + ucast (wi_size item)\<rparr>
      else
        let full_name = get_full_class_name api 2048 (wi_klass item)
        in case backtrace_text api (m_stopwords w) (wi_backtrace item) [] of
             None \<Rightarrow> w
           | Some str \<Rightarrow>
               let backtrace_str = (if wi_backtrace item = [] then chars ''<no stack>'' else str);
                   w1 = add_allocation (wi_obj item) (wi_size item) (wi_frame item) w;
                   w2 = report (Report_alloc (wi_frame item) (wi_obj item) (wi_size item)
                          full_name backtrace_str) w1
               in w2\<lparr>m_allocated := m_allocated w2 + ucast (wi_size item)\<rparr>)"

text \<open>One pass through the loop of \<^verbatim>\<open>do_work\<close>, and what happens when the loop ends.\<close>

definition do_work_step :: "mono_api \<Rightarrow> worker \<Rightarrow> worker" where
  "do_work_step api w =
     (let w1 = w\<lparr>m_work_items_empty := False\<rparr>
      in case try_dequeue (m_work_items w1) of
           None \<Rightarrow> w1\<lparr>m_work_items_empty := True\<rparr>
         | Some (item, q) \<Rightarrow> process_item api item (w1\<lparr>m_work_items := q\<rparr>))"

text \<open>When the thread ends, the queue is swapped with an empty one that is destroyed at the end of the
  scope. The producer of the token goes with it: the destructor of the queue sets the token's pointer
  to its producer to null (\<open>m_work_items_token\<close> tells that the pointer is valid).\<close>

definition do_work_exit :: "worker \<Rightarrow> worker" where
  "do_work_exit w = w\<lparr>m_work_items := [], m_work_items_token := False, m_allocations := [], wt_thread := False\<rparr>"

definition start_thread :: "worker \<Rightarrow> worker" where
  "start_thread w = w\<lparr>wt_thread := True\<rparr>"

definition stop_thread :: "worker \<Rightarrow> worker" where
  "stop_thread w =
     (let w1 = (if m_stop_lock w then w\<lparr>m_stop_lock := False\<rparr> else w);
          w2 = w1\<lparr>wt_stop := True\<rparr>
      in if wt_thread w2 then do_work_exit w2 else w2)"

text \<open>Allocations block while the application is paused. Enqueuing with a token whose producer is gone
  dereferences the null pointer.\<close>

definition add_allocation_async :: "mono_api \<Rightarrow> u64 \<Rightarrow> u64 \<Rightarrow> u64 \<Rightarrow> worker \<Rightarrow> worker call" where
  "add_allocation_async api frame klass obj w =
     (if m_stop_lock w then Blocks
      else let item = \<lparr>wi_frame = frame, wi_klass = klass, wi_obj = obj,
                 wi_size = object_get_size api obj, wi_backtrace = stack_walk api,
                 wi_type = Wi_alloc\<rparr>
           in if \<not> m_work_items_token w then Faults
              else Returns (w\<lparr>m_work_items := enqueue item (m_work_items w)\<rparr>))"

definition register_root :: "u64 \<Rightarrow> u64 \<Rightarrow> worker \<Rightarrow> worker" where
  "register_root start obj_size w =
     w\<lparr>m_roots := m_roots w @ [\<lparr>root_start = start, root_size = obj_size\<rparr>]\<rparr>"

definition unregister_root :: "u64 \<Rightarrow> worker \<Rightarrow> worker" where
  "unregister_root start w = w\<lparr>m_roots := filter (\<lambda>r. root_start r \<noteq> start) (m_roots w)\<rparr>"

section \<open>The pseudo garbage collection\<close>

definition get_ptr_safe :: "memory \<Rightarrow> u64 \<Rightarrow> u64" where
  "get_ptr_safe mem p = (case mem p of Some v \<Rightarrow> v | None \<Rightarrow> 0)"

definition gc_clear :: "allocations_map \<Rightarrow> allocations_map" where
  "gc_clear m = map (\<lambda>(k, a). (k,
     (reset_flag TMP_VISITED (reset_flag IS_ROOT (reset_flag TMP_ALLOCATED a)))\<lparr>ai_parents := []\<rparr>)) m"

text \<open>The addresses of the whole words of a root area, and the loop that pushes what they
  point to. A root area is read without a guard: \<open>None\<close> is the access violation.\<close>

definition root_slots :: "root_info \<Rightarrow> u64 list" where
  "root_slots r = map (\<lambda>i. root_start r + 8 * of_nat i) [0..<unat (root_size r) div 8]"

definition push_root :: "u64 \<Rightarrow> allocations_map \<times> u64 list \<Rightarrow> allocations_map \<times> u64 list" where
  "push_root ref ms =
     (let (m, stack) = ms in
      if ref \<noteq> 0 then
        (case um_find m ref of
           Some a \<Rightarrow>
             if \<not> flag a TMP_ALLOCATED
             then (um_modify ref (\<lambda>a. set_flag TMP_ALLOCATED (set_flag IS_ROOT a)) m, ref # stack)
             else (m, stack)
         | None \<Rightarrow> (m, stack))
      else (m, stack))"

fun push_slots :: "memory \<Rightarrow> u64 list \<Rightarrow> allocations_map \<times> u64 list \<Rightarrow>
    (allocations_map \<times> u64 list) option" where
  "push_slots mem [] ms = Some ms"
| "push_slots mem (p # ps) ms =
     (case mem p of
        None \<Rightarrow> None
      | Some ref \<Rightarrow> push_slots mem ps (push_root ref ms))"

text \<open>Every byte offset at which a whole pointer fits into the object is looked at.\<close>

definition object_slots :: "u64 \<Rightarrow> u32 \<Rightarrow> u64 list" where
  "object_slots addr obj_size = map (\<lambda>i. addr + of_nat i) [0..<unat obj_size - 7]"

definition push_child :: "u64 \<Rightarrow> u64 \<Rightarrow> allocations_map \<times> u64 list \<Rightarrow> allocations_map \<times> u64 list" where
  "push_child entry candidate ms =
     (let (m, stack) = ms in
      case um_find m candidate of
        None \<Rightarrow> (m, stack)
      | Some a \<Rightarrow>
          let m1 = um_modify candidate (\<lambda>a. a\<lparr>ai_parents := ai_parents a @ [entry]\<rparr>) m
          in if \<not> flag a TMP_ALLOCATED
             then (um_modify candidate (\<lambda>a. set_flag TMP_ALLOCATED (reset_flag IS_ROOT a)) m1,
                   candidate # stack)
             else (m1, stack))"

definition scan_object :: "memory \<Rightarrow> u64 \<Rightarrow> allocations_map \<times> u64 list \<Rightarrow> allocations_map \<times> u64 list" where
  "scan_object mem entry ms =
     (case um_find (fst ms) entry of
        None \<Rightarrow> ms
      | Some info \<Rightarrow>
          fold (\<lambda>p. push_child entry (get_ptr_safe mem p)) (object_slots entry (ai_size info)) ms)"

definition unmarked :: "allocations_map \<Rightarrow> nat" where
  "unmarked m = length (filter (\<lambda>p. \<not> flag (snd p) TMP_ALLOCATED) m)"

text \<open>The flag byte behaves as a set of flags.\<close>

fun flag_index :: "alloc_flag \<Rightarrow> nat" where
  "flag_index TMP_ALLOCATED = 0"
| "flag_index TMP_VISITED = 1"
| "flag_index IS_ROOT = 2"

lemma flag_bit_exp: "flag_bit f = 2 ^ flag_index f"
  by (cases f) (simp_all add: push_bit_eq_mult)

lemma flag_index_inject [simp]: "flag_index f = flag_index g \<longleftrightarrow> f = g"
  by (cases f; cases g) simp_all

lemma flag_index_small: "flag_index f < 8"
  by (cases f) simp_all

lemma flag_iff_bit: "flag a f \<longleftrightarrow> bit (ai_flags a) (flag_index f)"
  by (simp add: flag_def flag_bit_exp and_exp_eq_0_iff_not_bit)

lemma flag_set_flag [simp]: "flag (set_flag f a) g \<longleftrightarrow> g = f \<or> flag a g"
  using flag_index_small [of g]
  by (auto simp: flag_iff_bit set_flag_def bit_or_iff flag_bit_exp bit_exp_iff)

lemma flag_reset_flag [simp]: "flag (reset_flag f a) g \<longleftrightarrow> g \<noteq> f \<and> flag a g"
  using flag_index_small [of g]
  by (auto simp: flag_iff_bit reset_flag_def bit_and_iff bit_not_iff flag_bit_exp bit_exp_iff)

lemma flag_other_fields [simp]:
  "ai_size (set_flag f a) = ai_size a" "ai_parents (set_flag f a) = ai_parents a"
  "ai_size (reset_flag f a) = ai_size a" "ai_parents (reset_flag f a) = ai_parents a"
  by (simp_all add: set_flag_def reset_flag_def)

lemma flag_updates [simp]:
  "flag (a\<lparr>ai_parents := ps\<rparr>) f = flag a f" "flag (a\<lparr>ai_size := n\<rparr>) f = flag a f"
  by (simp_all add: flag_def)

lemma flag_new [simp]: "\<not> flag \<lparr>ai_size = n, ai_flags = 0, ai_parents = ps\<rparr> f"
  by (simp add: flag_def)

text \<open>Each scan marks exactly what it pushes.\<close>

lemma count_modify:
  assumes "um_wf m" "um_find m k = Some a" "P a \<noteq> P (f a)"
  shows "length (filter (\<lambda>p. P (snd p)) (um_modify k f m)) =
    (if P a then length (filter (\<lambda>p. P (snd p)) m) - 1
     else Suc (length (filter (\<lambda>p. P (snd p)) m)))"
    and "P a \<Longrightarrow> 0 < length (filter (\<lambda>p. P (snd p)) m)"
  using assms
proof (induction m)
  case (Cons p m)
  {
    case 1
    show ?case
    proof (cases "fst p = k")
      case True
      with 1 have "k \<notin> fst ` set m" "snd p = a" by (auto simp: um_wf_def)
      then have "um_modify k f m = m" by (simp add: um_modify_absent)
      with True \<open>snd p = a\<close> 1 show ?thesis by auto
    next
      case False
      with 1 have "um_wf m" "um_find m k = Some a" by (auto simp: um_wf_def)
      with Cons.IH 1(3) False show ?thesis by auto
    qed
  next
    case 2
    then show ?case by (force simp: filter_empty_conv split: if_splits dest: map_of_SomeD)
  }
qed simp_all

lemma filter_modify_same:
  assumes "\<And>a. P (f a) = P a"
  shows "length (filter (\<lambda>p. P (snd p)) (um_modify k f m)) = length (filter (\<lambda>p. P (snd p)) m)"
  by (induction m) (auto simp: assms)

lemma unmarked_push_child:
  assumes "um_wf m" "push_child e c (m, st) = (m', st')"
  shows "um_wf m' \<and> unmarked m' + length st' = unmarked m + length st"
proof (cases "um_find m c")
  case None
  with assms show ?thesis by (simp add: push_child_def)
next
  case (Some a)
  let ?par = "\<lambda>a. a\<lparr>ai_parents := ai_parents a @ [e]\<rparr>"
  let ?mark = "\<lambda>a. set_flag TMP_ALLOCATED (reset_flag IS_ROOT a)"
  let ?m1 = "um_modify c ?par m"
  have wf1: "um_wf ?m1" using assms(1) by (rule um_wf_modify)
  have un1: "unmarked ?m1 = unmarked m"
    unfolding unmarked_def by (rule filter_modify_same) simp
  have f1: "um_find ?m1 c = Some (?par a)" using Some by (simp add: um_find_modify)
  show ?thesis
  proof (cases "flag a TMP_ALLOCATED")
    case True
    with Some assms(2) wf1 un1 show ?thesis by (auto simp: push_child_def Let_def)
  next
    case False
    note cm = count_modify [OF wf1 f1, of "\<lambda>a. \<not> flag a TMP_ALLOCATED" ?mark]
    have "unmarked (um_modify c ?mark ?m1) = unmarked ?m1 - 1" "0 < unmarked ?m1"
      using cm False by (simp_all add: unmarked_def)
    with Some False assms(2) un1 um_wf_modify [OF wf1] show ?thesis
      by (auto simp: push_child_def Let_def)
  qed
qed

lemma unmarked_fold_child:
  assumes "um_wf m" "fold (\<lambda>p. push_child e (g p)) ps (m, st) = (m', st')"
  shows "um_wf m' \<and> unmarked m' + length st' = unmarked m + length st"
  using assms
proof (induction ps arbitrary: m st)
  case (Cons p ps)
  obtain m1 st1 where s: "push_child e (g p) (m, st) = (m1, st1)" by force
  with unmarked_push_child [OF Cons.prems(1)] Cons.prems(2) Cons.IH [of m1 st1]
  show ?case by auto
qed auto

lemma unmarked_scan_object:
  assumes "um_wf m" "scan_object mem e (m, st) = (m', st')"
  shows "um_wf m' \<and> unmarked m' + length st' = unmarked m + length st"
  using assms unmarked_fold_child by (fastforce simp: scan_object_def split: option.splits)

text \<open>
  The marking loop. The measure is what is unmarked plus what is on the stack: an iteration
  pops one entry, and each entry it pushes was unmarked before. (The table has distinct keys;
  the loop of the model stops at once otherwise.)
\<close>

function gc_loop :: "memory \<Rightarrow> nat \<Rightarrow> allocations_map \<Rightarrow> u64 list \<Rightarrow> nat \<times> allocations_map" where
  "gc_loop mem iterations m [] = (iterations, m)"
| "gc_loop mem iterations m (entry # stack) =
     (if um_wf m then
        let (m', stack') = scan_object mem entry (m, stack)
        in gc_loop mem (Suc iterations) m' stack'
      else (iterations, m))"
  by pat_completeness auto
termination
proof (relation "measure (\<lambda>(mem, i, m, st). unmarked m + length st)", goal_cases)
  case 1
  show ?case by simp
next
  case (2 mem iterations m entry stack x m' stack')
  then have "scan_object mem entry (m, stack) = (m', stack')" by simp
  with unmarked_scan_object [OF 2(1) this] show ?case by simp
qed

text \<open>The free items of the sweep, in the order the table is walked.\<close>

definition free_item :: "u64 \<Rightarrow> u64 \<times> alloc_info \<Rightarrow> work_item" where
  "free_item frame p = \<lparr>wi_frame = frame, wi_klass = 0, wi_obj = fst p, wi_size = ai_size (snd p),
     wi_backtrace = [], wi_type = Wi_free\<rparr>"

definition gc_sweep :: "u64 \<Rightarrow> worker \<Rightarrow> worker" where
  "gc_sweep frame w =
     (let dead = filter (\<lambda>p. \<not> flag (snd p) TMP_ALLOCATED) (m_allocations w)
      in w\<lparr>m_work_items := fold enqueue (map (free_item frame) dead) (m_work_items w),
           m_allocations := filter (\<lambda>p. flag (snd p) TMP_ALLOCATED) (m_allocations w)\<rparr>)"

definition do_gc_internal :: "memory \<Rightarrow> u64 \<Rightarrow> bool \<Rightarrow> worker \<Rightarrow> (nat \<times> worker) option" where
  "do_gc_internal mem frame only_update_parents w =
     (case push_slots mem (concat (map root_slots (m_roots w))) (gc_clear (m_allocations w), []) of
        None \<Rightarrow> None
      | Some (m, stack) \<Rightarrow>
          let (iterations, m') = gc_loop mem 0 m stack;
              w1 = w\<lparr>m_allocations := m'\<rparr>
          in Some (iterations, if only_update_parents then w1 else gc_sweep frame w1))"

text \<open>\<^verbatim>\<open>do_gc_sync\<close> spins until the worker has found its queue empty; this is what it does then.\<close>

definition do_gc_sync :: "memory \<Rightarrow> u64 \<Rightarrow> bool \<Rightarrow> worker \<Rightarrow> (nat \<times> worker) option" where
  "do_gc_sync mem frame only_update_parents w =
     map_option (\<lambda>(r, w'). (r, w'\<lparr>m_last_gc_frame := frame\<rparr>))
       (do_gc_internal mem frame only_update_parents w)"

section \<open>References\<close>

text \<open>
  The walk towards the roots. Popping an address that is a live allocation reports it and
  pushes its parents that are not flagged as visited yet. A parent that is not in the table
  would be written through the end iterator: \<open>None\<close>.
\<close>

fun push_parents :: "u64 list \<Rightarrow> allocations_map \<times> u64 list \<Rightarrow>
    (allocations_map \<times> u64 list) option" where
  "push_parents [] ms = Some ms"
| "push_parents (parent # ps) (m, stack) =
     (case um_find m parent of
        None \<Rightarrow> None
      | Some a \<Rightarrow>
          if flag a TMP_VISITED then push_parents ps (m, stack)
          else push_parents ps (um_modify parent (set_flag TMP_VISITED) m, parent # stack))"

definition reference_entry :: "bytes \<Rightarrow> u64 \<Rightarrow> alloc_info \<Rightarrow> object_references" where
  "reference_entry full_name addr a =
     \<lparr>or_addr = addr,
      or_type = full_name @ (if flag a IS_ROOT then chars '' (Root)'' else [])
        @ (if \<not> flag a TMP_ALLOCATED then chars '' (Deleted)'' else []),
      or_parents = ai_parents a\<rparr>"

definition unvisited :: "allocations_map \<Rightarrow> nat" where
  "unvisited m = length (filter (\<lambda>p. \<not> flag (snd p) TMP_VISITED) m)"

lemma unvisited_push_parents:
  assumes "um_wf m" "push_parents ps (m, st) = Some (m', st')"
  shows "um_wf m' \<and> unvisited m' + length st' = unvisited m + length st"
  using assms
proof (induction ps arbitrary: m st)
  case (Cons p ps)
  then obtain a where a: "um_find m p = Some a" by (auto split: option.splits)
  show ?case
  proof (cases "flag a TMP_VISITED")
    case True
    with Cons a show ?thesis by simp
  next
    case False
    let ?m1 = "um_modify p (set_flag TMP_VISITED) m"
    note cm = count_modify [OF Cons.prems(1) a, of "\<lambda>a. \<not> flag a TMP_VISITED" "set_flag TMP_VISITED"]
    have "unvisited ?m1 = unvisited m - 1" "0 < unvisited m"
      using cm False by (simp_all add: unvisited_def)
    moreover have "um_wf m' \<and> unvisited m' + length st' = unvisited ?m1 + length (p # st)"
      using Cons.prems a False by (intro Cons.IH um_wf_modify) simp_all
    ultimately show ?thesis by simp
  qed
qed simp

function refs_loop :: "mono_api \<Rightarrow> bytes \<Rightarrow> allocations_map \<Rightarrow> u64 list \<Rightarrow> object_references list \<Rightarrow>
    (bytes \<times> allocations_map \<times> object_references list) option" where
  "refs_loop api name m [] results = Some (name, m, results)"
| "refs_loop api name m (addr # stack) results =
     (if um_wf m then
        (case um_find m addr of
           None \<Rightarrow> refs_loop api name m stack results
         | Some a \<Rightarrow>
             let full_name = get_full_class_name_at api 2048 addr name
             in (case push_parents (ai_parents a) (m, stack) of
                   None \<Rightarrow> None
                 | Some (m', stack') \<Rightarrow>
                     refs_loop api full_name m' stack' (results @ [reference_entry full_name addr a])))
      else None)"
  by pat_completeness auto
termination
proof (relation "measure (\<lambda>(api, n, m, st, r). unvisited m + length st)", goal_cases)
  case 1
  show ?case by simp
next
  case (2 api name m addr stack results)
  then show ?case by simp
next
  case (3 api name m addr stack results a full_name x m' stack')
  then show ?case
    using unvisited_push_parents [of m "ai_parents a" stack m' stack'] by simp
qed

definition find_references_internal :: "mono_api \<Rightarrow> u64 \<Rightarrow> u64 list \<Rightarrow> worker \<Rightarrow> worker option" where
  "find_references_internal api request_id addresses w =
     (case refs_loop api (fr_full_name w) (m_allocations w) (rev addresses) [] of
        None \<Rightarrow> None
      | Some (name, m, results) \<Rightarrow>
          Some (report (Report_references request_id results)
                  (w\<lparr>fr_full_name := name, m_allocations := m\<rparr>)))"

definition worker_find_references :: "mono_api \<Rightarrow> memory \<Rightarrow> u64 \<Rightarrow> u64 list \<Rightarrow> u64 \<Rightarrow> worker \<Rightarrow> worker option" where
  "worker_find_references api mem request_id addresses frame w =
     (case (if frame > m_last_gc_frame w then map_option snd (do_gc_sync mem frame True w) else Some w) of
        None \<Rightarrow> None
      | Some w1 \<Rightarrow> find_references_internal api request_id addresses w1)"

section \<open>Pausing\<close>

definition worker_pause_app :: "u64 \<Rightarrow> worker \<Rightarrow> worker" where
  "worker_pause_app request_id w =
     report (Report_paused request_id True) (if \<not> m_stop_lock w then w\<lparr>m_stop_lock := True\<rparr> else w)"

definition worker_resume_app :: "u64 \<Rightarrow> worker \<Rightarrow> worker" where
  "worker_resume_app request_id w =
     report (Report_resumed request_id True) (if m_stop_lock w then w\<lparr>m_stop_lock := False\<rparr> else w)"

definition is_paused :: "worker \<Rightarrow> bool" where
  "is_paused w = m_stop_lock w"

section \<open>The experimental collection\<close>

text \<open>
  \<^verbatim>\<open>do_gc_unity\<close> asks the runtime for the live objects (\<open>live\<close>, the arrays handed to its
  callback). The loop that should clear the marks copies each table entry, so the marks of
  the table itself stay.
\<close>

definition do_gc_unity :: "u64 list list \<Rightarrow> u64 \<Rightarrow> worker \<Rightarrow> worker" where
  "do_gc_unity live frame w =
     (let m = fold (\<lambda>obj m. um_modify obj (set_flag TMP_ALLOCATED) m) (concat live) (m_allocations w);
          dead = filter (\<lambda>p. \<not> flag (snd p) TMP_ALLOCATED) m
      in fold (\<lambda>p. report (Report_free frame (fst p) (ai_size (snd p)))) dead
           (w\<lparr>m_allocations := filter (\<lambda>p. flag (snd p) TMP_ALLOCATED) m\<rparr>))"

end
