(* ===== verification/Network.thy ===== *)
theory Network
  imports Wire Queue
begin

text \<open>
  The message transport (\<^verbatim>\<open>network/include/network.h\<close>, \<^verbatim>\<open>network/src/network.cpp\<close>): messages
  with an 8-byte header on a TCP stream, the chain of asynchronous reads that cuts the stream
  into messages, and the status flags of the connection. The socket library is represented by
  its documented effect: \<^verbatim>\<open>async_read\<close> completes with exactly the requested number of bytes or
  with an error, \<^verbatim>\<open>async_write\<close> hands its buffers to the stream in one piece, and completion
  handlers run only inside \<^verbatim>\<open>run_for\<close>, that is while the I/O thread has not left its loop.
\<close>

section \<open>Messages\<close>

datatype srv_message = SRV_ALLOC | SRV_FREE | SRV_REFERENCES | SRV_PAUSE | SRV_RESUME

fun srv_code :: "srv_message \<Rightarrow> u8" where
  "srv_code SRV_ALLOC = 1"
| "srv_code SRV_FREE = 2"
| "srv_code SRV_REFERENCES = 3"
| "srv_code SRV_PAUSE = 4"
| "srv_code SRV_RESUME = 5"

datatype cmd = CMD_REFERENCES | CMD_PAUSE | CMD_RESUME

fun cmd_code :: "cmd \<Rightarrow> u8" where
  "cmd_code CMD_REFERENCES = 1"
| "cmd_code CMD_PAUSE = 2"
| "cmd_code CMD_RESUME = 3"

record net_message =
  hdr_length :: u32
  hdr_type :: u8
  msg_data :: bytes

definition default_message :: net_message where
  "default_message = \<lparr>hdr_length = 0, hdr_type = 0, msg_data = []\<rparr>"

text \<open>The constructor copies \<open>len\<close> bytes; \<open>None\<close> when the array is shorter.\<close>

definition make_message :: "u8 \<Rightarrow> u32 \<Rightarrow> bytes \<Rightarrow> net_message option" where
  "make_message type len buf =
     (if unat len \<le> length buf
      then Some \<lparr>hdr_length = len, hdr_type = type, msg_data = take (unat len) buf\<rparr> else None)"

text \<open>The object representation of \<^verbatim>\<open>message::header\<close>: four bytes of length, the type, and three
  bytes of padding whose contents nobody sets.\<close>

definition header_size :: nat where
  "header_size = 8"

definition header_bytes :: "bytes \<Rightarrow> net_message \<Rightarrow> bytes" where
  "header_bytes padding msg = le_bytes 4 (unat (hdr_length msg)) @ [hdr_type msg] @ padding"

definition header_of :: "bytes \<Rightarrow> net_message" where
  "header_of bs = \<lparr>hdr_length = of_nat (le_value (take 4 bs)), hdr_type = bs ! 4, msg_data = []\<rparr>"

section \<open>The connection\<close>

datatype connection_status = connection_not_init | connection_connected | connection_disconnected

datatype asio_error = error_eof | error_connection_reset | error_connection_aborted | error_other

datatype pending_read = No_read | Read_header | Read_body net_message

record network_details =
  m_read_buffer :: "net_message list"
  m_connected :: connection_status
  m_listening :: bool
  net_stop :: bool
  io_thread :: bool
  socket_open :: bool
  acceptor_open :: bool
  accept_pending :: bool
  read_pending :: pending_read
  inbox :: bytes
  outbox :: bytes

definition new_network :: network_details where
  "new_network = \<lparr>m_read_buffer = [], m_connected = connection_not_init, m_listening = False,
     net_stop = False, io_thread = False, socket_open = False, acceptor_open = False,
     accept_pending = False, read_pending = No_read, inbox = [], outbox = []\<rparr>"

text \<open>The loop of the I/O thread tests \<^verbatim>\<open>m_stop\<close> before every round.\<close>

definition net_running :: "network_details \<Rightarrow> bool" where
  "net_running d \<longleftrightarrow> io_thread d \<and> \<not> net_stop d"

definition set_disconnected_status :: "asio_error option \<Rightarrow> network_details \<Rightarrow> network_details" where
  "set_disconnected_status ec d =
     (if ec = Some error_eof \<or> ec = Some error_connection_reset \<or> ec = Some error_connection_aborted
      then d\<lparr>m_connected := connection_disconnected\<rparr> else d)"

definition read_message_header_from_socket :: "network_details \<Rightarrow> network_details" where
  "read_message_header_from_socket d = d\<lparr>read_pending := Read_header\<rparr>"

definition on_body_read :: "net_message \<Rightarrow> asio_error option \<Rightarrow> nat \<Rightarrow> network_details \<Rightarrow> network_details" where
  "on_body_read msg ec read_size d =
     (if ec \<noteq> None then set_disconnected_status ec d
      else if read_size \<noteq> unat (hdr_length msg) then d
      else read_message_header_from_socket (d\<lparr>m_read_buffer := enqueue msg (m_read_buffer d)\<rparr>))"

text \<open>\<open>None\<close>: the assertion that the length is positive fails.\<close>

definition on_header_read :: "net_message \<Rightarrow> asio_error option \<Rightarrow> nat \<Rightarrow> network_details \<Rightarrow>
    network_details option" where
  "on_header_read msg ec read_size d =
     (if ec \<noteq> None then Some (set_disconnected_status ec d)
      else if read_size \<noteq> header_size then Some d
      else if hdr_length msg > 0
      then Some (d\<lparr>read_pending :=
             Read_body (msg\<lparr>msg_data := replicate (unat (hdr_length msg)) 0\<rparr>)\<rparr>)
      else None)"

definition on_new_connection :: "asio_error option \<Rightarrow> network_details \<Rightarrow> network_details" where
  "on_new_connection ec d =
     (if ec \<noteq> None then d\<lparr>m_connected := connection_disconnected\<rparr>
      else read_message_header_from_socket
             (d\<lparr>socket_open := True, m_connected := connection_connected, m_listening := False\<rparr>))"

definition on_message_written :: "asio_error option \<Rightarrow> network_details \<Rightarrow> network_details" where
  "on_message_written ec d = set_disconnected_status ec d"

definition listen_async :: "network_details \<Rightarrow> network_details" where
  "listen_async d =
     d\<lparr>m_listening := True, acceptor_open := True, accept_pending := True, io_thread := True\<rparr>"

text \<open>\<open>ec\<close> is the outcome of the blocking \<^verbatim>\<open>accept\<close>.\<close>

definition listen_sync :: "asio_error option \<Rightarrow> network_details \<Rightarrow> network_details" where
  "listen_sync ec d =
     (on_new_connection ec (d\<lparr>m_listening := True, acceptor_open := True\<rparr>))\<lparr>io_thread := True\<rparr>"

definition net_connect :: "asio_error option \<Rightarrow> network_details \<Rightarrow> bool \<times> network_details" where
  "net_connect ec d =
     (let d1 = d\<lparr>socket_open := True\<rparr>
      in if ec \<noteq> None then (False, d1)
         else (True, (read_message_header_from_socket d1)\<lparr>io_thread := True\<rparr>))"

definition is_connected :: "network_details \<Rightarrow> bool" where
  "is_connected d \<longleftrightarrow> socket_open d \<and> m_connected d = connection_connected"

definition is_connecting :: "network_details \<Rightarrow> bool" where
  "is_connecting d \<longleftrightarrow> m_connected d = connection_not_init"

definition is_listening :: "network_details \<Rightarrow> bool" where
  "is_listening d \<longleftrightarrow> acceptor_open d \<and> m_listening d"

text \<open>Closing the sockets cancels what is pending on them and drops the unread bytes.\<close>

definition net_stop_all :: "network_details \<Rightarrow> network_details" where
  "net_stop_all d =
     d\<lparr>net_stop := True, io_thread := False, socket_open := False, acceptor_open := False,
       accept_pending := False, read_pending := No_read, inbox := [], outbox := [],
       m_connected := connection_not_init\<rparr>"

text \<open>\<open>None\<close>: no bytes to send (the assertion fails), or fewer than announced.\<close>

definition write_message :: "bytes \<Rightarrow> u8 \<Rightarrow> u32 \<Rightarrow> bytes \<Rightarrow> network_details \<Rightarrow> network_details option" where
  "write_message padding type len buf d =
     (if \<not> socket_open d then Some d
      else case make_message type len buf of
             None \<Rightarrow> None
           | Some msg \<Rightarrow>
               if msg_data msg = [] then None
               else Some (d\<lparr>outbox := outbox d @ header_bytes padding msg @ msg_data msg\<rparr>))"

definition read_message :: "network_details \<Rightarrow> net_message option \<times> network_details" where
  "read_message d =
     (case try_dequeue (m_read_buffer d) of
        None \<Rightarrow> (None, d)
      | Some (msg, q) \<Rightarrow> (Some msg, d\<lparr>m_read_buffer := q\<rparr>))"

definition get_read_messages_count :: "network_details \<Rightarrow> nat" where
  "get_read_messages_count d = size_approx (m_read_buffer d)"

section \<open>Completions\<close>

text \<open>
  All completions that the received bytes allow, in order. A pending read of a body whose
  length is zero would complete with no bytes. \<open>None\<close> is a failed assertion.
\<close>

function pump :: "network_details \<Rightarrow> network_details option" where
  "pump d =
     (case read_pending d of
        No_read \<Rightarrow> Some d
      | Read_header \<Rightarrow>
          if length (inbox d) < header_size then Some d
          else (case on_header_read (header_of (take header_size (inbox d))) None header_size
                       (d\<lparr>inbox := drop header_size (inbox d), read_pending := No_read\<rparr>) of
                  None \<Rightarrow> None
                | Some d' \<Rightarrow> pump d')
      | Read_body msg \<Rightarrow>
          let n = unat (hdr_length msg)
          in if length (inbox d) < n then Some d
             else pump (on_body_read (msg\<lparr>msg_data := take n (inbox d)\<rparr>) None n
                          (d\<lparr>inbox := drop n (inbox d), read_pending := No_read\<rparr>)))"
  by pat_completeness auto
termination
  by (relation "measure (\<lambda>d. 2 * length (inbox d) + (case read_pending d of Read_body _ \<Rightarrow> 1 | _ \<Rightarrow> 0))")
    (auto simp: on_header_read_def on_body_read_def read_message_header_from_socket_def header_size_def
      split: if_splits)

declare pump.simps [simp del]

text \<open>Bytes arrive; whatever they complete is handled while the I/O thread runs.\<close>

definition receive :: "bytes \<Rightarrow> network_details \<Rightarrow> network_details option" where
  "receive chunk d =
     (let d1 = d\<lparr>inbox := inbox d @ chunk\<rparr> in if net_running d then pump d1 else Some d1)"

text \<open>A pending read ends with an error.\<close>

definition receive_error :: "asio_error \<Rightarrow> network_details \<Rightarrow> network_details option" where
  "receive_error e d =
     (if \<not> net_running d then Some d
      else case read_pending d of
             No_read \<Rightarrow> Some d
           | Read_header \<Rightarrow> on_header_read default_message (Some e) 0 (d\<lparr>read_pending := No_read\<rparr>)
           | Read_body msg \<Rightarrow> Some (on_body_read msg (Some e) 0 (d\<lparr>read_pending := No_read\<rparr>)))"

definition accepted :: "asio_error option \<Rightarrow> network_details \<Rightarrow> network_details" where
  "accepted ec d =
     (if net_running d \<and> accept_pending d then on_new_connection ec (d\<lparr>accept_pending := False\<rparr>) else d)"

section \<open>Framing\<close>

definition sendable :: "bytes \<times> net_message \<Rightarrow> bool" where
  "sendable pm \<longleftrightarrow> length (fst pm) = 3 \<and> 0 < hdr_length (snd pm) \<and>
     length (msg_data (snd pm)) = unat (hdr_length (snd pm))"

definition framed :: "bytes \<times> net_message \<Rightarrow> bytes" where
  "framed pm = header_bytes (fst pm) (snd pm) @ msg_data (snd pm)"

lemma header_of_bytes:
  assumes "length padding = 3"
  shows "header_of (header_bytes padding msg) = msg\<lparr>msg_data := []\<rparr>"
proof -
  have "of_nat (le_value (le_bytes 4 (unat (hdr_length msg)))) = hdr_length msg"
    by (rule le_roundtrip_word) simp
  then show ?thesis by (simp add: header_of_def header_bytes_def nth_append)
qed

lemma length_header_bytes: "length padding = 3 \<Longrightarrow> length (header_bytes padding msg) = header_size"
  by (simp add: header_bytes_def header_size_def)

lemma pump_body:
  assumes "0 < hdr_length msg" "length (msg_data msg) = unat (hdr_length msg)"
    and "read_pending d = Read_body (msg\<lparr>msg_data := xs\<rparr>)" "inbox d = msg_data msg @ rest"
  shows "pump d = pump (d\<lparr>m_read_buffer := m_read_buffer d @ [msg], inbox := rest, read_pending := Read_header\<rparr>)"
  using assms by (cases d, subst pump.simps)
    (simp add: on_body_read_def read_message_header_from_socket_def enqueue_def)

lemma pump_frame:
  assumes "sendable pm" "read_pending d = Read_header" "inbox d = framed pm @ rest"
  shows "pump d = pump (d\<lparr>m_read_buffer := m_read_buffer d @ [snd pm], inbox := rest\<rparr>)"
proof -
  obtain padding msg where pm: "pm = (padding, msg)" by force
  have s: "length padding = 3" "0 < hdr_length msg" "length (msg_data msg) = unat (hdr_length msg)"
    using assms(1) by (simp_all add: sendable_def pm)
  let ?d1 = "d\<lparr>inbox := msg_data msg @ rest,
      read_pending := Read_body (msg\<lparr>msg_data := replicate (unat (hdr_length msg)) 0\<rparr>)\<rparr>"
  have "take header_size (inbox d) = header_bytes padding msg"
    "drop header_size (inbox d) = msg_data msg @ rest" "\<not> length (inbox d) < header_size"
    using assms(3) length_header_bytes [OF s(1), of msg] by (simp_all add: framed_def pm)
  then have "pump d = pump ?d1"
    using assms(2) s(2) by (subst pump.simps) (simp add: header_of_bytes [OF s(1)] on_header_read_def)
  also have "\<dots> = pump (d\<lparr>m_read_buffer := m_read_buffer d @ [msg], inbox := rest, read_pending := Read_header\<rparr>)"
    using s by (subst pump_body [where msg = msg and rest = rest]) simp_all
  also have "d\<lparr>m_read_buffer := m_read_buffer d @ [msg], inbox := rest, read_pending := Read_header\<rparr> =
      d\<lparr>m_read_buffer := m_read_buffer d @ [snd pm], inbox := rest\<rparr>"
    using assms(2) by (cases d) (simp add: pm)
  finally show ?thesis .
qed

lemma pump_stays: "read_pending d = Read_header \<Longrightarrow> inbox d = [] \<Longrightarrow> pump d = Some d"
  by (subst pump.simps) (simp add: header_size_def)

lemma pump_frames:
  assumes "\<forall>pm \<in> set pms. sendable pm" "read_pending d = Read_header"
    and "inbox d = concat (map framed pms)"
  shows "pump d = Some (d\<lparr>m_read_buffer := m_read_buffer d @ map snd pms, inbox := []\<rparr>)"
  using assms
proof (induction pms arbitrary: d)
  case Nil
  then show ?case by (simp add: pump_stays)
next
  case (Cons pm pms)
  let ?d1 = "d\<lparr>m_read_buffer := m_read_buffer d @ [snd pm], inbox := concat (map framed pms)\<rparr>"
  have "pump d = pump ?d1" using Cons.prems by (intro pump_frame) simp_all
  also have "\<dots> = Some (?d1\<lparr>m_read_buffer := m_read_buffer ?d1 @ map snd pms, inbox := []\<rparr>)"
    using Cons.prems by (intro Cons.IH) simp_all
  finally show ?case by simp
qed

text \<open>Handling a part of the stream first makes no difference.\<close>

lemma pump_append:
  "(case pump d of
      None \<Rightarrow> pump (d\<lparr>inbox := inbox d @ x\<rparr>) = None
    | Some d' \<Rightarrow> pump (d\<lparr>inbox := inbox d @ x\<rparr>) = pump (d'\<lparr>inbox := inbox d' @ x\<rparr>) \<and>
        (\<exists>ms. m_read_buffer d' = m_read_buffer d @ ms) \<and>
        io_thread d' = io_thread d \<and> net_stop d' = net_stop d \<and>
        m_connected d' = m_connected d \<and> accept_pending d' = accept_pending d)"
proof (induction d rule: pump.induct)
  case (1 d)
  show ?case
  proof (cases "read_pending d")
    case No_read
    then have "pump d = Some d" by (subst pump.simps) simp
    then show ?thesis by simp
  next
    case Read_header
    show ?thesis
    proof (cases "length (inbox d) < header_size")
      case True
      then have "pump d = Some d" using Read_header by (subst pump.simps) simp
      then show ?thesis by simp
    next
      case False
      let ?h = "\<lambda>d. on_header_read (header_of (take header_size (inbox d))) None header_size
          (d\<lparr>inbox := drop header_size (inbox d), read_pending := No_read\<rparr>)"
      let ?dx = "d\<lparr>inbox := inbox d @ x\<rparr>"
      have hx: "?h ?dx = map_option (\<lambda>d. d\<lparr>inbox := inbox d @ x\<rparr>) (?h d)"
        using False by (simp add: on_header_read_def)
      have p: "pump d = (case ?h d of None \<Rightarrow> None | Some d' \<Rightarrow> pump d')"
        and px: "pump ?dx = (case ?h ?dx of None \<Rightarrow> None | Some d' \<Rightarrow> pump d')"
        using Read_header False by (subst pump.simps; simp)+
      show ?thesis
      proof (cases "?h d")
        case None
        with p px hx show ?thesis by simp
      next
        case (Some d1)
        then have "m_read_buffer d1 = m_read_buffer d" "io_thread d1 = io_thread d" "net_stop d1 = net_stop d"
          "m_connected d1 = m_connected d" "accept_pending d1 = accept_pending d"
          by (auto simp: on_header_read_def split: if_splits)
        with "1.IH"(1) [OF Read_header False Some] p px hx Some show ?thesis
          by (auto split: option.splits)
      qed
    qed
  next
    case (Read_body msg)
    let ?n = "unat (hdr_length msg)"
    show ?thesis
    proof (cases "length (inbox d) < ?n")
      case True
      then have "pump d = Some d" using Read_body by (subst pump.simps) simp
      then show ?thesis by simp
    next
      case False
      let ?b = "\<lambda>d. on_body_read (msg\<lparr>msg_data := take ?n (inbox d)\<rparr>) None ?n
          (d\<lparr>inbox := drop ?n (inbox d), read_pending := No_read\<rparr>)"
      let ?dx = "d\<lparr>inbox := inbox d @ x\<rparr>"
      have bx: "?b ?dx = (?b d)\<lparr>inbox := inbox (?b d) @ x\<rparr>"
        and facts: "m_read_buffer (?b d) = m_read_buffer d @ [msg\<lparr>msg_data := take ?n (inbox d)\<rparr>]"
        "io_thread (?b d) = io_thread d" "net_stop (?b d) = net_stop d"
        "m_connected (?b d) = m_connected d" "accept_pending (?b d) = accept_pending d"
        using False by (simp_all add: on_body_read_def read_message_header_from_socket_def enqueue_def)
      have p: "pump d = pump (?b d)" and px: "pump ?dx = pump (?b ?dx)"
        using Read_body False by (subst pump.simps; simp add: Let_def)+
      show ?thesis using "1.IH"(2) [OF Read_body refl False] facts unfolding p px bx
        by (auto split: option.splits)
    qed
  qed
qed

fun receive_all :: "bytes list \<Rightarrow> network_details \<Rightarrow> network_details option" where
  "receive_all [] d = Some d"
| "receive_all (c # cs) d = (case receive c d of None \<Rightarrow> None | Some d' \<Rightarrow> receive_all cs d')"


lemma receive_all_pump:
  assumes "net_running d" "pump d = Some d"
  shows "receive_all cs d = pump (d\<lparr>inbox := inbox d @ concat cs\<rparr>)"
  using assms
proof (induction cs arbitrary: d)
  case Nil
  then show ?case by simp
next
  case (Cons c cs)
  let ?dc = "d\<lparr>inbox := inbox d @ c\<rparr>"
  have r: "receive c d = pump ?dc" using Cons.prems(1) by (simp add: receive_def)
  note ap = pump_append [of ?dc "concat cs"]
  show ?case
  proof (cases "pump ?dc")
    case None
    with r ap show ?thesis by simp
  next
    case (Some d')
    with ap have a: "pump (d\<lparr>inbox := inbox d @ concat (c # cs)\<rparr>) = pump (d'\<lparr>inbox := inbox d' @ concat cs\<rparr>)"
      "net_running d'" using Cons.prems(1) by (simp_all add: net_running_def)
    have "pump d' = Some d'"
      using pump_append [of ?dc "[]"] Some by simp
    from Cons.IH [OF a(2) this] r Some a(1) show ?thesis by simp
  qed
qed

fun write_all :: "(bytes \<times> u8 \<times> bytes) list \<Rightarrow> network_details \<Rightarrow> network_details option" where
  "write_all [] d = Some d"
| "write_all ((padding, type, buf) # ws) d =
     (case write_message padding type (of_nat (length buf)) buf d of
        None \<Rightarrow> None | Some d' \<Rightarrow> write_all ws d')"

definition message_of :: "u8 \<Rightarrow> bytes \<Rightarrow> net_message" where
  "message_of type buf = \<lparr>hdr_length = of_nat (length buf), hdr_type = type, msg_data = buf\<rparr>"

lemma unat_len32: "n < 2 ^ 32 \<Longrightarrow> unat (of_nat n :: u32) = n"
  by (simp add: unat_of_nat take_bit_nat_eq_self)

lemma write_all_outbox:
  assumes "\<forall>(padding, type, buf) \<in> set ws. 0 < length buf \<and> length buf < 2 ^ 32" "socket_open d"
  shows "write_all ws d =
    Some (d\<lparr>outbox := outbox d @ concat (map (\<lambda>(padding, type, buf). framed (padding, message_of type buf)) ws)\<rparr>)"
  using assms
proof (induction ws arbitrary: d)
  case (Cons w ws)
  obtain padding type buf where w: "w = (padding, type, buf)" by (cases w)
  let ?d1 = "d\<lparr>outbox := outbox d @ framed (padding, message_of type buf)\<rparr>"
  have "buf \<noteq> []" "unat (of_nat (length buf) :: u32) = length buf"
    using Cons.prems(1) unat_len32 by (auto simp: w)
  then have "write_message padding type (of_nat (length buf)) buf d = Some ?d1"
    using Cons.prems(2) by (simp add: write_message_def make_message_def framed_def message_of_def)
  moreover have "write_all ws ?d1 = Some (?d1\<lparr>outbox := outbox ?d1 @
      concat (map (\<lambda>(padding, type, buf). framed (padding, message_of type buf)) ws)\<rparr>)"
    using Cons.prems by (intro Cons.IH) simp_all
  ultimately show ?case by (simp add: w)
qed simp

lemma transport_delivers:
  assumes "\<forall>(padding, type, buf) \<in> set ws. length padding = 3 \<and> 0 < length buf \<and> length buf < 2 ^ 32"
    and "socket_open s" "outbox s = []"
    and "net_running d" "read_pending d = Read_header" "inbox d = []"
  shows "\<exists>s'. write_all ws s = Some s' \<and>
    (\<forall>chunks. concat chunks = outbox s' \<longrightarrow>
       receive_all chunks d =
         Some (d\<lparr>m_read_buffer := m_read_buffer d @ map (\<lambda>(_, type, buf). message_of type buf) ws\<rparr>))"
proof -
  let ?pms = "map (\<lambda>(padding, type, buf). (padding, message_of type buf)) ws"
  have fr: "map framed ?pms = map (\<lambda>(padding, type, buf). framed (padding, message_of type buf)) ws"
    and sn: "map snd ?pms = map (\<lambda>(_, type, buf). message_of type buf) ws" by auto
  have w: "write_all ws s = Some (s\<lparr>outbox := concat (map framed ?pms)\<rparr>)"
  proof -
    have "\<forall>(padding, type, buf) \<in> set ws. 0 < length buf \<and> length buf < 2 ^ 32"
      using assms(1) by fast
    from write_all_outbox [OF this assms(2)] show ?thesis unfolding fr assms(3) by simp
  qed
  have "sendable pm" if "pm \<in> set ?pms" for pm
  proof -
    from that obtain padding type buf where pm: "pm = (padding, message_of type buf)"
      and b: "length padding = 3" "0 < length buf" "length buf < 2 ^ 32" using assms(1) by auto
    with unat_len32 [OF b(3)] show ?thesis by (simp add: sendable_def message_of_def word_less_nat_alt)
  qed
  then have p: "pump (d\<lparr>inbox := concat (map framed ?pms)\<rparr>) =
      Some (d\<lparr>m_read_buffer := m_read_buffer d @ map snd ?pms\<rparr>)"
    using pump_frames [of ?pms "d\<lparr>inbox := concat (map framed ?pms)\<rparr>"] assms(5,6) by (cases d) simp
  have "pump d = Some d" using assms(5,6) by (rule pump_stays)
  from receive_all_pump [OF assms(4) this] p [unfolded sn] w assms(6) show ?thesis by auto
qed


definition example_receiver :: network_details where
  "example_receiver = new_network\<lparr>io_thread := True, read_pending := Read_header\<rparr>"

definition example_sender :: network_details where
  "example_sender = new_network\<lparr>socket_open := True\<rparr>"


text \<open>
  Whatever part of the stream has arrived, the messages delivered so far are an initial part
  of those that were sent: no message is delivered early, twice or out of order.
\<close>

theorem delivered_is_prefix:
  assumes "\<forall>pm \<in> set pms. sendable pm" "net_running d" "read_pending d = Read_header" "inbox d = []"
    and "concat chunks @ rest = concat (map framed pms)"
  shows "\<exists>d' k. receive_all chunks d = Some d' \<and>
    m_read_buffer d' = m_read_buffer d @ take k (map snd pms)"
proof -
  let ?dc = "d\<lparr>inbox := concat chunks\<rparr>"
  have "pump d = Some d" using assms(3,4) by (rule pump_stays)
  then have r: "receive_all chunks d = pump ?dc" using receive_all_pump [OF assms(2)] assms(4) by simp
  have all: "pump (?dc\<lparr>inbox := inbox ?dc @ rest\<rparr>) =
      Some (d\<lparr>m_read_buffer := m_read_buffer d @ map snd pms, inbox := []\<rparr>)"
    using pump_frames [of pms "d\<lparr>inbox := concat (map framed pms)\<rparr>"] assms(1,3,5) by simp
  obtain d' where d': "pump ?dc = Some d'"
    using pump_append [of ?dc rest] all by (cases "pump ?dc") auto
  then obtain ms where ms: "m_read_buffer d' = m_read_buffer d @ ms"
    and last: "pump (d'\<lparr>inbox := inbox d' @ rest\<rparr>) =
      Some (d\<lparr>m_read_buffer := m_read_buffer d @ map snd pms, inbox := []\<rparr>)"
    using pump_append [of ?dc rest] all by auto
  from pump_append [of "d'\<lparr>inbox := inbox d' @ rest\<rparr>" "[]"] last
  obtain ms' where "m_read_buffer d @ map snd pms = m_read_buffer d' @ ms'" by auto
  with ms have "map snd pms = ms @ ms'" by simp
  then have "ms = take (length ms) (map snd pms)" by simp
  with r d' ms show ?thesis by metis
qed

theorem delivered_is_prefix_witness:
  "sendable ([7, 7, 7], message_of 2 [1, 9]) \<and>
   (\<exists>d' k. receive_all [[2, 0, 0], [0, 2, 7]] example_receiver = Some d' \<and>
      m_read_buffer d' = take k [message_of 2 [1, 9]])"
proof -
  have s: "\<forall>pm \<in> set [([7, 7, 7], message_of 2 [1, 9])]. sendable pm"
    by (simp add: sendable_def message_of_def)
  have r: "net_running example_receiver" "read_pending example_receiver = Read_header"
    "inbox example_receiver = []" "m_read_buffer example_receiver = []"
    by (simp_all add: example_receiver_def new_network_def net_running_def)
  have "concat [[2, 0, 0], [0, 2, 7]] @ [7, 7, 1, 9] =
      concat (map framed [([7, 7, 7], message_of 2 [1, 9])])"
    by (simp add: framed_def message_of_def header_bytes_def eval_simps)
  from delivered_is_prefix [OF s r(1-3) this] r(4) s show ?thesis by auto
qed

section \<open>Stopping and starting\<close>

datatype nop =
    N_listen_async
  | N_listen_sync "asio_error option"
  | N_accept "asio_error option"
  | N_connect "asio_error option"
  | N_receive bytes
  | N_error asio_error
  | N_stop
  | N_write bytes u8 u32 bytes
  | N_read

fun nexec :: "nop \<Rightarrow> network_details \<Rightarrow> network_details option" where
  "nexec N_listen_async d = Some (listen_async d)"
| "nexec (N_listen_sync ec) d = Some (listen_sync ec d)"
| "nexec (N_accept ec) d = Some (accepted ec d)"
| "nexec (N_connect ec) d = Some (snd (net_connect ec d))"
| "nexec (N_receive c) d = receive c d"
| "nexec (N_error e) d = receive_error e d"
| "nexec N_stop d = Some (net_stop_all d)"
| "nexec (N_write padding type len buf) d = write_message padding type len buf d"
| "nexec N_read d = Some (snd (read_message d))"

fun nrun :: "nop list \<Rightarrow> network_details \<Rightarrow> network_details option" where
  "nrun [] d = Some d"
| "nrun (op # ops) d = (case nexec op d of None \<Rightarrow> None | Some d' \<Rightarrow> nrun ops d')"

lemmas net_defs = listen_async_def listen_sync_def accepted_def net_connect_def net_stop_all_def
  read_message_def on_new_connection_def read_message_header_from_socket_def set_disconnected_status_def

fun listens_sync :: "nop \<Rightarrow> bool" where
  "listens_sync (N_listen_sync ec) = True"
| "listens_sync _ = False"

fun listens :: "nop \<Rightarrow> bool" where
  "listens N_listen_async = True"
| "listens (N_listen_sync ec) = True"
| "listens _ = False"

lemma nexec_stopped:
  assumes "nexec op d = Some d'" "net_stop d"
  shows "net_stop d' \<and> (\<exists>xs. m_read_buffer d = xs @ m_read_buffer d') \<and>
    (\<not> listens_sync op \<longrightarrow> m_connected d \<noteq> connection_connected \<longrightarrow> m_connected d' \<noteq> connection_connected)"
proof (cases op)
  case N_read
  then show ?thesis using assms
    by (cases "m_read_buffer d") (auto simp: read_message_def)
next
  case (N_receive c)
  then show ?thesis using assms by (auto simp: receive_def net_running_def)
next
  case (N_error e)
  then show ?thesis using assms by (auto simp: receive_error_def net_running_def)
qed (use assms in \<open>auto simp: net_defs Let_def net_running_def write_message_def split: if_splits option.splits\<close>)

lemma nrun_stopped:
  assumes "nrun ops d = Some d'" "net_stop d"
  shows "net_stop d' \<and> (\<exists>xs. m_read_buffer d = xs @ m_read_buffer d') \<and>
    ((\<forall>op \<in> set ops. \<not> listens_sync op) \<longrightarrow> m_connected d \<noteq> connection_connected \<longrightarrow>
       m_connected d' \<noteq> connection_connected)"
  using assms
proof (induction ops arbitrary: d)
  case Nil
  then show ?case by simp
next
  case (Cons op ops)
  then obtain d1 where d1: "nexec op d = Some d1" "nrun ops d1 = Some d'" by (auto split: option.splits)
  note one = nexec_stopped [OF d1(1) Cons.prems(2)]
  note rest = Cons.IH [OF d1(2) one [THEN conjunct1]]
  obtain xs ys where "m_read_buffer d = xs @ m_read_buffer d1" "m_read_buffer d1 = ys @ m_read_buffer d'"
    using one rest by blast
  then have "m_read_buffer d = (xs @ ys) @ m_read_buffer d'" by simp
  then show ?case using one rest by (metis list.set_intros(1,2))
qed

text \<open>
  C39. Stopping a connection is final for the object: after \<^verbatim>\<open>stop\<close> no sequence of listens, accepts,
  connects, received bytes, reads and writes delivers another message, and an asynchronous
  listen never ends in a connection, since the flag that ends the I/O loop is never reset.
\<close>

theorem network_dead_after_stop:
  assumes "nrun ops (net_stop_all d) = Some d'"
  shows "net_stop d' \<and> (\<exists>xs. m_read_buffer d = xs @ m_read_buffer d') \<and>
    ((\<forall>op \<in> set ops. \<not> listens_sync op) \<longrightarrow> \<not> is_connected d')"
  using nrun_stopped [OF assms] by (auto simp: net_stop_all_def is_connected_def)

theorem network_dead_after_stop_witness:
  "\<exists>d'. nrun [N_listen_async, N_accept None, N_receive [2, 0, 0, 0, 2, 7, 7, 7, 1, 9]]
      (net_stop_all example_receiver) = Some d' \<and> m_read_buffer d' = [] \<and> \<not> is_connected d'"
proof -
  let ?ops = "[N_listen_async, N_accept None, N_receive [2, 0, 0, 0, 2, 7, 7, 7, 1, 9]]"
  obtain d' where d': "nrun ?ops (net_stop_all example_receiver) = Some d'"
    by (simp add: net_defs receive_def net_running_def)
  with network_dead_after_stop [OF d'] show ?thesis
    by (auto simp: example_receiver_def new_network_def)
qed

lemma pump_status:
  "pump d = Some d' \<Longrightarrow> m_connected d' = m_connected d \<and> accept_pending d' = accept_pending d"
  using pump_append [of d "[]"] by simp

lemma nexec_quiet_status:
  assumes "nexec op d = Some d'" "\<not> listens op"
    and "m_connected d \<noteq> connection_connected" "\<not> accept_pending d"
  shows "m_connected d' \<noteq> connection_connected \<and> \<not> accept_pending d'"
proof (cases op)
  case (N_receive c)
  then show ?thesis using assms pump_status [of "d\<lparr>inbox := inbox d @ c\<rparr>" d']
    by (auto simp: receive_def Let_def split: if_splits)
next
  case (N_error e)
  then show ?thesis using assms
    by (auto simp: receive_error_def on_header_read_def on_body_read_def set_disconnected_status_def
        split: if_splits pending_read.splits)
qed (use assms in \<open>auto simp: net_defs Let_def write_message_def split: if_splits option.splits\<close>)

text \<open>
  A connection opened with \<^verbatim>\<open>connect\<close> never counts as connected: only accepting sets the
  status, so on the client side \<^verbatim>\<open>is_connected\<close> answers false throughout.
\<close>

theorem connect_side_never_connected:
  assumes "nrun ops new_network = Some d'" "\<forall>op \<in> set ops. \<not> listens op"
  shows "\<not> is_connected d'"
proof -
  have inv: "m_connected d' \<noteq> connection_connected \<and> \<not> accept_pending d'"
    if "nrun ops d = Some d'" "\<forall>op \<in> set ops. \<not> listens op"
      "m_connected d \<noteq> connection_connected \<and> \<not> accept_pending d" for ops d
    using that
  proof (induction ops arbitrary: d)
    case (Cons op ops)
    then obtain d1 where d1: "nexec op d = Some d1" "nrun ops d1 = Some d'" by (auto split: option.splits)
    have "m_connected d1 \<noteq> connection_connected \<and> \<not> accept_pending d1"
      using nexec_quiet_status [OF d1(1)] Cons.prems by auto
    with Cons.IH [OF d1(2)] Cons.prems show ?case by auto
  qed auto
  show ?thesis using inv [OF assms] by (simp add: new_network_def is_connected_def)
qed


theorem connect_side_never_connected_witness:
  "\<exists>d'. nrun [N_connect None, N_receive [2, 0, 0, 0, 2, 7, 7, 7]] new_network = Some d' \<and>
     socket_open d' \<and> \<not> is_connected d'"
proof -
  let ?ops = "[N_connect None, N_receive [2, 0, 0, 0, 2, 7, 7, 7]]"
  obtain d' where d': "nrun ?ops new_network = Some d'" and "socket_open d'"
    by (simp add: net_defs Let_def new_network_def receive_def net_running_def pump.simps header_size_def
        on_header_read_def header_of_def eval_simps)
  with connect_side_never_connected [OF d'] show ?thesis by auto
qed

end
