(* ===== verification/Protocol.thy ===== *)
theory Protocol
  imports Worker Network
begin

text \<open>
  The contents of the messages. The profiled process encodes events and answers
  (\<^verbatim>\<open>network_events_sink\<close> in \<^verbatim>\<open>server/src/mono_profiler_server.cpp\<close>), the client decodes them
  (\<^verbatim>\<open>process_messages\<close> in \<^verbatim>\<open>client/src/mono_profiler_client.cpp\<close>); commands go the other way.
  Variables that a failed read leaves unset are the parameters called \<open>junk\<close>.
\<close>

section \<open>Events and answers, written by the server\<close>

definition enc_alloc :: "u64 \<Rightarrow> u64 \<Rightarrow> u32 \<Rightarrow> bytes \<Rightarrow> bytes \<Rightarrow> bytes" where
  "enc_alloc frame addr obj_size full_name callstack =
     write_string callstack (write_string full_name
       (write_uint32 obj_size (write_uint64 addr (write_uint64 frame []))))"

definition enc_free :: "u64 \<Rightarrow> u64 \<Rightarrow> u32 \<Rightarrow> bytes" where
  "enc_free frame addr obj_size = write_uint32 obj_size (write_uint64 addr (write_uint64 frame []))"

definition enc_reference :: "object_references \<Rightarrow> bytes \<Rightarrow> bytes" where
  "enc_reference refs storage =
     fold write_varint (or_parents refs)
       (write_varint (of_nat (length (or_parents refs)))
         (write_string (or_type refs) (write_varint (or_addr refs) storage)))"

definition enc_references :: "u64 \<Rightarrow> object_references list \<Rightarrow> bytes" where
  "enc_references request_id references =
     fold enc_reference references
       (write_varint (of_nat (length references)) (write_uint64 request_id []))"

definition enc_ack :: "u64 \<Rightarrow> bool \<Rightarrow> bytes" where
  "enc_ack request_id ok = write_uint8 (if ok then 0 else 1) (write_uint64 request_id [])"

text \<open>The five methods of the sink: nothing is sent unless a client is connected. The length
  field is the vector's size cut to 32 bits.\<close>

fun sink_payload :: "sink_event \<Rightarrow> srv_message \<times> bytes" where
  "sink_payload (Report_alloc frame addr n name stack) = (SRV_ALLOC, enc_alloc frame addr n name stack)"
| "sink_payload (Report_free frame addr n) = (SRV_FREE, enc_free frame addr n)"
| "sink_payload (Report_references rid refs) = (SRV_REFERENCES, enc_references rid refs)"
| "sink_payload (Report_paused rid ok) = (SRV_PAUSE, enc_ack rid ok)"
| "sink_payload (Report_resumed rid ok) = (SRV_RESUME, enc_ack rid ok)"

definition sink_report :: "bytes \<Rightarrow> sink_event \<Rightarrow> network_details \<Rightarrow> network_details option" where
  "sink_report padding e d =
     (if \<not> is_connected d then Some d
      else let (type, buf) = sink_payload e
           in write_message padding (srv_code type) (of_nat (length buf)) buf d)"

section \<open>Events and answers, read by the client\<close>

definition dec_alloc :: "(u64 \<times> u64 \<times> u32 \<times> bytes \<times> bytes) read_m" where
  "dec_alloc =
     read_bind read_uint64 (\<lambda>frame.
     read_bind read_uint64 (\<lambda>addr.
     read_bind read_uint32 (\<lambda>obj_size.
     read_bind (read_string []) (\<lambda>name.
     read_bind (read_string []) (\<lambda>callstack.
     read_return (frame, addr, obj_size, name, callstack))))))"

text \<open>Only the first of the three reads is checked.\<close>

definition dec_free :: "u64 \<Rightarrow> u32 \<Rightarrow> (u64 \<times> u64 \<times> u32) read_m" where
  "dec_free junk_addr junk_size =
     read_bind read_uint64 (\<lambda>frame.
     read_bind (read_ignoring read_uint64 junk_addr) (\<lambda>addr.
     read_bind (read_ignoring read_uint32 junk_size) (\<lambda>obj_size.
     read_return (frame, addr, obj_size))))"

definition dec_reference :: "u64 \<Rightarrow> object_references read_m" where
  "dec_reference junk =
     read_bind (read_ignoring read_varint junk) (\<lambda>addr.
     read_bind (read_ignoring (read_string []) []) (\<lambda>type.
     read_bind (read_ignoring read_varint junk) (\<lambda>parents_count.
     read_bind (read_loop read_varint junk (unat parents_count)) (\<lambda>parents.
     read_return \<lparr>or_addr = addr, or_type = type, or_parents = parents\<rparr>))))"

primrec read_repeat :: "'a read_m \<Rightarrow> nat \<Rightarrow> 'a list read_m" where
  "read_repeat m 0 = read_return []"
| "read_repeat m (Suc n) =
     read_bind m (\<lambda>a. read_bind (read_repeat m n) (\<lambda>as. read_return (a # as)))"

definition dec_references :: "u64 \<Rightarrow> object_references list read_m" where
  "dec_references junk =
     read_bind read_varint (\<lambda>count. read_repeat (dec_reference junk) (unat count))"

section \<open>Commands\<close>

definition enc_cmd_references :: "u64 \<Rightarrow> u64 list \<Rightarrow> bytes" where
  "enc_cmd_references request_id addresses =
     fold write_uint64 addresses
       (write_uint64 (of_nat (length addresses)) (write_uint64 request_id []))"

definition enc_cmd :: "u64 \<Rightarrow> bytes" where
  "enc_cmd request_id = write_uint64 request_id []"

text \<open>The server ignores whether its reads succeed.\<close>

definition dec_cmd_references :: "u64 \<Rightarrow> (u64 \<times> u64 list) read_m" where
  "dec_cmd_references junk =
     read_bind (read_ignoring read_uint64 junk) (\<lambda>request_id.
     read_bind (read_ignoring read_uint64 junk) (\<lambda>count.
     read_bind (read_loop read_uint64 junk (unat count)) (\<lambda>addresses.
     read_return (request_id, addresses))))"

definition dec_cmd :: "u64 \<Rightarrow> u64 read_m" where
  "dec_cmd junk = read_ignoring read_uint64 junk"

section \<open>What is written is read back\<close>

definition put_reference :: "object_references \<Rightarrow> bytes" where
  "put_reference refs = put_varint (or_addr refs) @ put_string (or_type refs) @
     put_varint (of_nat (length (or_parents refs))) @ concat (map put_varint (or_parents refs))"

definition shown_reference :: "object_references \<Rightarrow> object_references" where
  "shown_reference refs = refs\<lparr>or_type := c_str (or_type refs)\<rparr>"

lemma enc_reference_put: "enc_reference refs s = s @ put_reference refs"
  by (simp add: enc_reference_def put_reference_def cvar.fold_enc enc_puts)

lemma length_concat_ge: "(\<And>x. x \<in> set xs \<Longrightarrow> 0 < length (f x)) \<Longrightarrow> length xs \<le> length (concat (map f xs))"
proof (induction xs)
  case (Cons x xs)
  then have "0 < length (f x)" "length xs \<le> length (concat (map f xs))" by simp_all
  then have "Suc (length xs) \<le> length (f x) + length (concat (map f xs))" by linarith
  then show ?case by simp
qed simp

lemma length_puts: "length (put_uint64 v) = 8" "length (put_uint32 u) = 4"
  by (simp_all add: put_uint64_def put_uint32_def)

lemma put_nonempty: "0 < length (put_varint v)" "0 < length (put_uint64 v)" "0 < length (put_reference r)"
proof -
  show *: "0 < length (put_varint v)" for v
    by (cases v rule: write_varint_cases) (simp_all add: put_varint_def)
  show "0 < length (put_uint64 v)" by (simp add: put_uint64_def)
  show "0 < length (put_reference r)" using * [of "or_addr r"] by (simp add: put_reference_def)
qed

lemma dec_reference_put:
  assumes "length (pre @ put_reference r @ rest) < 2 ^ 63"
  shows "dec_reference junk (reader_at pre (put_reference r @ rest)) =
    (Ok (shown_reference r), reader_at (pre @ put_reference r) rest)"
proof -
  let ?ps = "concat (map put_varint (or_parents r))"
  have len: "length (or_parents r) < 2 ^ 63"
    using length_concat_ge [of "or_parents r" put_varint] put_nonempty(1) assms
    by (simp add: put_reference_def)
  have loop: "read_loop read_varint junk (length (or_parents r)) (reader_at p (?ps @ rest)) =
      (Ok (or_parents r), reader_at (p @ ?ps) rest)" if "length (p @ ?ps @ rest) < 2 ^ 63" for p
    using cvar.loop_put [OF that, of junk] by simp
  have "length (pre @ put_varint (or_addr r) @ put_string (or_type r) @
      put_varint (of_nat (length (or_parents r))) @ ?ps @ rest) < 2 ^ 63"
    using assms by (simp add: put_reference_def)
  then show ?thesis using len
    by (simp add: dec_reference_def put_reference_def shown_reference_def read_return_def
        ignoring_puts loop)
qed


interpretation cref: codec enc_reference put_reference "dec_reference junk" shown_reference for junk
  by unfold_locales (simp_all add: enc_reference_put dec_reference_put)

lemma repeat_put:
  "length (pre @ concat (map put_reference rs) @ rest) < 2 ^ 63 \<Longrightarrow>
     read_repeat (dec_reference junk) (length rs) (reader_at pre (concat (map put_reference rs) @ rest)) =
       (Ok (map shown_reference rs), reader_at (pre @ concat (map put_reference rs)) rest)"
proof (induction rs arbitrary: pre)
  case (Cons r rs)
  have "dec_reference junk (reader_at pre (put_reference r @ concat (map put_reference rs) @ rest)) =
      (Ok (shown_reference r), reader_at (pre @ put_reference r) (concat (map put_reference rs) @ rest))"
    using Cons.prems by (intro dec_reference_put) simp
  moreover have "read_repeat (dec_reference junk) (length rs)
        (reader_at (pre @ put_reference r) (concat (map put_reference rs) @ rest)) =
      (Ok (map shown_reference rs), reader_at ((pre @ put_reference r) @ concat (map put_reference rs)) rest)"
    using Cons.prems by (intro Cons.IH) simp
  ultimately show ?case by (simp add: read_return_def)
qed (simp add: read_return_def)

lemma dec_alloc_enc:
  assumes "length (enc_alloc frame addr n name stack) < 2 ^ 63"
  shows "fst (dec_alloc (new_reader (enc_alloc frame addr n name stack))) =
      Ok (frame, addr, n, c_str name, c_str stack)"
    and "\<exists>r. read_uint64 (new_reader (enc_alloc frame addr n name stack)) = (Ok frame, r)"
proof -
  have e: "enc_alloc frame addr n name stack =
      put_uint64 frame @ put_uint64 addr @ put_uint32 n @ put_string name @ put_string stack"
    by (simp add: enc_alloc_def enc_puts)
  have st: "read_bind (read_string []) f (reader_at p (put_string stack)) =
      f (c_str stack) (reader_at (p @ put_string stack) [])" if "length (p @ put_string stack) < 2 ^ 63"
    for f :: "bytes \<Rightarrow> (u64 \<times> u64 \<times> u32 \<times> bytes \<times> bytes) read_m" and p
    using cstr.bind_put [of p stack "[]" f] that by simp
  show "fst (dec_alloc (new_reader (enc_alloc frame addr n name stack))) =
      Ok (frame, addr, n, c_str name, c_str stack)"
    using assms by (simp add: e new_reader_at dec_alloc_def bind_puts st read_return_def)
  show "\<exists>r. read_uint64 (new_reader (enc_alloc frame addr n name stack)) = (Ok frame, r)"
    using assms unfolding e new_reader_at by (subst c64.dec_put) simp_all
qed

lemma dec_free_enc: "fst (dec_free j k (new_reader (enc_free frame addr n))) = Ok (frame, addr, n)"
proof -
  have f: "enc_free frame addr n = put_uint64 frame @ put_uint64 addr @ put_uint32 n"
    by (simp add: enc_free_def enc_puts)
  have "read_ignoring read_uint32 k (reader_at p (put_uint32 n)) = (Ok n, reader_at (p @ put_uint32 n) [])"
    if "length (p @ put_uint32 n) < 2 ^ 63" for p
    using c32.ignoring_put [of p n "[]" k] that by simp
  then show ?thesis
    by (simp add: f new_reader_at dec_free_def bind_puts ignoring_puts read_return_def length_puts)
qed

text \<open>
  The client reads back every allocation event and every free event that the server
  encodes, up to the first zero byte of a name or callstack.
\<close>

theorem event_message_roundtrip:
  assumes "length (enc_alloc frame addr n name stack) < 2 ^ 63"
  shows "fst (dec_alloc (new_reader (enc_alloc frame addr n name stack))) =
      Ok (frame, addr, n, c_str name, c_str stack) \<and>
    fst (dec_free j k (new_reader (enc_free frame addr n))) = Ok (frame, addr, n)"
  using dec_alloc_enc(1) [OF assms] dec_free_enc by blast

theorem event_message_roundtrip_witness:
  "length (enc_alloc 5 4096 24 [71, 46, 85] [83, 0, 9]) < 2 ^ 63 \<and>
   fst (dec_alloc (new_reader (enc_alloc 5 4096 24 [71, 46, 85] [83, 0, 9]))) =
     Ok (5, 4096, 24, [71, 46, 85], [83])"
proof -
  have len: "length (enc_alloc 5 4096 24 [71, 46, 85] [83, 0, 9]) < 2 ^ 63"
    by (simp add: enc_alloc_def write_string_def c_str_def write_varint_def write_defs)
  from len event_message_roundtrip [OF len] show ?thesis by (simp add: c_str_def)
qed

lemma dec_references_enc:
  assumes "length (enc_references rid refs) < 2 ^ 63"
  shows "read_bind read_uint64 (\<lambda>rid. read_bind (dec_references junk) (\<lambda>rs. read_return (rid, rs)))
      (new_reader (enc_references rid refs)) =
    (Ok (rid, map shown_reference refs), reader_at (enc_references rid refs) [])"
proof -
  let ?ps = "concat (map put_reference refs)"
  have e: "enc_references rid refs = put_uint64 rid @ put_varint (of_nat (length refs)) @ ?ps"
    by (simp add: enc_references_def cref.fold_enc enc_puts)
  have len: "length refs < 2 ^ 63"
    using length_concat_ge [of refs put_reference] put_nonempty(3) assms by (simp add: e)
  have "read_repeat (dec_reference junk) (length refs) (reader_at p ?ps) =
      (Ok (map shown_reference refs), reader_at (p @ ?ps) [])" if "length (p @ ?ps) < 2 ^ 63" for p
    using repeat_put [of p refs "[]" junk] that by simp
  with assms len show ?thesis
    by (simp add: e new_reader_at dec_references_def bind_puts read_return_def)
qed

text \<open>
  The answer to a request for references arrives as it was sent: the request id, and for
  each object its address, its type up to the first zero byte and its parents in order.
\<close>

theorem references_message_roundtrip:
  assumes "length (enc_references rid refs) < 2 ^ 63"
  shows "read_bind read_uint64 (\<lambda>rid. read_bind (dec_references junk) (\<lambda>rs. read_return (rid, rs)))
      (new_reader (enc_references rid refs)) =
    (Ok (rid, map shown_reference refs), reader_at (enc_references rid refs) [])"
  by (rule dec_references_enc [OF assms])

definition example_reference :: object_references where
  "example_reference = \<lparr>or_addr = 2000, or_type = [65, 66], or_parents = [1000, 1000]\<rparr>"

lemma example_reference_bytes:
  "enc_references 7 [example_reference] =
     [7, 0, 0, 0, 0, 0, 0, 0, 1, 0xFD, 0xD0, 7, 2, 65, 66, 2, 0xFD, 0xE8, 3, 0xFD, 0xE8, 3]"
  by (simp add: enc_references_def enc_reference_def example_reference_def write_string_def c_str_def
      write_varint_def write_defs eval_simps)

theorem references_message_roundtrip_witness:
  "length (enc_references 7 [example_reference]) < 2 ^ 63 \<and>
   fst (read_bind read_uint64 (\<lambda>rid. read_bind (dec_references 0) (\<lambda>rs. read_return (rid, rs)))
      (new_reader (enc_references 7 [example_reference]))) = Ok (7, [example_reference])"
proof -
  have len: "length (enc_references 7 [example_reference]) < 2 ^ 63"
    unfolding example_reference_bytes by simp
  with references_message_roundtrip [OF len, of 0] show ?thesis
    by (simp add: shown_reference_def example_reference_def c_str_def)
qed

lemma dec_commands_enc:
  assumes "length (enc_cmd_references rid addrs) < 2 ^ 63"
  shows "dec_cmd_references junk (new_reader (enc_cmd_references rid addrs)) =
      (Ok (rid, addrs), reader_at (enc_cmd_references rid addrs) []) \<and>
    fst (dec_cmd junk (new_reader (enc_cmd rid))) = Ok rid"
proof
  let ?as = "concat (map put_uint64 addrs)"
  have e: "enc_cmd_references rid addrs = put_uint64 rid @ put_uint64 (of_nat (length addrs)) @ ?as"
    by (simp add: enc_cmd_references_def c64.fold_enc enc_puts)
  have len: "length addrs < 2 ^ 63"
    using length_concat_ge [of addrs put_uint64] put_nonempty(2) assms by (simp add: e)
  have "read_loop read_uint64 junk (length addrs) (reader_at p ?as) = (Ok addrs, reader_at (p @ ?as) [])"
    if "length (p @ ?as) < 2 ^ 63" for p
    using c64.loop_put [of p addrs "[]" junk] that by simp
  with assms len show "dec_cmd_references junk (new_reader (enc_cmd_references rid addrs)) =
      (Ok (rid, addrs), reader_at (enc_cmd_references rid addrs) [])"
    by (simp add: e new_reader_at dec_cmd_references_def ignoring_puts read_return_def)
  show "fst (dec_cmd junk (new_reader (enc_cmd rid))) = Ok rid"
    using c64.ignoring_put [of "[]" rid "[]" junk]
    by (simp add: dec_cmd_def enc_cmd_def enc_puts new_reader_at put_uint64_def)
qed

text \<open>
  The server reads back the commands the client sends: the request id and the list of
  addresses of a request for references, the request id of pause and resume.
\<close>

theorem command_message_roundtrip:
  assumes "length (enc_cmd_references rid addrs) < 2 ^ 63"
  shows "dec_cmd_references junk (new_reader (enc_cmd_references rid addrs)) =
      (Ok (rid, addrs), reader_at (enc_cmd_references rid addrs) []) \<and>
    fst (dec_cmd junk (new_reader (enc_cmd rid))) = Ok rid"
  by (rule dec_commands_enc [OF assms])

theorem command_message_roundtrip_witness:
  "length (enc_cmd_references 3 [64, 128]) < 2 ^ 63 \<and>
   fst (dec_cmd_references 0 (new_reader (enc_cmd_references 3 [64, 128]))) = Ok (3, [64, 128])"
proof -
  have len: "length (enc_cmd_references 3 [64, 128]) < 2 ^ 63"
    by (simp add: enc_cmd_references_def enc_puts put_uint64_def)
  with command_message_roundtrip [OF len, of 0] show ?thesis by simp
qed

text \<open>
  A free message that ends after its frame number is accepted: the address and the size of
  the recorded event are whatever the unset variables happened to hold.
\<close>

theorem short_free_message_accepted:
  "fst (dec_free junk_addr junk_size (new_reader (put_uint64 frame))) = Ok (frame, junk_addr, junk_size)"
proof -
  let ?r = "reader_at (put_uint64 frame) []"
  have "read_uint64 (new_reader (put_uint64 frame)) = (Ok frame, ?r)"
    using c64.dec_put [of "[]" frame "[]"] by (simp add: new_reader_at put_uint64_def)
  moreover have "read_uint64 ?r = (Fail, ?r)" "read_uint32 ?r = (Fail, ?r)"
    by (simp_all add: read_uint64_def read_uint32_def read_span_def reader_at_def put_uint64_def
        read_bind_def)
  ultimately show ?thesis by (simp add: dec_free_def read_ignoring_def read_return_def)
qed

end
