(* ===== verification/Storage.thy ===== *)
theory Storage
  imports Prelude
begin

text \<open>
  The database wrapper (\<^verbatim>\<open>persistent_storage/include/persistent_storage.h\<close> and
  \<^verbatim>\<open>persistent_storage.cpp\<close>): values, parameter binding, cursors, the registry of named
  statements and the transaction guard. The database engine behind it is a record of
  functions; nothing is assumed about them in this theory.
\<close>

section \<open>Values\<close>

datatype db_value = V_i32 u32 | V_ui32 u32 | V_i64 u64 | V_ui64 u64 | V_str bytes | V_vec bytes | V_empty

definition get_if_int32 :: "db_value \<Rightarrow> u32 option" where
  "get_if_int32 v = (case v of V_i32 x \<Rightarrow> Some x | _ \<Rightarrow> None)"

definition get_if_uint32 :: "db_value \<Rightarrow> u32 option" where
  "get_if_uint32 v = (case v of V_ui32 x \<Rightarrow> Some x | _ \<Rightarrow> None)"

definition get_if_int64 :: "db_value \<Rightarrow> u64 option" where
  "get_if_int64 v = (case v of V_i64 x \<Rightarrow> Some x | _ \<Rightarrow> None)"

definition get_if_uint64 :: "db_value \<Rightarrow> u64 option" where
  "get_if_uint64 v = (case v of V_ui64 x \<Rightarrow> Some x | _ \<Rightarrow> None)"

definition get_if_string :: "db_value \<Rightarrow> bytes option" where
  "get_if_string v = (case v of V_str x \<Rightarrow> Some x | _ \<Rightarrow> None)"

definition get_if_vector :: "db_value \<Rightarrow> bytes option" where
  "get_if_vector v = (case v of V_vec x \<Rightarrow> Some x | _ \<Rightarrow> None)"

text \<open>What the engine stores: integers are 64 bits wide and signed.\<close>

datatype sql_value = SQL_INTEGER u64 | SQL_FLOAT u64 | SQL_TEXT bytes | SQL_BLOB bytes | SQL_NULL

text \<open>\<^verbatim>\<open>sqlite3_bind_int\<close> takes an \<^verbatim>\<open>int\<close>, which the engine widens with its sign.\<close>

definition sqlite3_bind_int :: "u32 \<Rightarrow> sql_value" where
  "sqlite3_bind_int x = SQL_INTEGER (scast x)"

definition sqlite3_bind_int64 :: "u64 \<Rightarrow> sql_value" where
  "sqlite3_bind_int64 x = SQL_INTEGER x"

text \<open>
  The two chains of tests in \<^verbatim>\<open>prepare_statement\<close>: the first handles the signed types, the second
  the others. \<open>None\<close>: nothing is bound and the parameter keeps its value.
\<close>

definition bind_value :: "db_value \<Rightarrow> sql_value option" where
  "bind_value v =
     (let first = (case get_if_int32 v of
                     Some x \<Rightarrow> Some (sqlite3_bind_int x)
                   | None \<Rightarrow> map_option sqlite3_bind_int64 (get_if_int64 v))
      in case get_if_uint32 v of
           Some x \<Rightarrow> Some (sqlite3_bind_int x)
         | None \<Rightarrow>
             (case get_if_uint64 v of
                Some x \<Rightarrow> Some (sqlite3_bind_int64 x)
              | None \<Rightarrow>
                  (case get_if_string v of
                     Some x \<Rightarrow> Some (SQL_TEXT x)
                   | None \<Rightarrow>
                       (case get_if_vector v of
                          Some x \<Rightarrow> Some (SQL_BLOB x)
                        | None \<Rightarrow> first))))"

section \<open>Statements\<close>

type_synonym sql_row = "(bytes \<times> sql_value) list"

text \<open>
  A compiled statement: its text, the names of its parameters without the leading symbol, the
  values bound so far (index 1 first), and the rows its execution has still to deliver.
\<close>

datatype step_result = SQLITE_OK | SQLITE_ROW | SQLITE_DONE | SQLITE_ERROR

record statement_t =
  sql_text :: bytes
  statement_params :: "(bytes \<times> nat) list"
  bound :: "nat \<Rightarrow> sql_value"

record 'db sqlite =
  sq_open :: "bytes \<Rightarrow> bool \<Rightarrow> 'db option"
  sq_prepare :: "'db \<Rightarrow> bytes \<Rightarrow> bytes list option"
  sq_run :: "'db \<Rightarrow> bytes \<Rightarrow> (nat \<Rightarrow> sql_value) \<Rightarrow> sql_row list \<times> step_result \<times> 'db"
  sq_exec :: "'db \<Rightarrow> bytes \<Rightarrow> step_result \<times> 'db"
  sq_last_rowid :: "'db \<Rightarrow> u64"
  sq_errmsg :: "'db \<Rightarrow> bytes"

text \<open>\<^verbatim>\<open>statement_params[name] = i\<close>, for the parameters in order: a later one of the same name wins.\<close>

definition populate_statement_params :: "bytes list \<Rightarrow> (bytes \<times> nat) list" where
  "populate_statement_params names =
     fold (\<lambda>(name, i) m. (tl name, i) # um_erase (tl name) m) (zip names [1..<Suc (length names)]) []"

fun bind_params :: "(bytes \<times> nat) list \<Rightarrow> (bytes \<times> db_value) list \<Rightarrow> (nat \<Rightarrow> sql_value) \<Rightarrow>
    (nat \<Rightarrow> sql_value) option" where
  "bind_params names [] b = Some b"
| "bind_params names ((name, v) # ps) b =
     (case um_find names name of
        None \<Rightarrow> None
      | Some i \<Rightarrow> bind_params names ps (case bind_value v of None \<Rightarrow> b | Some s \<Rightarrow> b(i := s)))"

definition prepare_statement :: "statement_t \<Rightarrow> (bytes \<times> db_value) list \<Rightarrow> statement_t option" where
  "prepare_statement st params =
     map_option (\<lambda>b. st\<lparr>bound := b\<rparr>) (bind_params (statement_params st) params (bound st))"

record 'db storage =
  st_db :: "'db option"
  st_statements :: "(bytes \<times> statement_t) list"

definition new_storage :: "'db storage" where
  "new_storage = \<lparr>st_db = None, st_statements = []\<rparr>"

definition is_open :: "'db storage \<Rightarrow> bool" where
  "is_open s \<longleftrightarrow> st_db s \<noteq> None"

definition storage_open :: "'db sqlite \<Rightarrow> bytes \<Rightarrow> bool \<Rightarrow> 'db storage \<Rightarrow> bool \<times> 'db storage" where
  "storage_open sq path create s =
     (case sq_open sq path create of
        None \<Rightarrow> (False, \<lparr>st_db = None, st_statements = []\<rparr>)
      | Some db \<Rightarrow> (True, \<lparr>st_db = Some db, st_statements = []\<rparr>))"

definition storage_close :: "'db storage \<Rightarrow> 'db storage" where
  "storage_close s = \<lparr>st_db = None, st_statements = []\<rparr>"

definition register_query :: "'db sqlite \<Rightarrow> bytes \<Rightarrow> bytes \<Rightarrow> 'db storage \<Rightarrow> bool \<times> 'db storage" where
  "register_query sq query_id text s =
     (if query_id = [] \<or> text = [] then (False, s)
      else case st_db s of
             None \<Rightarrow> (False, s)
           | Some db \<Rightarrow>
               (case sq_prepare sq db text of
                  None \<Rightarrow> (False, s)
                | Some names \<Rightarrow>
                    (True, s\<lparr>st_statements :=
                       (query_id, \<lparr>sql_text = text, statement_params = populate_statement_params names,
                                   bound = (\<lambda>_. SQL_NULL)\<rparr>) # um_erase query_id (st_statements s)\<rparr>)))"

text \<open>A named statement after binding; the registry keeps the new bindings.\<close>

definition prepare_statement_from_id :: "bytes \<Rightarrow> (bytes \<times> db_value) list \<Rightarrow> 'db storage \<Rightarrow>
    statement_t option \<times> 'db storage" where
  "prepare_statement_from_id query_id params s =
     (case um_find (st_statements s) query_id of
        None \<Rightarrow> (None, s)
      | Some st \<Rightarrow>
          (case prepare_statement st params of
             None \<Rightarrow> (None, s)
           | Some st' \<Rightarrow> (Some st', s\<lparr>st_statements := um_modify query_id (\<lambda>_. st') (st_statements s)\<rparr>)))"

definition prepare_statement_from_text :: "'db sqlite \<Rightarrow> 'db \<Rightarrow> bytes \<Rightarrow> (bytes \<times> db_value) list \<Rightarrow>
    statement_t option" where
  "prepare_statement_from_text sq db text params =
     (case sq_prepare sq db text of
        None \<Rightarrow> None
      | Some names \<Rightarrow>
          prepare_statement \<lparr>sql_text = text, statement_params = populate_statement_params names,
                             bound = (\<lambda>_. SQL_NULL)\<rparr> params)"

text \<open>\<^verbatim>\<open>query\<close>: run a statement that delivers no rows.\<close>

definition storage_query :: "'db sqlite \<Rightarrow> bytes \<Rightarrow> (bytes \<times> db_value) list \<Rightarrow> 'db storage \<Rightarrow>
    bool \<times> 'db storage" where
  "storage_query sq query_id params s =
     (case st_db s of
        None \<Rightarrow> (False, s)
      | Some db \<Rightarrow>
          (case prepare_statement_from_id query_id params s of
             (None, s1) \<Rightarrow> (False, s1)
           | (Some st, s1) \<Rightarrow>
               let (rows, r, db') = sq_run sq db (sql_text st) (bound st)
               in (rows = [] \<and> r = SQLITE_DONE, s1\<lparr>st_db := Some db'\<rparr>)))"

section \<open>Cursors\<close>

record column_t =
  col_name :: bytes
  col_value :: db_value

record cursor =
  cur_rows :: "sql_row list"
  cur_end :: step_result
  cur_current :: "sql_row option"
  cur_columns :: "column_t list"
  cur_populated :: bool
  cur_result :: step_result
  cur_stmt :: bool

definition empty_cursor :: cursor where
  "empty_cursor = \<lparr>cur_rows = [], cur_end = SQLITE_DONE, cur_current = None, cur_columns = [],
     cur_populated = False, cur_result = SQLITE_OK, cur_stmt = False\<rparr>"

definition storage_query_data :: "'db sqlite \<Rightarrow> bytes \<Rightarrow> (bytes \<times> db_value) list \<Rightarrow> 'db storage \<Rightarrow>
    cursor \<times> 'db storage" where
  "storage_query_data sq query_id params s =
     (case st_db s of
        None \<Rightarrow> (empty_cursor, s)
      | Some db \<Rightarrow>
          (case prepare_statement_from_id query_id params s of
             (None, s1) \<Rightarrow> (empty_cursor, s1)
           | (Some st, s1) \<Rightarrow>
               let (rows, r, db') = sq_run sq db (sql_text st) (bound st)
               in (empty_cursor\<lparr>cur_rows := rows, cur_end := r, cur_stmt := True\<rparr>, s1\<lparr>st_db := Some db'\<rparr>)))"

definition cursor_is_valid :: "cursor \<Rightarrow> bool" where
  "cursor_is_valid c = cur_stmt c"

definition cursor_next :: "cursor \<Rightarrow> bool \<times> cursor" where
  "cursor_next c =
     (if \<not> cur_stmt c then (False, c)
      else case cur_rows c of
             row # rows \<Rightarrow> (True, c\<lparr>cur_populated := False, cur_result := SQLITE_ROW, cur_current := Some row,
                               cur_rows := rows\<rparr>)
           | [] \<Rightarrow> (False, c\<lparr>cur_populated := False, cur_result := cur_end c, cur_current := None\<rparr>))"

definition is_done :: "cursor \<Rightarrow> bool" where
  "is_done c \<longleftrightarrow> \<not> cur_stmt c \<or> cur_result c = SQLITE_DONE"

definition has_error :: "cursor \<Rightarrow> bool" where
  "has_error c \<longleftrightarrow> cur_result c \<noteq> SQLITE_OK \<and> cur_result c \<noteq> SQLITE_DONE \<and> cur_result c \<noteq> SQLITE_ROW"

text \<open>
  The value a column shows, from the value of the current row. A floating point column keeps
  the value it had in the row before. Text ends at its first zero byte.
\<close>

fun column_value :: "sql_value \<Rightarrow> db_value \<Rightarrow> db_value" where
  "column_value (SQL_INTEGER x) old = V_i64 x"
| "column_value (SQL_FLOAT x) old = old"
| "column_value (SQL_TEXT t) old = V_str (c_str t)"
| "column_value (SQL_BLOB b) old = V_vec b"
| "column_value SQL_NULL old = V_empty"

definition populate_columns :: "cursor \<Rightarrow> cursor" where
  "populate_columns c =
     (case cur_current c of
        None \<Rightarrow> c
      | Some row \<Rightarrow>
          let cols = (if cur_columns c = [] then map (\<lambda>(n, v). \<lparr>col_name = n, col_value = V_empty\<rparr>) row
                      else cur_columns c)
          in c\<lparr>cur_columns := map2 (\<lambda>col (n, v). col\<lparr>col_value := column_value v (col_value col)\<rparr>) cols row,
               cur_populated := True\<rparr>)"

definition get_value :: "bytes \<Rightarrow> cursor \<Rightarrow> db_value option" where
  "get_value column_name c =
     (if \<not> cur_stmt c then None
      else let c1 = (if cur_populated c then c else populate_columns c)
           in map_option col_value (find (\<lambda>col. col_name col = column_name) (cur_columns c1)))"

definition get_int :: "bytes \<Rightarrow> cursor \<Rightarrow> u32" where
  "get_int name c =
     (case get_value name c of
        None \<Rightarrow> 0
      | Some v \<Rightarrow> (case get_if_int64 v of Some x \<Rightarrow> ucast x | None \<Rightarrow> 0))"

definition get_int64 :: "bytes \<Rightarrow> cursor \<Rightarrow> u64" where
  "get_int64 name c =
     (case get_value name c of
        None \<Rightarrow> 0
      | Some v \<Rightarrow> (case get_if_int64 v of Some x \<Rightarrow> x | None \<Rightarrow> 0))"

definition get_uint :: "bytes \<Rightarrow> cursor \<Rightarrow> u32" where
  "get_uint name c =
     (case get_value name c of
        None \<Rightarrow> 0
      | Some v \<Rightarrow> (case get_if_int64 v of Some x \<Rightarrow> ucast x | None \<Rightarrow> 0))"

definition get_uint64 :: "bytes \<Rightarrow> cursor \<Rightarrow> u64" where
  "get_uint64 name c =
     (case get_value name c of
        None \<Rightarrow> 0
      | Some v \<Rightarrow> (case get_if_int64 v of Some x \<Rightarrow> x | None \<Rightarrow> 0))"

definition get_string :: "bytes \<Rightarrow> cursor \<Rightarrow> bytes" where
  "get_string name c =
     (case get_value name c of
        None \<Rightarrow> []
      | Some v \<Rightarrow> (case get_if_string v of Some x \<Rightarrow> x | None \<Rightarrow> []))"

definition get_blob :: "bytes \<Rightarrow> cursor \<Rightarrow> bytes" where
  "get_blob name c =
     (case get_value name c of
        None \<Rightarrow> []
      | Some v \<Rightarrow> (case get_if_vector v of Some x \<Rightarrow> x | None \<Rightarrow> []))"

section \<open>Immediate queries and maintenance\<close>

text \<open>The statement is compiled, run to its first row or its end, and finalized.\<close>

definition query_immediate :: "'db sqlite \<Rightarrow> bytes \<Rightarrow> (bytes \<times> db_value) list \<Rightarrow> 'db storage \<Rightarrow>
    bool \<times> 'db storage" where
  "query_immediate sq text params s =
     (case st_db s of
        None \<Rightarrow> (False, s)
      | Some db \<Rightarrow>
          (case prepare_statement_from_text sq db text params of
             None \<Rightarrow> (False, s)
           | Some st \<Rightarrow>
               let (rows, r, db') = sq_run sq db (sql_text st) (bound st);
                   c = snd (cursor_next (empty_cursor\<lparr>cur_rows := rows, cur_end := r, cur_stmt := True\<rparr>))
               in (is_done c, s\<lparr>st_db := Some db'\<rparr>)))"

definition query_data_immediate :: "'db sqlite \<Rightarrow> bytes \<Rightarrow> (bytes \<times> db_value) list \<Rightarrow> 'db storage \<Rightarrow>
    cursor \<times> 'db storage" where
  "query_data_immediate sq text params s =
     (case st_db s of
        None \<Rightarrow> (empty_cursor, s)
      | Some db \<Rightarrow>
          (case prepare_statement_from_text sq db text params of
             None \<Rightarrow> (empty_cursor, s)
           | Some st \<Rightarrow>
               let (rows, r, db') = sq_run sq db (sql_text st) (bound st)
               in (empty_cursor\<lparr>cur_rows := rows, cur_end := r, cur_stmt := True\<rparr>, s\<lparr>st_db := Some db'\<rparr>)))"

definition get_last_inserted_id :: "'db sqlite \<Rightarrow> 'db storage \<Rightarrow> u64" where
  "get_last_inserted_id sq s = (case st_db s of None \<Rightarrow> 0 | Some db \<Rightarrow> sq_last_rowid sq db)"

definition get_last_error :: "'db sqlite \<Rightarrow> 'db storage \<Rightarrow> bytes" where
  "get_last_error sq s = (case st_db s of None \<Rightarrow> [] | Some db \<Rightarrow> sq_errmsg sq db)"

text \<open>There is no test here: \<open>None\<close> is the null pointer of a storage that is not open.\<close>

definition storage_pragma :: "'db sqlite \<Rightarrow> bytes \<Rightarrow> 'db storage \<Rightarrow> (bool \<times> 'db storage) option" where
  "storage_pragma sq text s =
     (case st_db s of
        None \<Rightarrow> None
      | Some db \<Rightarrow> let (r, db') = sq_exec sq db text in Some (r = SQLITE_OK, s\<lparr>st_db := Some db'\<rparr>))"

text \<open>
  \<^verbatim>\<open>save\<close>: the outcomes of opening the file and of the three calls of the backup interface and of
  closing the file are arguments; the files are a map from names to databases, and a file that
  exists is removed first.
\<close>

record backup_outcome =
  bk_opened :: bool
  bk_init :: bool
  bk_step :: step_result
  bk_finish :: step_result
  bk_close :: step_result

definition storage_save :: "backup_outcome \<Rightarrow> bytes \<Rightarrow> 'db storage \<Rightarrow> (bytes \<Rightarrow> 'db option) \<Rightarrow>
    bool \<times> (bytes \<Rightarrow> 'db option)" where
  "storage_save bk path s files =
     (case st_db s of
        None \<Rightarrow> (False, files)
      | Some db \<Rightarrow>
          let removed = files(path := None)
          in if \<not> bk_opened bk \<or> \<not> bk_init bk then (False, removed)
             else if bk_step bk \<noteq> SQLITE_OK \<and> bk_step bk \<noteq> SQLITE_DONE then (False, removed)
             else let copied = removed(path \<mapsto> db)
                  in (bk_finish bk = SQLITE_OK \<and> bk_close bk = SQLITE_OK, copied))"

section \<open>Transactions\<close>

datatype transaction_behaviour = Tb_rollback | Tb_commit

text \<open>The database of a storage with an open transaction remembers what to return to.\<close>

record 'db transaction =
  tr_done :: bool
  tr_default :: transaction_behaviour
  tr_saved :: 'db

definition transaction_begin :: "transaction_behaviour \<Rightarrow> 'db \<Rightarrow> 'db transaction" where
  "transaction_begin b db = \<lparr>tr_done = False, tr_default = b, tr_saved = db\<rparr>"

definition transaction_commit :: "'db transaction \<Rightarrow> 'db \<Rightarrow> bool \<times> 'db transaction \<times> 'db" where
  "transaction_commit t db = (if tr_done t then (False, t, db) else (True, t\<lparr>tr_done := True\<rparr>, db))"

definition transaction_rollback :: "'db transaction \<Rightarrow> 'db \<Rightarrow> bool \<times> 'db transaction \<times> 'db" where
  "transaction_rollback t db =
     (if tr_done t then (False, t, db) else (True, t\<lparr>tr_done := True\<rparr>, tr_saved t))"

definition transaction_end :: "'db transaction \<Rightarrow> 'db \<Rightarrow> 'db" where
  "transaction_end t db =
     (if tr_default t = Tb_commit then snd (snd (transaction_commit t db))
      else snd (snd (transaction_rollback t db)))"

section \<open>Properties\<close>

text \<open>A statement that delivers one row with one column, as a cursor stands on it.\<close>

definition cursor_on :: "bytes \<Rightarrow> sql_value \<Rightarrow> cursor" where
  "cursor_on name v = snd (cursor_next (empty_cursor\<lparr>cur_rows := [[(name, v)]], cur_stmt := True\<rparr>))"

lemma get_value_cursor_on: "get_value name (cursor_on name v) = Some (column_value v V_empty)"
  by (simp add: cursor_on_def cursor_next_def get_value_def populate_columns_def empty_cursor_def Let_def)

lemma bit_31_iff: "bit (x :: u32) 31 \<longleftrightarrow> \<not> x < 2 ^ 31"
proof -
  have "unat x < 2 ^ 32" using unsigned_less [of x, where ?'a = nat] by simp
  moreover have "bit x 31 = odd (unat x div 2 ^ 31)"
    using bit_iff_odd [of "unat x" 31] by (simp add: bit_unsigned_iff)
  moreover have "unat x div 2 ^ 31 = (if unat x < 2 ^ 31 then 0 else 1)"
    using calculation(1) by (auto intro: div_nat_eqI)
  ultimately show ?thesis by (simp add: word_less_nat_alt)
qed

lemma scast_eq_ucast_iff: "(scast (x :: u32) :: u64) = ucast x \<longleftrightarrow> x < 2 ^ 31"
proof
  assume "(scast x :: u64) = ucast x"
  then have "bit (scast x :: u64) 32 = bit (ucast x :: u64) 32" by simp
  moreover have "\<not> bit x 32" using bit_imp_le_length [of x 32] by auto
  ultimately have "\<not> bit x 31" by (simp add: bit_signed_iff bit_unsigned_iff)
  then show "x < 2 ^ 31" by (simp add: bit_31_iff)
next
  assume "x < 2 ^ 31"
  then have "\<not> bit x 31" by (simp add: bit_31_iff)
  moreover have "\<not> bit x n" if "31 < n" for n using that bit_imp_le_length [of x n] by auto
  ultimately show "(scast x :: u64) = ucast x"
    by (intro bit_word_eqI) (auto simp: bit_signed_iff bit_unsigned_iff min_def not_less le_eq_less_or_eq)
qed

text \<open>
  Values come back from the database as they were bound: 64-bit integers of either sign,
  texts up to their first zero byte, blobs; only an unsigned 32-bit value is bound as a signed
  one, and is read back by \<^verbatim>\<open>get_uint64\<close> exactly when it is below \<open>2^31\<close>.
\<close>

theorem bound_value_read_back:
  "map_option (\<lambda>s. get_uint64 col (cursor_on col s)) (bind_value (V_ui64 x)) = Some x \<and>
   map_option (\<lambda>s. get_int64 col (cursor_on col s)) (bind_value (V_i64 y)) = Some y \<and>
   map_option (\<lambda>s. get_string col (cursor_on col s)) (bind_value (V_str t)) = Some (c_str t) \<and>
   map_option (\<lambda>s. get_blob col (cursor_on col s)) (bind_value (V_vec b)) = Some b \<and>
   (map_option (\<lambda>s. get_uint64 col (cursor_on col s)) (bind_value (V_ui32 n)) = Some (ucast n) \<longleftrightarrow>
      n < 2 ^ 31)"
  by (simp add: bind_value_def get_if_int32_def get_if_int64_def get_if_uint32_def get_if_uint64_def
      get_if_string_def get_if_vector_def sqlite3_bind_int_def sqlite3_bind_int64_def
      get_value_cursor_on get_uint64_def get_int64_def get_string_def get_blob_def
      scast_eq_ucast_iff [simplified])

end
