(* ===== verification/Queries.thy ===== *)
theory Queries
  imports Storage
begin

text \<open>
  The schema and the statements of the client's database (\<^verbatim>\<open>client/src/db_migrations.cpp\<close>,
  \<^verbatim>\<open>client/src/db_queries.cpp\<close>). A table is the list of its rows in rowid order; each statement
  is the effect of its SQL text on the tables. Parameters pass through \<open>bind_value\<close>, columns are
  read as \<^verbatim>\<open>cursor\<close> reads them.
\<close>

section \<open>Tables\<close>

record event_row =
  er_event_type :: u64
  er_type_id :: sql_value
  er_address :: sql_value
  er_size :: sql_value
  er_frame :: sql_value
  er_callstack_id :: sql_value

record stats_row =
  sr_frame :: u64
  sr_allocs :: u64
  sr_frees :: u64
  sr_size :: u64

record database =
  t_migrations :: "(bytes \<times> u64) list option"
  t_created :: bool
  t_events :: "event_row list"
  t_stats :: "stats_row list"
  t_types :: "(u64 \<times> bytes) list"
  t_callstacks :: "(u64 \<times> bytes) list"

definition empty_database :: database where
  "empty_database = \<lparr>t_migrations = None, t_created = False, t_events = [], t_stats = [],
     t_types = [], t_callstacks = []\<rparr>"

definition col_of :: "db_value \<Rightarrow> sql_value" where
  "col_of v = (case bind_value v of Some s \<Rightarrow> s | None \<Rightarrow> SQL_NULL)"

text \<open>\<^verbatim>\<open>get_uint64\<close> on a column that holds \<open>s\<close>.\<close>

definition col_uint64 :: "sql_value \<Rightarrow> u64" where
  "col_uint64 s = (case get_if_int64 (column_value s V_empty) of Some x \<Rightarrow> x | None \<Rightarrow> 0)"

lemma col_uint64_cursor: "col_uint64 s = get_uint64 name (cursor_on name s)"
  by (simp add: col_uint64_def get_uint64_def get_value_cursor_on)

lemma col_uint64_of [simp]:
  "col_uint64 (col_of (V_ui64 x)) = x" "col_uint64 (col_of (V_ui32 n)) = scast n"
  by (simp_all add: col_uint64_def col_of_def bind_value_def get_if_int32_def get_if_int64_def
      get_if_uint32_def get_if_uint64_def sqlite3_bind_int_def sqlite3_bind_int64_def)

section \<open>Migrations\<close>

definition create_basic_tables :: bytes where
  "create_basic_tables = chars ''Create basic tables''"

definition all_migrations :: "bytes list" where
  "all_migrations = [create_basic_tables]"

text \<open>The queries of a migration fail when the tables are there already.\<close>

definition run_migration :: "bytes \<Rightarrow> database \<Rightarrow> database option" where
  "run_migration m db = (if t_created db then None else Some (db\<lparr>t_created := True\<rparr>))"

definition record_migration :: "bytes \<times> u64 \<Rightarrow> database \<Rightarrow> database option" where
  "record_migration p db =
     (case t_migrations db of
        None \<Rightarrow> None
      | Some done_list \<Rightarrow>
          if fst p \<in> fst ` set done_list then None
          else Some (db\<lparr>t_migrations := Some (done_list @ [p])\<rparr>))"

fun run_migrations :: "(bytes \<times> u64) list \<Rightarrow> database \<Rightarrow> bool \<times> database" where
  "run_migrations [] db = (True, db)"
| "run_migrations (p # ps) db =
     (let t = transaction_begin Tb_rollback db
      in case run_migration (fst p) db of
           None \<Rightarrow> (False, snd (snd (transaction_rollback t db)))
         | Some db1 \<Rightarrow>
             (case record_migration p db1 of
                None \<Rightarrow> (False, snd (snd (transaction_rollback t db1)))
              | Some db2 \<Rightarrow>
                  let (ok, t1, db3) = transaction_commit t db2
                  in if \<not> ok then (False, transaction_end t1 db3)
                     else run_migrations ps (transaction_end t1 db3)))"

definition upgrade_database :: "database \<Rightarrow> bool \<times> database" where
  "upgrade_database db =
     (let db1 = (if t_migrations db = None then db\<lparr>t_migrations := Some []\<rparr> else db);
          completed = (case t_migrations db1 of Some l \<Rightarrow> map fst l | None \<Rightarrow> []);
          indexed = zip all_migrations (map of_nat [0..<length all_migrations]);
          incomplete = filter (\<lambda>p. fst p \<notin> set completed) indexed
      in run_migrations incomplete db1)"

section \<open>Insertions\<close>

definition insert_alloc_event :: "u64 \<Rightarrow> u64 \<Rightarrow> u64 \<Rightarrow> u64 \<Rightarrow> u64 \<Rightarrow> database \<Rightarrow> bool \<times> database" where
  "insert_alloc_event frame addr obj_size type_id callstack_id db =
     (if \<not> t_created db then (False, db)
      else (True, db\<lparr>t_events := t_events db @
              [\<lparr>er_event_type = 1, er_type_id = col_of (V_ui64 type_id), er_address = col_of (V_ui64 addr),
                er_size = col_of (V_ui64 obj_size), er_frame = col_of (V_ui64 frame),
                er_callstack_id = col_of (V_ui64 callstack_id)\<rparr>]\<rparr>))"

definition insert_free_event :: "u64 \<Rightarrow> u64 \<Rightarrow> u32 \<Rightarrow> database \<Rightarrow> bool \<times> database" where
  "insert_free_event frame addr obj_size db =
     (if \<not> t_created db then (False, db)
      else (True, db\<lparr>t_events := t_events db @
              [\<lparr>er_event_type = 2, er_type_id = SQL_NULL, er_address = col_of (V_ui64 addr),
                er_size = col_of (V_ui32 obj_size), er_frame = col_of (V_ui64 frame),
                er_callstack_id = SQL_NULL\<rparr>]\<rparr>))"

text \<open>The id is the primary key and the text is declared unique.\<close>

definition insert_type :: "bytes \<Rightarrow> u64 \<Rightarrow> database \<Rightarrow> bool \<times> database" where
  "insert_type type new_id db =
     (if \<not> t_created db \<or> new_id \<in> fst ` set (t_types db) \<or> type \<in> snd ` set (t_types db) then (False, db)
      else (True, db\<lparr>t_types := t_types db @ [(new_id, type)]\<rparr>))"

definition insert_callstack :: "bytes \<Rightarrow> u64 \<Rightarrow> database \<Rightarrow> bool \<times> database" where
  "insert_callstack callstack new_id db =
     (if \<not> t_created db \<or> new_id \<in> fst ` set (t_callstacks db) \<or> callstack \<in> snd ` set (t_callstacks db)
      then (False, db)
      else (True, db\<lparr>t_callstacks := t_callstacks db @ [(new_id, callstack)]\<rparr>))"

text \<open>\<^verbatim>\<open>INSERT OR REPLACE\<close>: the row of the same frame goes first.\<close>

definition insert_frame_stats :: "u64 \<Rightarrow> u64 \<Rightarrow> u64 \<Rightarrow> u64 \<Rightarrow> database \<Rightarrow> bool \<times> database" where
  "insert_frame_stats frame allocs frees size_total db =
     (if \<not> t_created db then (False, db)
      else (True, db\<lparr>t_stats := filter (\<lambda>r. sr_frame r \<noteq> frame) (t_stats db) @
              [\<lparr>sr_frame = frame, sr_allocs = allocs, sr_frees = frees, sr_size = size_total\<rparr>]\<rparr>))"

section \<open>Selections\<close>

text \<open>The engine compares integers as signed ones.\<close>

definition in_frames :: "u64 \<Rightarrow> u64 \<Rightarrow> u64 \<Rightarrow> bool" where
  "in_frames from to frame \<longleftrightarrow> sint from \<le> sint frame \<and> sint frame \<le> sint to"

definition select_events :: "u64 \<Rightarrow> u64 \<Rightarrow> database \<Rightarrow> event_row list" where
  "select_events from to db =
     sort_key (\<lambda>r. sint (col_uint64 (er_frame r)))
       (filter (\<lambda>r. in_frames from to (col_uint64 (er_frame r))) (t_events db))"

definition select_events_count :: "u64 \<Rightarrow> u64 \<Rightarrow> database \<Rightarrow> nat" where
  "select_events_count from to db =
     length (filter (\<lambda>r. in_frames from to (col_uint64 (er_frame r))) (t_events db))"

definition select_stats :: "u64 \<Rightarrow> u64 \<Rightarrow> database \<Rightarrow> stats_row list" where
  "select_stats from to db =
     sort_key (\<lambda>r. sint (sr_frame r)) (filter (\<lambda>r. in_frames from to (sr_frame r)) (t_stats db))"

definition select_types :: "database \<Rightarrow> (u64 \<times> bytes) list" where
  "select_types db = t_types db"

definition select_callstacks :: "database \<Rightarrow> (u64 \<times> bytes) list" where
  "select_callstacks db = t_callstacks db"

definition select_last_good_size :: "u64 \<Rightarrow> database \<Rightarrow> u64 option" where
  "select_last_good_size from db =
     (case rev (sort_key (\<lambda>r. sint (sr_frame r)) (filter (\<lambda>r. sint (sr_frame r) \<le> sint from) (t_stats db))) of
        [] \<Rightarrow> None
      | r # _ \<Rightarrow> Some (sr_size r))"

text \<open>Minimum and maximum of the frames; both are \<^verbatim>\<open>NULL\<close>, read as 0, when there are no events.\<close>

definition select_min_max_frame :: "database \<Rightarrow> u64 \<times> u64" where
  "select_min_max_frame db =
     (let fs = map (\<lambda>r. col_uint64 (er_frame r)) (t_events db)
      in if fs = [] then (0, 0)
         else (arg_min_list sint fs, hd (rev (sort_key sint fs))))"

definition select_allocation_type_and_stack :: "u64 \<Rightarrow> database \<Rightarrow> (u64 \<times> u64) option" where
  "select_allocation_type_and_stack address db =
     (case rev (sort_key (\<lambda>r. sint (col_uint64 (er_frame r)))
              (filter (\<lambda>r. er_event_type r = 1 \<and> er_address r = SQL_INTEGER address) (t_events db))) of
        [] \<Rightarrow> None
      | r # _ \<Rightarrow> Some (col_uint64 (er_type_id r), col_uint64 (er_callstack_id r)))"

text \<open>The two left joins add the texts of the type and of the callstack.\<close>

definition select_callstack_for_type :: "u64 \<Rightarrow> u64 \<Rightarrow> u64 \<Rightarrow> database \<Rightarrow>
    (event_row \<times> bytes option \<times> bytes option) list" where
  "select_callstack_for_type from to type db =
     map (\<lambda>r. (r, map_of (t_types db) (col_uint64 (er_type_id r)),
               if er_callstack_id r = SQL_NULL then None
               else map_of (t_callstacks db) (col_uint64 (er_callstack_id r))))
       (filter (\<lambda>r. in_frames from to (col_uint64 (er_frame r)) \<and> er_type_id r = SQL_INTEGER type) (t_events db))"

lemma upgrade_database_fresh:
  "upgrade_database empty_database =
     (True, empty_database\<lparr>t_created := True, t_migrations := Some [(create_basic_tables, 0)]\<rparr>)"
  by (simp add: upgrade_database_def all_migrations_def empty_database_def run_migration_def
      record_migration_def transaction_begin_def transaction_commit_def transaction_rollback_def
      transaction_end_def Let_def)

lemma upgrade_database_again:
  assumes "t_migrations db = Some l" "create_basic_tables \<in> fst ` set l"
  shows "upgrade_database db = (True, db)"
proof -
  have "create_basic_tables \<in> set (map fst l)" using assms(2) by simp
  then show ?thesis using assms(1) by (simp add: upgrade_database_def all_migrations_def Let_def)
qed

end
