(* ===== verification/Client.thy ===== *)
theory Client
  imports Protocol Queries
begin

text \<open>
  The profiler client (\<^verbatim>\<open>client/src/mono_profiler_client.cpp\<close>): it turns the messages of the
  profiled process into database rows, one transaction per frame, keeps the caches of type and
  callstack names and the list of commands that wait for an answer. Callback calls are
  collected, in order, in \<open>c_callbacks\<close>. \<open>None\<close> stands for a failed assertion, a
  \<^verbatim>\<open>__debugbreak\<close> or a read outside the message.
\<close>

section \<open>State\<close>

datatype event_kind = Ev_alloc | Ev_free

record profiler_event =
  pe_type :: event_kind
  pe_frame :: u64
  pe_addr :: u64
  pe_size :: u32
  pe_obj_type :: bytes
  pe_callstack :: bytes

datatype base_command =
    command_find_references u64 "u64 list"
  | command_pause_app u64
  | command_resume_app u64

fun request_id :: "base_command \<Rightarrow> u64" where
  "request_id (command_find_references rid addrs) = rid"
| "request_id (command_pause_app rid) = rid"
| "request_id (command_resume_app rid) = rid"

fun command_type :: "base_command \<Rightarrow> cmd" where
  "command_type (command_find_references rid addrs) = CMD_REFERENCES"
| "command_type (command_pause_app rid) = CMD_PAUSE"
| "command_type (command_resume_app rid) = CMD_RESUME"

datatype callback =
    Cb_references "u64 list" "object_references list"
  | Cb_pause bool
  | Cb_resume bool

record client =
  c_network :: network_details
  c_next_request_id :: u64
  c_commands :: "base_command list"
  c_stop :: bool
  c_thread :: bool
  c_db :: "database option"
  c_frame_events :: "profiler_event list"
  c_prev_frame :: u64
  c_frame_allocs :: u64
  c_frame_frees :: u64
  c_size_running_total :: u64
  c_has_min_frame :: bool
  c_min_frame :: u64
  c_max_frame :: u64
  c_type_to_id :: "(bytes, u64) umap"
  c_id_to_type :: "(u64, bytes) umap"
  c_callstacks_to_id :: "(bytes, u64) umap"
  c_id_to_callstacks :: "(u64, bytes) umap"
  c_next_type_id :: u64
  c_next_callstack_id :: u64
  c_callbacks :: "callback list"

definition no_frame :: u64 where
  "no_frame = 0xFFFFFFFFFFFFFFFF"

definition new_client :: client where
  "new_client = \<lparr>c_network = new_network, c_next_request_id = 0, c_commands = [], c_stop = False,
     c_thread = False, c_db = None, c_frame_events = [], c_prev_frame = no_frame, c_frame_allocs = 0,
     c_frame_frees = 0, c_size_running_total = 0, c_has_min_frame = False, c_min_frame = 0,
     c_max_frame = 0, c_type_to_id = [], c_id_to_type = [], c_callstacks_to_id = [],
     c_id_to_callstacks = [], c_next_type_id = 0, c_next_callstack_id = 0, c_callbacks = []\<rparr>"

section \<open>Commands\<close>

text \<open>The first command with the id is removed; the outer \<open>None\<close> is the assertion on its type.\<close>

fun get_command :: "u64 \<Rightarrow> cmd \<Rightarrow> base_command list \<Rightarrow> (base_command option \<times> base_command list) option" where
  "get_command rid type [] = Some (None, [])"
| "get_command rid type (c # cs) =
     (if request_id c = rid then (if command_type c = type then Some (Some c, cs) else None)
      else map_option (\<lambda>(r, cs'). (r, c # cs')) (get_command rid type cs))"

definition add_command :: "base_command \<Rightarrow> client \<Rightarrow> u64 \<times> client" where
  "add_command cm c = (request_id cm, c\<lparr>c_commands := c_commands c @ [cm]\<rparr>)"

definition send :: "bytes \<Rightarrow> cmd \<Rightarrow> bytes \<Rightarrow> client \<Rightarrow> client option" where
  "send padding type buf c =
     map_option (\<lambda>d. c\<lparr>c_network := d\<rparr>)
       (write_message padding (cmd_code type) (of_nat (length buf)) buf (c_network c))"

definition find_objects_references :: "bytes \<Rightarrow> u64 list \<Rightarrow> client \<Rightarrow> client option" where
  "find_objects_references padding addresses c =
     (let (rid, c1) = add_command (command_find_references (c_next_request_id c) addresses)
            (c\<lparr>c_next_request_id := c_next_request_id c + 1\<rparr>)
      in send padding CMD_REFERENCES (enc_cmd_references rid addresses) c1)"

definition client_pause_app :: "bytes \<Rightarrow> client \<Rightarrow> client option" where
  "client_pause_app padding c =
     (let (rid, c1) = add_command (command_pause_app (c_next_request_id c))
            (c\<lparr>c_next_request_id := c_next_request_id c + 1\<rparr>)
      in send padding CMD_PAUSE (enc_cmd rid) c1)"

definition client_resume_app :: "bytes \<Rightarrow> client \<Rightarrow> client option" where
  "client_resume_app padding c =
     (let (rid, c1) = add_command (command_resume_app (c_next_request_id c))
            (c\<lparr>c_next_request_id := c_next_request_id c + 1\<rparr>)
      in send padding CMD_RESUME (enc_cmd rid) c1)"

section \<open>Saving events\<close>

definition on_db :: "(database \<Rightarrow> bool \<times> database) \<Rightarrow> client \<Rightarrow> client" where
  "on_db f c = c\<lparr>c_db := map_option (\<lambda>db. snd (f db)) (c_db c)\<rparr>"

definition get_or_create_type_id :: "bytes \<Rightarrow> client \<Rightarrow> u64 \<times> client" where
  "get_or_create_type_id type c =
     (case um_find (c_type_to_id c) type of
        Some type_id \<Rightarrow> (type_id, c)
      | None \<Rightarrow>
          let type_id = c_next_type_id c
          in (type_id, on_db (insert_type type type_id)
               (c\<lparr>c_next_type_id := c_next_type_id c + 1,
                  c_type_to_id := um_insert type type_id (c_type_to_id c),
                  c_id_to_type := um_insert type_id type (c_id_to_type c)\<rparr>)))"

definition get_or_create_callstack_id :: "bytes \<Rightarrow> client \<Rightarrow> u64 \<times> client" where
  "get_or_create_callstack_id callstack c =
     (case um_find (c_callstacks_to_id c) callstack of
        Some callstack_id \<Rightarrow> (callstack_id, c)
      | None \<Rightarrow>
          let callstack_id = c_next_callstack_id c
          in (callstack_id, on_db (insert_callstack callstack callstack_id)
               (c\<lparr>c_next_callstack_id := c_next_callstack_id c + 1,
                  c_callstacks_to_id := um_insert callstack callstack_id (c_callstacks_to_id c),
                  c_id_to_callstacks := um_insert callstack_id callstack (c_id_to_callstacks c)\<rparr>)))"

definition save_event :: "profiler_event \<Rightarrow> client \<Rightarrow> client" where
  "save_event e c =
     (case pe_type e of
        Ev_alloc \<Rightarrow>
          let (type_id, c1) = get_or_create_type_id (pe_obj_type e) c;
              (callstack_id, c2) = get_or_create_callstack_id (pe_callstack e) c1
          in on_db (insert_alloc_event (pe_frame e) (pe_addr e) (ucast (pe_size e)) type_id callstack_id) c2
      | Ev_free \<Rightarrow> on_db (insert_free_event (pe_frame e) (pe_addr e) (pe_size e)) c)"

definition save_frame_events :: "client \<Rightarrow> client option" where
  "save_frame_events c =
     (if c_prev_frame c = no_frame then (if c_frame_events c = [] then Some c else None)
      else if c_db c = None then None
      else let c1 = fold save_event (c_frame_events c) c;
               c2 = on_db (insert_frame_stats (c_prev_frame c1) (c_frame_allocs c1) (c_frame_frees c1)
                      (c_size_running_total c1)) c1
           in Some (c2\<lparr>c_frame_events := []\<rparr>))"

definition try_save_events :: "u64 \<Rightarrow> client \<Rightarrow> client option" where
  "try_save_events frame c =
     (if frame \<noteq> c_prev_frame c then
        let c1 = (if \<not> c_has_min_frame c then c\<lparr>c_min_frame := frame, c_has_min_frame := True\<rparr> else c);
            c2 = (if frame > c_max_frame c1 then c1\<lparr>c_max_frame := frame\<rparr> else c1)
        in map_option (\<lambda>c3. c3\<lparr>c_prev_frame := frame, c_frame_allocs := 0, c_frame_frees := 0\<rparr>)
             (save_frame_events c2)
      else Some c)"

section \<open>Messages\<close>

definition add_alloc :: "u64 \<Rightarrow> u64 \<Rightarrow> u32 \<Rightarrow> bytes \<Rightarrow> bytes \<Rightarrow> client \<Rightarrow> client" where
  "add_alloc frame addr n name callstack c =
     c\<lparr>c_frame_events := c_frame_events c @
         [\<lparr>pe_type = Ev_alloc, pe_frame = frame, pe_addr = addr, pe_size = n, pe_obj_type = name,
           pe_callstack = callstack\<rparr>],
       c_frame_allocs := c_frame_allocs c + 1,
       c_size_running_total := c_size_running_total c + ucast n\<rparr>"

definition add_free :: "u64 \<Rightarrow> u64 \<Rightarrow> u32 \<Rightarrow> client \<Rightarrow> client" where
  "add_free frame addr n c =
     c\<lparr>c_frame_events := c_frame_events c @
         [\<lparr>pe_type = Ev_free, pe_frame = frame, pe_addr = addr, pe_size = n, pe_obj_type = [],
           pe_callstack = []\<rparr>],
       c_frame_frees := c_frame_frees c + 1,
       c_size_running_total := c_size_running_total c - ucast n\<rparr>"

text \<open>A frame number below the previous one stops the client; the test comes before the check
  that all fields were read, on whatever the variable holds.\<close>

definition frame_variable :: "u64 \<Rightarrow> memory_reader \<Rightarrow> u64" where
  "frame_variable junk r = (case read_uint64 r of (Ok f, _) \<Rightarrow> f | _ \<Rightarrow> junk)"

definition on_alloc :: "u64 \<Rightarrow> memory_reader \<Rightarrow> client \<Rightarrow> client option" where
  "on_alloc junk r c =
     (let parsed = fst (dec_alloc r)
      in if parsed = Undef then None
         else if frame_variable junk r < c_prev_frame c \<and> c_prev_frame c \<noteq> no_frame then None
         else case parsed of
                Ok (frame, addr, n, name, callstack) \<Rightarrow>
                  map_option (add_alloc frame addr n name callstack) (try_save_events frame c)
              | _ \<Rightarrow> Some c)"

definition on_free :: "u64 \<Rightarrow> u32 \<Rightarrow> memory_reader \<Rightarrow> client \<Rightarrow> client option" where
  "on_free junk_addr junk_size r c =
     (case fst (dec_free junk_addr junk_size r) of
        Ok (frame, addr, n) \<Rightarrow> map_option (add_free frame addr n) (try_save_events frame c)
      | Fail \<Rightarrow> Some c
      | Undef \<Rightarrow> None)"

text \<open>The flag says whether the code after the branches is reached (no \<^verbatim>\<open>continue\<close>).\<close>

definition on_references :: "u64 \<Rightarrow> memory_reader \<Rightarrow> client \<Rightarrow> (bool \<times> client) option" where
  "on_references junk r c =
     (case read_uint64 r of
        (Undef, _) \<Rightarrow> None
      | (Fail, _) \<Rightarrow> Some (False, c)
      | (Ok rid, r1) \<Rightarrow>
          (case get_command rid CMD_REFERENCES (c_commands c) of
             None \<Rightarrow> None
           | Some (None, cs) \<Rightarrow> Some (False, c)
           | Some (Some cm, cs) \<Rightarrow>
               let c1 = c\<lparr>c_commands := cs\<rparr>
               in case fst (dec_references junk r1) of
                    Undef \<Rightarrow> None
                  | Fail \<Rightarrow> Some (False, c1)
                  | Ok refs \<Rightarrow>
                      (case cm of
                         command_find_references _ addrs \<Rightarrow>
                           Some (True, c1\<lparr>c_callbacks := c_callbacks c1 @ [Cb_references addrs refs]\<rparr>)
                       | _ \<Rightarrow> None)))"

definition on_ack :: "cmd \<Rightarrow> (bool \<Rightarrow> callback) \<Rightarrow> memory_reader \<Rightarrow> client \<Rightarrow> (bool \<times> client) option" where
  "on_ack type cb r c =
     (case read_uint64 r of
        (Undef, _) \<Rightarrow> None
      | (Fail, _) \<Rightarrow> Some (False, c)
      | (Ok rid, r1) \<Rightarrow>
          (case get_command rid type (c_commands c) of
             None \<Rightarrow> None
           | Some (None, cs) \<Rightarrow> Some (False, c)
           | Some (Some cm, cs) \<Rightarrow>
               let c1 = c\<lparr>c_commands := cs\<rparr>
               in case fst (read_uint8 r1) of
                    Undef \<Rightarrow> None
                  | Fail \<Rightarrow> Some (False, c1)
                  | Ok error \<Rightarrow> Some (True, c1\<lparr>c_callbacks := c_callbacks c1 @ [cb (error = 0)]\<rparr>)))"

definition limit_events :: "client \<Rightarrow> client option" where
  "limit_events c = (if length (c_frame_events c) > 10000 then save_frame_events c else Some c)"

definition process_message :: "u64 \<Rightarrow> net_message \<Rightarrow> client \<Rightarrow> client option" where
  "process_message junk msg c =
     (let r = new_reader (msg_data msg);
          after = (\<lambda>res. case res of None \<Rightarrow> None
                    | Some (reached, c1) \<Rightarrow> if reached then limit_events c1 else Some c1)
      in if hdr_type msg = srv_code SRV_ALLOC then after (map_option (Pair True) (on_alloc junk r c))
         else if hdr_type msg = srv_code SRV_FREE then
           after (map_option (Pair True) (on_free junk (ucast junk) r c))
         else if hdr_type msg = srv_code SRV_REFERENCES then after (on_references junk r c)
         else if hdr_type msg = srv_code SRV_PAUSE then after (on_ack CMD_PAUSE Cb_pause r c)
         else if hdr_type msg = srv_code SRV_RESUME then after (on_ack CMD_RESUME Cb_resume r c)
         else None)"

text \<open>The loop, for the messages that are in the queue; it ends when the queue is empty and the
  client was told to stop.\<close>

fun process_all :: "u64 \<Rightarrow> net_message list \<Rightarrow> client \<Rightarrow> client option" where
  "process_all junk [] c = Some c"
| "process_all junk (m # ms) c =
     (case process_message junk m c of None \<Rightarrow> None | Some c' \<Rightarrow> process_all junk ms c')"

definition process_end :: "client \<Rightarrow> client option" where
  "process_end c =
     (case c_frame_events c of
        [] \<Rightarrow> Some c
      | e # _ \<Rightarrow> try_save_events (pe_frame e) c)"

section \<open>Sessions and files\<close>

text \<open>
  The outside world of a session: the outcome of the connection attempt and what opening the
  database file yields (a new file is empty, an existing one has its tables).
\<close>

definition client_start :: "asio_error option \<Rightarrow> database option \<Rightarrow> client \<Rightarrow> bool \<times> client" where
  "client_start ec file c =
     (case net_connect ec (c_network c) of
        (False, d) \<Rightarrow> (False, c\<lparr>c_network := d\<rparr>)
      | (True, d) \<Rightarrow>
          let c1 = c\<lparr>c_network := d, c_db := None\<rparr>
          in case file of
               None \<Rightarrow> (False, c1)
             | Some db \<Rightarrow>
                 let (ok, db1) = upgrade_database db
                 in if \<not> ok then (False, c1\<lparr>c_db := Some db1\<rparr>)
                    else (True, c1\<lparr>c_db := Some db1, c_thread := True\<rparr>))"

text \<open>\<^verbatim>\<open>stop\<close>: the processing thread empties the queue, saves, and is joined.\<close>

definition client_stop :: "u64 \<Rightarrow> client \<Rightarrow> client option" where
  "client_stop junk c =
     (let c1 = c\<lparr>c_stop := True\<rparr>;
          finished = (if c_thread c1
            then (case process_all junk (m_read_buffer (c_network c1))
                         (c1\<lparr>c_network := (c_network c1)\<lparr>m_read_buffer := []\<rparr>\<rparr>) of
                    None \<Rightarrow> None | Some c2 \<Rightarrow> process_end c2)
            else Some c1)
      in map_option (\<lambda>c3. c3\<lparr>c_thread := False, c_network := net_stop_all (c_network c3)\<rparr>) finished)"

definition load_types_and_callstacks :: "client \<Rightarrow> bool \<times> client" where
  "load_types_and_callstacks c =
     (case c_db c of
        None \<Rightarrow> (False, c)
      | Some db \<Rightarrow>
          let c1 = fold (\<lambda>(type_id, type) c.
                c\<lparr>c_type_to_id := um_insert type type_id (c_type_to_id c),
                  c_id_to_type := um_insert type_id type (c_id_to_type c)\<rparr>) (select_types db) c;
              c2 = fold (\<lambda>(callstack_id, callstack) c.
                c\<lparr>c_callstacks_to_id := um_insert callstack callstack_id (c_callstacks_to_id c),
                  c_id_to_callstacks := um_insert callstack_id callstack (c_id_to_callstacks c)\<rparr>)
                (select_callstacks db) c1;
              (lo, hi) = select_min_max_frame db
          in (True, c2\<lparr>c_min_frame := lo, c_max_frame := hi\<rparr>))"

definition open_data :: "database option \<Rightarrow> client \<Rightarrow> bool \<times> client" where
  "open_data file c =
     (if c_thread c then (False, c)
      else case file of
             None \<Rightarrow> (False, c\<lparr>c_db := None\<rparr>)
           | Some db \<Rightarrow>
               let (ok, db1) = upgrade_database db; c1 = c\<lparr>c_db := Some db1\<rparr>
               in if \<not> ok then (False, c1) else load_types_and_callstacks c1)"

text \<open>\<^verbatim>\<open>save_db\<close>: copy the open database into a file and open that; \<open>copied\<close> tells whether the
  copy succeeds.\<close>

definition save_db :: "bool \<Rightarrow> client \<Rightarrow> bool \<times> client" where
  "save_db copied c =
     (case c_db c of
        None \<Rightarrow> (False, c)
      | Some db \<Rightarrow> if \<not> copied then (False, c) else open_data (Some db) c)"

definition close_db :: "client \<Rightarrow> client option" where
  "close_db c =
     (if \<not> c_thread c \<and> (\<not> is_connected (c_network c) \<or> is_connecting (c_network c))
      then Some (c\<lparr>c_db := None\<rparr>) else None)"

definition is_data_open :: "client \<Rightarrow> bool" where
  "is_data_open c \<longleftrightarrow> c_db c \<noteq> None"

text \<open>What the injected library writes into the pipe, and the answer of \<^verbatim>\<open>launch_executable\<close>.\<close>

datatype launch_result = Launch_OK | DETOUR_CREATE_WITH_DLL_FAILED | DETOUR_PIPE_TIMEOUT
  | DETOUR_PIPE_FAILED | DETOUR_PIPE_READ_FAILED | PDB_NOT_FOUND | DETOUR_FAILED | BAD_VERSION
  | DETOUR_FAILED_LATE | CONNECT_FAILED

definition launch_executable :: "bool \<Rightarrow> bool \<Rightarrow> bool \<Rightarrow> bytes option \<Rightarrow>
    asio_error option \<Rightarrow> database option \<Rightarrow> client \<Rightarrow> launch_result \<times> client" where
  "launch_executable created pipe_opened pipe_mode_set reply ec file c =
     (if \<not> created then (DETOUR_CREATE_WITH_DLL_FAILED, c)
      else if \<not> pipe_opened then (DETOUR_PIPE_TIMEOUT, c)
      else if \<not> pipe_mode_set then (DETOUR_PIPE_FAILED, c)
      else case reply of
             None \<Rightarrow> (DETOUR_PIPE_READ_FAILED, c)
           | Some code \<Rightarrow>
               if c_str (take 16 code) = chars ''SYMBOLS'' then (PDB_NOT_FOUND, c)
               else if c_str (take 16 code) = chars ''DETOUR'' then (DETOUR_FAILED, c)
               else if c_str (take 16 code) = chars ''DEQUE'' then (BAD_VERSION, c)
               else if c_str (take 16 code) = chars ''DETOUR2'' then (DETOUR_FAILED_LATE, c)
               else (case client_start ec file c of
                       (ok, c1) \<Rightarrow> (if ok then Launch_OK else CONNECT_FAILED, c1)))"

section \<open>Queries of the user interface\<close>

definition get_type_name :: "u64 \<Rightarrow> client \<Rightarrow> bytes" where
  "get_type_name type_id c = (case um_find (c_id_to_type c) type_id of Some t \<Rightarrow> c_str t | None \<Rightarrow> [])"

definition get_callstack :: "u64 \<Rightarrow> client \<Rightarrow> bytes" where
  "get_callstack callstack_id c =
     (case um_find (c_id_to_callstacks c) callstack_id of Some t \<Rightarrow> c_str t | None \<Rightarrow> [])"

definition get_types_count :: "client \<Rightarrow> nat" where
  "get_types_count c = length (c_id_to_type c)"

definition get_callstacks_count :: "client \<Rightarrow> nat" where
  "get_callstacks_count c = length (c_id_to_callstacks c)"

definition get_allocation_type_and_stack :: "u64 \<Rightarrow> client \<Rightarrow> (u64 \<times> u64) option" where
  "get_allocation_type_and_stack address c =
     (case c_db c of None \<Rightarrow> None | Some db \<Rightarrow> select_allocation_type_and_stack address db)"

definition get_frame_boundaries :: "client \<Rightarrow> u64 \<times> u64" where
  "get_frame_boundaries c = (c_min_frame c, c_max_frame c)"

text \<open>The statistics: three parallel lists, one entry per frame, and three maxima.\<close>

record frame_stats =
  fs_allocs :: "u64 list"
  fs_frees :: "u64 list"
  fs_sizes :: "u64 list"
  fs_max_allocs :: u64
  fs_max_frees :: u64
  fs_max_size :: u64

definition push_stats :: "u64 \<Rightarrow> u64 \<Rightarrow> u64 \<Rightarrow> frame_stats \<Rightarrow> frame_stats" where
  "push_stats a f z s = s\<lparr>fs_allocs := fs_allocs s @ [a], fs_frees := fs_frees s @ [f], fs_sizes := fs_sizes s @ [z]\<rparr>"

text \<open>The gap-filling loops push zero counts and repeat a size \<open>n\<close> times.\<close>

fun push_gap :: "nat \<Rightarrow> u64 \<Rightarrow> frame_stats \<Rightarrow> frame_stats" where
  "push_gap 0 z s = s"
| "push_gap (Suc n) z s = push_gap n z (push_stats 0 0 z s)"

text \<open>The number of passes of \<^verbatim>\<open>for (f = a; f < b; ++f)\<close>.\<close>

definition span_u64 :: "u64 \<Rightarrow> u64 \<Rightarrow> nat" where
  "span_u64 a b = unat b - unat a"

definition stats_step :: "u64 \<Rightarrow> u64 \<Rightarrow> stats_row \<Rightarrow> u64 \<times> bool \<times> frame_stats \<Rightarrow> u64 \<times> bool \<times> frame_stats" where
  "stats_step from last_known row st =
     (let (prev, first, s) = st;
          frame = sr_frame row;
          s1 = s\<lparr>fs_max_allocs := (if sr_allocs row > fs_max_allocs s then sr_allocs row else fs_max_allocs s),
                 fs_max_frees := (if sr_frees row > fs_max_frees s then sr_frees row else fs_max_frees s),
                 fs_max_size := (if sint (sr_size row) > sint (fs_max_size s) then sr_size row else fs_max_size s)\<rparr>;
          s2 = (if first \<and> frame > prev then push_gap (span_u64 from frame) last_known s1
                else if frame > prev + 1 then push_gap (span_u64 (prev + 1) frame) (last (fs_sizes s1)) s1
                else s1)
      in (frame, False, push_stats (sr_allocs row) (sr_frees row) (sr_size row) s2))"

definition get_stats :: "u64 \<Rightarrow> u64 \<Rightarrow> client \<Rightarrow> frame_stats" where
  "get_stats from to c =
     (let empty = \<lparr>fs_allocs = [], fs_frees = [], fs_sizes = [], fs_max_allocs = 0, fs_max_frees = 0,
                   fs_max_size = 0\<rparr>
      in case c_db c of
           None \<Rightarrow> empty
         | Some db \<Rightarrow>
             let last_known = (case select_last_good_size from db of Some z \<Rightarrow> z | None \<Rightarrow> 0);
                 (prev, first, s) = fold (stats_step from last_known) (select_stats from to db) (from, True, empty)
             in if prev < to \<and> fs_sizes s \<noteq> []
                then push_gap (span_u64 (prev + 1) (min to (c_max_frame c) + 1)) (last (fs_sizes s)) s
                else s)"

record live_object =
  lo_addr :: u64
  lo_size :: u64
  lo_frame :: u64
  lo_type_id :: u64
  lo_callstack_id :: u64

definition live_step :: "event_row \<Rightarrow> (u64, live_object) umap \<Rightarrow> (u64, live_object) umap" where
  "live_step r m =
     (let addr = col_uint64 (er_address r)
      in if er_event_type r = 1
         then um_insert addr \<lparr>lo_addr = addr, lo_size = col_uint64 (er_size r), lo_frame = col_uint64 (er_frame r),
                lo_type_id = col_uint64 (er_type_id r), lo_callstack_id = col_uint64 (er_callstack_id r)\<rparr> m
         else um_erase addr m)"

text \<open>The progress function is asked after every row; when it says no, the result stays empty.\<close>

fun live_loop :: "(nat \<Rightarrow> bool) \<Rightarrow> nat \<Rightarrow> event_row list \<Rightarrow> (u64, live_object) umap \<Rightarrow>
    (u64, live_object) umap option" where
  "live_loop progress n [] m = Some m"
| "live_loop progress n (r # rs) m =
     (if progress n then live_loop progress (Suc n) rs (live_step r m) else None)"

text \<open>The bounds are \<^verbatim>\<open>int\<close>s, converted to the unsigned parameters of the query.\<close>

definition get_live_objects :: "(nat \<Rightarrow> bool) \<Rightarrow> u32 \<Rightarrow> u32 \<Rightarrow> client \<Rightarrow> live_object list" where
  "get_live_objects progress from to c =
     (case c_db c of
        None \<Rightarrow> []
      | Some db \<Rightarrow>
          (case live_loop progress 0 (select_events (scast from) (scast to) db) [] of
             None \<Rightarrow> []
           | Some m \<Rightarrow> map snd m))"

end
