(* ===== verification/Client_Events.thy ===== *)
theory Client_Events
  imports Client
begin

text \<open>
  What the client does with a stream of events: every event is kept, in order, either as a row
  of the database or in the list of the current frame; rows carry ids that the caches resolve
  to the names that were received; the statistics of every completed frame are exact.
\<close>

section \<open>The caches of names\<close>

definition ids_wf :: "(bytes, u64) umap \<Rightarrow> (u64, bytes) umap \<Rightarrow> u64 \<Rightarrow> bool" where
  "ids_wf a b n \<longleftrightarrow> (\<forall>t i. um_find a t = Some i \<longleftrightarrow> um_find b i = Some t) \<and>
     unat n = length b \<and> (\<forall>i \<in> um_keys b. unat i < length b)"

lemma ids_wf_new:
  assumes "ids_wf a b n" "um_find a t = None" "length b < 2 ^ 63"
  shows "ids_wf (um_insert t n a) (um_insert n t b) (n + 1)" "um_find b n = None"
    and "um_find (um_insert n t b) n = Some t" "length (um_insert n t b) = Suc (length b)"
proof -
  have n: "unat n = length b" and keys: "\<And>i. i \<in> um_keys b \<Longrightarrow> unat i < length b"
    and iff: "\<And>t i. um_find a t = Some i \<longleftrightarrow> um_find b i = Some t"
    using assms(1) by (auto simp: ids_wf_def)
  show free: "um_find b n = None" using keys n um_find_None_iff by fastforce
  then show "um_find (um_insert n t b) n = Some t" by (simp add: um_find_insert)
  show len: "length (um_insert n t b) = Suc (length b)" using free by (simp add: um_insert_def)
  have "unat (n + 1) = Suc (length b)" using n assms(3) unat_plus_small [of n 1] by simp
  moreover have "um_find (um_insert t n a) t' = Some i \<longleftrightarrow> um_find (um_insert n t b) i = Some t'" for t' i
    using iff [of t' i] iff [of t i] iff [of t' n] assms(2) free by (auto simp: um_find_insert)
  moreover have "unat i < length (um_insert n t b)" if "i \<in> um_keys (um_insert n t b)" for i
    using that keys [of i] n len unfolding um_keys_insert by (metis insert_iff less_SucI lessI)
  ultimately show "ids_wf (um_insert t n a) (um_insert n t b) (n + 1)" using len by (simp add: ids_wf_def)
qed

section \<open>Rows and events\<close>

text \<open>The event a row stands for, with its names looked up in the caches.\<close>

definition row_event :: "client \<Rightarrow> event_row \<Rightarrow> profiler_event" where
  "row_event c r =
     (if er_event_type r = 1 then
        \<lparr>pe_type = Ev_alloc, pe_frame = col_uint64 (er_frame r), pe_addr = col_uint64 (er_address r),
         pe_size = ucast (col_uint64 (er_size r)),
         pe_obj_type = (case um_find (c_id_to_type c) (col_uint64 (er_type_id r)) of Some t \<Rightarrow> t | None \<Rightarrow> []),
         pe_callstack = (case um_find (c_id_to_callstacks c) (col_uint64 (er_callstack_id r)) of
           Some t \<Rightarrow> t | None \<Rightarrow> [])\<rparr>
      else
        \<lparr>pe_type = Ev_free, pe_frame = col_uint64 (er_frame r), pe_addr = col_uint64 (er_address r),
         pe_size = ucast (col_uint64 (er_size r)), pe_obj_type = [], pe_callstack = []\<rparr>)"

definition rows :: "client \<Rightarrow> event_row list" where
  "rows c = (case c_db c of None \<Rightarrow> [] | Some db \<Rightarrow> t_events db)"

definition saved :: "client \<Rightarrow> profiler_event list" where
  "saved c = map (row_event c) (rows c)"

definition event_ok :: "profiler_event \<Rightarrow> bool" where
  "event_ok e \<longleftrightarrow> (pe_type e = Ev_free \<longrightarrow> pe_obj_type e = [] \<and> pe_callstack e = [])"

definition rows_ok :: "client \<Rightarrow> bool" where
  "rows_ok c \<longleftrightarrow> (\<forall>r \<in> set (rows c). er_event_type r = 1 \<longrightarrow>
     um_find (c_id_to_type c) (col_uint64 (er_type_id r)) \<noteq> None \<and>
     um_find (c_id_to_callstacks c) (col_uint64 (er_callstack_id r)) \<noteq> None)"

definition store_ok :: "nat \<Rightarrow> client \<Rightarrow> bool" where
  "store_ok k c \<longleftrightarrow> (\<exists>db. c_db c = Some db \<and> t_created db) \<and>
     ids_wf (c_type_to_id c) (c_id_to_type c) (c_next_type_id c) \<and>
     ids_wf (c_callstacks_to_id c) (c_id_to_callstacks c) (c_next_callstack_id c) \<and>
     rows_ok c \<and> length (c_id_to_type c) + k < 2 ^ 63 \<and> length (c_id_to_callstacks c) + k < 2 ^ 63"

text \<open>Everything a save leaves alone.\<close>

definition same_frame_state :: "client \<Rightarrow> client \<Rightarrow> bool" where
  "same_frame_state c c' \<longleftrightarrow> c_frame_events c' = c_frame_events c \<and> c_prev_frame c' = c_prev_frame c \<and>
     c_frame_allocs c' = c_frame_allocs c \<and> c_frame_frees c' = c_frame_frees c \<and>
     c_size_running_total c' = c_size_running_total c \<and> c_commands c' = c_commands c \<and>
     map_option t_stats (c_db c') = map_option t_stats (c_db c) \<and> c_network c' = c_network c \<and>
     c_callbacks c' = c_callbacks c"

lemma same_frame_refl: "same_frame_state c c"
  by (simp add: same_frame_state_def)

lemma same_frame_trans: "same_frame_state a b \<Longrightarrow> same_frame_state b c \<Longrightarrow> same_frame_state a c"
  by (simp add: same_frame_state_def)

text \<open>Names once given stay.\<close>

definition names_extend :: "client \<Rightarrow> client \<Rightarrow> bool" where
  "names_extend c c' \<longleftrightarrow>
     (\<forall>i t. um_find (c_id_to_type c) i = Some t \<longrightarrow> um_find (c_id_to_type c') i = Some t) \<and>
     (\<forall>i t. um_find (c_id_to_callstacks c) i = Some t \<longrightarrow> um_find (c_id_to_callstacks c') i = Some t)"

lemma row_event_extend:
  assumes "names_extend c c'" "er_event_type r = 1 \<longrightarrow>
     um_find (c_id_to_type c) (col_uint64 (er_type_id r)) \<noteq> None \<and>
     um_find (c_id_to_callstacks c) (col_uint64 (er_callstack_id r)) \<noteq> None"
  shows "row_event c' r = row_event c r"
  using assms by (auto simp: row_event_def names_extend_def)

lemma saved_extend:
  assumes "names_extend c c'" "rows_ok c" "rows c' = rows c"
  shows "saved c' = saved c" "rows_ok c'"
proof -
  show "saved c' = saved c"
    using assms row_event_extend by (auto simp: saved_def rows_ok_def)
  show "rows_ok c'" using assms by (fastforce simp: rows_ok_def names_extend_def)
qed

lemma type_id_step:
  assumes "store_ok (Suc k) c" "get_or_create_type_id t c = (i, c')"
  shows "ids_wf (c_type_to_id c') (c_id_to_type c') (c_next_type_id c') \<and>
    um_find (c_id_to_type c') i = Some t \<and> names_extend c c' \<and> rows c' = rows c \<and>
    same_frame_state c c' \<and> (\<exists>db. c_db c' = Some db \<and> t_created db) \<and>
    length (c_id_to_type c') + k < 2 ^ 63 \<and>
    c_callstacks_to_id c' = c_callstacks_to_id c \<and> c_id_to_callstacks c' = c_id_to_callstacks c \<and>
    c_next_callstack_id c' = c_next_callstack_id c"
proof (cases "um_find (c_type_to_id c) t")
  case (Some j)
  then show ?thesis using assms
    by (auto simp: get_or_create_type_id_def store_ok_def ids_wf_def names_extend_def same_frame_state_def)
next
  case None
  have wf: "ids_wf (c_type_to_id c) (c_id_to_type c) (c_next_type_id c)" "length (c_id_to_type c) < 2 ^ 63"
    using assms(1) by (simp_all add: store_ok_def)
  note new = ids_wf_new [OF wf(1) None wf(2)]
  have "um_find (um_insert (c_next_type_id c) t (c_id_to_type c)) j = Some u"
    if "um_find (c_id_to_type c) j = Some u" for j u using um.lookup_ins_stable [OF that] .
  with None new assms show ?thesis
    by (auto simp: get_or_create_type_id_def on_db_def insert_type_def store_ok_def names_extend_def
        rows_def same_frame_state_def Let_def)
qed

lemma callstack_id_step:
  assumes "ids_wf (c_callstacks_to_id c) (c_id_to_callstacks c) (c_next_callstack_id c)"
    and "length (c_id_to_callstacks c) + Suc k < 2 ^ 63" "\<exists>db. c_db c = Some db \<and> t_created db"
    and "get_or_create_callstack_id t c = (i, c')"
  shows "ids_wf (c_callstacks_to_id c') (c_id_to_callstacks c') (c_next_callstack_id c') \<and>
    um_find (c_id_to_callstacks c') i = Some t \<and> names_extend c c' \<and> rows c' = rows c \<and>
    same_frame_state c c' \<and> (\<exists>db. c_db c' = Some db \<and> t_created db) \<and>
    length (c_id_to_callstacks c') + k < 2 ^ 63 \<and>
    c_type_to_id c' = c_type_to_id c \<and> c_id_to_type c' = c_id_to_type c \<and> c_next_type_id c' = c_next_type_id c"
proof (cases "um_find (c_callstacks_to_id c) t")
  case (Some j)
  then show ?thesis using assms
    by (auto simp: get_or_create_callstack_id_def ids_wf_def names_extend_def same_frame_state_def)
next
  case None
  have len: "length (c_id_to_callstacks c) < 2 ^ 63" using assms(2) by simp
  note new = ids_wf_new [OF assms(1) None len]
  have "um_find (um_insert (c_next_callstack_id c) t (c_id_to_callstacks c)) j = Some u"
    if "um_find (c_id_to_callstacks c) j = Some u" for j u using um.lookup_ins_stable [OF that] .
  with None new assms show ?thesis
    by (auto simp: get_or_create_callstack_id_def on_db_def insert_callstack_def names_extend_def
        rows_def same_frame_state_def Let_def)
qed

section \<open>Saving a frame\<close>

lemma ucast_scast_back: "ucast (scast (n :: u32) :: u64) = n" "ucast (ucast (n :: u32) :: u64) = n"
proof -
  show "ucast (scast n :: u64) = n"
  proof (rule bit_word_eqI)
    fix k
    assume "k < LENGTH(32)"
    then have "min 31 k = k" by simp
    with \<open>k < LENGTH(32)\<close> show "bit (ucast (scast n :: u64) :: u32) k = bit n k"
      by (simp add: bit_unsigned_iff bit_signed_iff)
  qed
  show "ucast (ucast n :: u64) = n"
    by (rule bit_word_eqI) (auto simp: bit_unsigned_iff)
qed

lemma names_extend_trans: "names_extend a b \<Longrightarrow> names_extend b c \<Longrightarrow> names_extend a c"
  by (simp add: names_extend_def)

lemma save_alloc:
  assumes ok: "store_ok (Suc k) c" and alloc: "pe_type e = Ev_alloc"
  shows "store_ok k (save_event e c) \<and> saved (save_event e c) = saved c @ [e] \<and>
    same_frame_state c (save_event e c)"
proof -
  obtain i c1 where t: "get_or_create_type_id (pe_obj_type e) c = (i, c1)" by force
  obtain j c2 where s: "get_or_create_callstack_id (pe_callstack e) c1 = (j, c2)" by force
  note T = type_id_step [OF ok t]
  have "ids_wf (c_callstacks_to_id c1) (c_id_to_callstacks c1) (c_next_callstack_id c1)"
    "length (c_id_to_callstacks c1) + Suc k < 2 ^ 63" "\<exists>db. c_db c1 = Some db \<and> t_created db"
    using T ok by (simp_all add: store_ok_def)
  note S = callstack_id_step [OF this s]
  obtain db where db: "c_db c2 = Some db" "t_created db" using S by blast
  define row where "row = \<lparr>er_event_type = 1, er_type_id = col_of (V_ui64 i), er_address = col_of (V_ui64 (pe_addr e)),
     er_size = col_of (V_ui64 (ucast (pe_size e))), er_frame = col_of (V_ui64 (pe_frame e)),
     er_callstack_id = col_of (V_ui64 j)\<rparr>"
  define c3 where "c3 = c2\<lparr>c_db := Some (db\<lparr>t_events := t_events db @ [row]\<rparr>)\<rparr>"
  have se: "save_event e c = c3"
    using alloc t s db by (simp add: save_event_def on_db_def insert_alloc_event_def c3_def row_def)
  have c3: "c_id_to_type c3 = c_id_to_type c2" "c_id_to_callstacks c3 = c_id_to_callstacks c2"
    "rows c3 = rows c2 @ [row]" by (simp_all add: c3_def rows_def db)
  have ext: "names_extend c c2" using T S names_extend_trans by blast
  have "saved c2 = saved c" "rows_ok c2"
    using saved_extend [OF ext] T S ok by (simp_all add: store_ok_def)
  have names: "um_find (c_id_to_type c2) i = Some (pe_obj_type e)"
    "um_find (c_id_to_callstacks c2) j = Some (pe_callstack e)" using T S by auto
  have "row_event c3 = row_event c2" by (simp add: fun_eq_iff row_event_def c3(1,2))
  moreover have "row_event c2 row = e"
    using names alloc by (cases e) (simp add: row_event_def row_def ucast_scast_back)
  ultimately have "saved c3 = saved c @ [e]"
    using \<open>saved c2 = saved c\<close> by (simp add: saved_def c3(3))
  moreover have "rows_ok c3"
    using \<open>rows_ok c2\<close> names by (auto simp: rows_ok_def c3 row_def)
  moreover have "store_ok k c3"
    using T S \<open>rows_ok c3\<close> ok db by (simp add: store_ok_def c3_def)
  moreover have "same_frame_state c c3"
    using T S db by (auto simp: same_frame_state_def c3_def)
  ultimately show ?thesis using se by simp
qed

lemma save_free:
  assumes ok: "store_ok (Suc k) c" and free: "pe_type e = Ev_free" "event_ok e"
  shows "store_ok k (save_event e c) \<and> saved (save_event e c) = saved c @ [e] \<and>
    same_frame_state c (save_event e c)"
proof -
  obtain db where db: "c_db c = Some db" "t_created db" using ok by (auto simp: store_ok_def)
  define row where "row = \<lparr>er_event_type = 2, er_type_id = SQL_NULL, er_address = col_of (V_ui64 (pe_addr e)),
     er_size = col_of (V_ui32 (pe_size e)), er_frame = col_of (V_ui64 (pe_frame e)), er_callstack_id = SQL_NULL\<rparr>"
  define c3 where "c3 = c\<lparr>c_db := Some (db\<lparr>t_events := t_events db @ [row]\<rparr>)\<rparr>"
  have se: "save_event e c = c3"
    using free db by (simp add: save_event_def on_db_def insert_free_event_def c3_def row_def)
  have c3: "rows c3 = rows c @ [row]" by (simp add: c3_def rows_def db)
  have "row_event c3 = row_event c" by (simp add: fun_eq_iff row_event_def c3_def)
  moreover have "row_event c row = e"
    using free by (cases e) (simp add: row_event_def row_def ucast_scast_back event_ok_def)
  ultimately have "saved c3 = saved c @ [e]" by (simp add: saved_def c3)
  moreover have "rows_ok c3" using ok by (auto simp: store_ok_def rows_ok_def c3 row_def c3_def [symmetric])
      (simp_all add: c3_def)
  moreover have "store_ok k c3" using ok \<open>rows_ok c3\<close> db by (simp add: store_ok_def c3_def)
  ultimately show ?thesis using se db by (simp add: same_frame_state_def c3_def)
qed

lemma save_event_step:
  assumes "store_ok (Suc k) c" "event_ok e"
  shows "store_ok k (save_event e c)" "saved (save_event e c) = saved c @ [e]"
    "same_frame_state c (save_event e c)"
  using save_alloc [OF assms(1)] save_free [OF assms(1) _ assms(2)] by (cases "pe_type e"; blast)+

lemma save_events_fold:
  assumes "store_ok (length es + k) c" "\<forall>e \<in> set es. event_ok e"
  shows "store_ok k (fold save_event es c) \<and> saved (fold save_event es c) = saved c @ es \<and>
    same_frame_state c (fold save_event es c)"
  using assms
proof (induction es arbitrary: c)
  case Nil
  then show ?case by (simp add: same_frame_refl)
next
  case (Cons e es)
  have "store_ok (Suc (length es + k)) c" "event_ok e" using Cons.prems by simp_all
  note one = save_event_step [OF this]
  from Cons.IH [OF one(1)] Cons.prems(2) one(2,3) same_frame_trans show ?case by fastforce
qed

text \<open>The statistics rows as a map.\<close>

definition stats_map :: "client \<Rightarrow> u64 \<Rightarrow> (u64 \<times> u64 \<times> u64) option" where
  "stats_map c f = (case c_db c of None \<Rightarrow> None
     | Some db \<Rightarrow> map_of (map (\<lambda>r. (sr_frame r, sr_allocs r, sr_frees r, sr_size r)) (t_stats db)) f)"

lemma map_of_replace:
  "map_of (map h (filter (\<lambda>r. sr_frame r \<noteq> f) rs @ [r'])) g =
     (if g = f then Some (snd (h r')) else map_of (map h rs) g)"
  if "\<And>r. fst (h r) = sr_frame r" "sr_frame r' = f"
proof -
  have "map_of (map h (filter (\<lambda>r. sr_frame r \<noteq> f) rs)) g = (if g = f then None else map_of (map h rs) g)"
    using that(1) by (induction rs) auto
  moreover have "map_of (map h [r']) g = (if g = f then Some (snd (h r')) else None)"
    using that(1) [of r'] that(2) by (cases "h r'") auto
  ultimately show ?thesis
    unfolding map_append map_of_append map_add_def
    by (cases "g = f") (simp_all del: map_of.simps list.map split: option.split)
qed

lemma save_frame_step:
  assumes "store_ok (length (c_frame_events c) + k) c" "\<forall>e \<in> set (c_frame_events c). event_ok e"
    and "c_prev_frame c \<noteq> no_frame"
  obtains c' where "save_frame_events c = Some c'" "store_ok k c'" "saved c' = saved c @ c_frame_events c"
    "c_frame_events c' = []" "c_prev_frame c' = c_prev_frame c" "c_frame_allocs c' = c_frame_allocs c"
    "c_frame_frees c' = c_frame_frees c" "c_size_running_total c' = c_size_running_total c"
    "stats_map c' = (stats_map c)(c_prev_frame c \<mapsto> (c_frame_allocs c, c_frame_frees c, c_size_running_total c))"
proof -
  let ?c1 = "fold save_event (c_frame_events c) c"
  have F: "store_ok k ?c1" "saved ?c1 = saved c @ c_frame_events c" "same_frame_state c ?c1"
    using save_events_fold [OF assms(1,2)] by blast+
  obtain db db1 where db: "c_db c = Some db" "c_db ?c1 = Some db1" "t_created db1" "t_stats db1 = t_stats db"
    using assms(1) F(1,3) by (auto simp: store_ok_def same_frame_state_def)
  define row where "row = \<lparr>sr_frame = c_prev_frame c, sr_allocs = c_frame_allocs c, sr_frees = c_frame_frees c,
    sr_size = c_size_running_total c\<rparr>"
  define c' where "c' = ?c1\<lparr>c_db := Some (db1\<lparr>t_stats := filter (\<lambda>r. sr_frame r \<noteq> c_prev_frame c) (t_stats db1) @ [row]\<rparr>),
      c_frame_events := []\<rparr>"
  have "save_frame_events c = Some c'"
    using assms(3) db F(3) by (simp add: save_frame_events_def Let_def on_db_def insert_frame_stats_def c'_def
        row_def same_frame_state_def)
  moreover have "rows c' = rows ?c1" "names_extend ?c1 c'" using db by (simp_all add: rows_def c'_def names_extend_def)
  moreover from this have "saved c' = saved ?c1" "rows_ok c'"
    using saved_extend F(1) by (auto simp: store_ok_def)
  moreover have "store_ok k c'" using F(1) \<open>rows_ok c'\<close> db by (simp add: store_ok_def c'_def)
  moreover have "stats_map c' = (stats_map c)(c_prev_frame c \<mapsto>
      (c_frame_allocs c, c_frame_frees c, c_size_running_total c))"
  proof
    fix g
    show "stats_map c' g = ((stats_map c)(c_prev_frame c \<mapsto>
        (c_frame_allocs c, c_frame_frees c, c_size_running_total c))) g"
      using map_of_replace [of "\<lambda>r. (sr_frame r, sr_allocs r, sr_frees r, sr_size r)" row "c_prev_frame c" "t_stats db" g]
      by (simp add: stats_map_def c'_def db row_def)
  qed
  ultimately show ?thesis using F(2,3) that by (simp add: c'_def same_frame_state_def)
qed

section \<open>The stream\<close>

definition n_allocs :: "u64 \<Rightarrow> profiler_event list \<Rightarrow> nat" where
  "n_allocs f es = length (filter (\<lambda>e. pe_type e = Ev_alloc \<and> pe_frame e = f) es)"

definition n_frees :: "u64 \<Rightarrow> profiler_event list \<Rightarrow> nat" where
  "n_frees f es = length (filter (\<lambda>e. pe_type e = Ev_free \<and> pe_frame e = f) es)"

definition net_size :: "profiler_event list \<Rightarrow> u64" where
  "net_size es = (\<Sum>e \<leftarrow> es. if pe_type e = Ev_alloc then ucast (pe_size e) else - ucast (pe_size e))"

text \<open>The statistics a frame should have: its counts, and the total after its last event.\<close>

definition expected_stats :: "profiler_event list \<Rightarrow> u64 \<Rightarrow> (u64 \<times> u64 \<times> u64) option" where
  "expected_stats es g =
     (if g \<in> pe_frame ` set es
      then Some (of_nat (n_allocs g es), of_nat (n_frees g es), net_size (filter (\<lambda>e. pe_frame e \<le> g) es))
      else None)"

definition at_frame :: "nat \<Rightarrow> u64 \<Rightarrow> profiler_event list \<Rightarrow> client \<Rightarrow> bool" where
  "at_frame k f es c \<longleftrightarrow>
     store_ok (length (c_frame_events c) + k) c \<and> f \<noteq> no_frame \<and>
     (\<forall>e \<in> set es. event_ok e \<and> pe_frame e \<le> f) \<and>
     saved c @ c_frame_events c = es \<and> c_prev_frame c = f \<and>
     (\<forall>e \<in> set (c_frame_events c). pe_frame e = f) \<and>
     c_frame_allocs c = of_nat (n_allocs f es) \<and> c_frame_frees c = of_nat (n_frees f es) \<and>
     c_size_running_total c = net_size es \<and>
     (\<forall>g. g \<noteq> f \<longrightarrow> stats_map c g = expected_stats es g) \<and>
     (length (filter (\<lambda>e. pe_frame e = f) es) \<le> 10000 \<longrightarrow>
        c_frame_events c = filter (\<lambda>e. pe_frame e = f) es)"

lemma at_frameI:
  assumes "store_ok (length (c_frame_events c) + k) c" "f \<noteq> no_frame"
    "\<And>e. e \<in> set es \<Longrightarrow> event_ok e \<and> pe_frame e \<le> f"
    "saved c @ c_frame_events c = es" "c_prev_frame c = f"
    "\<And>e. e \<in> set (c_frame_events c) \<Longrightarrow> pe_frame e = f"
    "c_frame_allocs c = of_nat (n_allocs f es)" "c_frame_frees c = of_nat (n_frees f es)"
    "c_size_running_total c = net_size es" "\<And>g. g \<noteq> f \<Longrightarrow> stats_map c g = expected_stats es g"
    "length (filter (\<lambda>e. pe_frame e = f) es) \<le> 10000 \<Longrightarrow> c_frame_events c = filter (\<lambda>e. pe_frame e = f) es"
  shows "at_frame k f es c"
  unfolding at_frame_def using assms by blast

definition ready :: "nat \<Rightarrow> client \<Rightarrow> bool" where
  "ready k c \<longleftrightarrow> store_ok k c \<and> c_frame_events c = [] \<and> saved c = [] \<and> c_prev_frame c = no_frame \<and>
     c_size_running_total c = 0 \<and> stats_map c = Map.empty"

lemma store_ok_cong:
  assumes "c_db c' = c_db c" "c_type_to_id c' = c_type_to_id c" "c_id_to_type c' = c_id_to_type c"
    "c_next_type_id c' = c_next_type_id c" "c_callstacks_to_id c' = c_callstacks_to_id c"
    "c_id_to_callstacks c' = c_id_to_callstacks c" "c_next_callstack_id c' = c_next_callstack_id c"
  shows "store_ok k c' = store_ok k c" "saved c' = saved c" "stats_map c' = stats_map c"
proof -
  have r: "rows c' = rows c" "row_event c' = row_event c"
    using assms by (simp_all add: rows_def row_event_def fun_eq_iff)
  then show "saved c' = saved c" by (simp add: saved_def)
  show "store_ok k c' = store_ok k c" using assms r by (simp add: store_ok_def rows_ok_def)
  show "stats_map c' = stats_map c" using assms by (simp add: stats_map_def fun_eq_iff)
qed

lemma store_ok_mono: "store_ok n c \<Longrightarrow> m \<le> n \<Longrightarrow> store_ok m c"
  by (auto simp: store_ok_def)

lemma filter_none: "(\<And>e. e \<in> set es \<Longrightarrow> pe_frame e < f) \<Longrightarrow> filter (\<lambda>e. pe_frame e = f) es = []"
  by (auto simp: filter_empty_conv)

lemma counts_later:
  assumes "\<And>e. e \<in> set es \<Longrightarrow> pe_frame e < f"
  shows "n_allocs f es = 0" "n_frees f es = 0"
  using assms by (auto simp: n_allocs_def n_frees_def filter_empty_conv)

text \<open>The part of \<^verbatim>\<open>try_save_events\<close> that notes the smallest and largest frame.\<close>

lemma try_save_new:
  assumes "f \<noteq> c_prev_frame c"
  obtains c2 where "try_save_events f c =
      map_option (\<lambda>c3. c3\<lparr>c_prev_frame := f, c_frame_allocs := 0, c_frame_frees := 0\<rparr>) (save_frame_events c2)"
    "c_frame_events c2 = c_frame_events c" "c_prev_frame c2 = c_prev_frame c"
    "c_frame_allocs c2 = c_frame_allocs c" "c_frame_frees c2 = c_frame_frees c"
    "c_size_running_total c2 = c_size_running_total c" "\<And>k. store_ok k c2 = store_ok k c"
    "saved c2 = saved c" "stats_map c2 = stats_map c"
proof -
  define c0 where "c0 = (if \<not> c_has_min_frame c then c\<lparr>c_min_frame := f, c_has_min_frame := True\<rparr> else c)"
  define c2 where "c2 = (if f > c_max_frame c0 then c0\<lparr>c_max_frame := f\<rparr> else c0)"
  have db: "c_db c2 = c_db c" "c_type_to_id c2 = c_type_to_id c" "c_id_to_type c2 = c_id_to_type c"
    "c_next_type_id c2 = c_next_type_id c" "c_callstacks_to_id c2 = c_callstacks_to_id c"
    "c_id_to_callstacks c2 = c_id_to_callstacks c" "c_next_callstack_id c2 = c_next_callstack_id c"
    by (simp_all add: c2_def c0_def)
  show ?thesis
  proof (rule that [of c2])
    show "try_save_events f c = map_option (\<lambda>c3. c3\<lparr>c_prev_frame := f, c_frame_allocs := 0, c_frame_frees := 0\<rparr>)
        (save_frame_events c2)"
      using assms by (simp add: try_save_events_def c2_def c0_def Let_def)
  qed (use store_ok_cong [OF db] in \<open>simp_all add: c2_def c0_def\<close>)
qed

lemma frame_reset:
  fixes c :: client and f :: u64
  defines "c1 \<equiv> c\<lparr>c_prev_frame := f, c_frame_allocs := 0, c_frame_frees := 0\<rparr>"
  shows "store_ok k c1 = store_ok k c" "saved c1 = saved c" "stats_map c1 = stats_map c"
    "c_frame_events c1 = c_frame_events c" "c_prev_frame c1 = f" "c_frame_allocs c1 = 0" "c_frame_frees c1 = 0"
    "c_size_running_total c1 = c_size_running_total c"
  using store_ok_cong [of c1 c] by (simp_all add: c1_def)

lemma advance_first:
  assumes "ready k c" "f \<noteq> no_frame"
  shows "\<exists>c1. try_save_events f c = Some c1 \<and> at_frame k f [] c1"
proof -
  have r: "store_ok k c" "c_frame_events c = []" "saved c = []" "c_prev_frame c = no_frame"
    "c_size_running_total c = 0" "stats_map c = Map.empty" using assms(1) by (simp_all add: ready_def)
  have "f \<noteq> c_prev_frame c" using assms(2) r(4) by simp
  then obtain c2 where c2: "try_save_events f c =
      map_option (\<lambda>c3. c3\<lparr>c_prev_frame := f, c_frame_allocs := 0, c_frame_frees := 0\<rparr>) (save_frame_events c2)"
    "c_frame_events c2 = []" "c_prev_frame c2 = no_frame" "c_size_running_total c2 = 0" "store_ok k c2"
    "saved c2 = []" "stats_map c2 = Map.empty" by (rule try_save_new) (simp add: r)
  have "save_frame_events c2 = Some c2" using c2(2,3) by (simp add: save_frame_events_def)
  with c2 assms(2) show ?thesis
    by (simp add: at_frame_def frame_reset n_allocs_def n_frees_def net_size_def expected_stats_def)
qed

lemma advance_new:
  assumes inv: "at_frame k f es c" "f \<in> pe_frame ` set es" and f': "f < f'" "f' \<noteq> no_frame"
  shows "\<exists>c1. try_save_events f' c = Some c1 \<and> at_frame k f' es c1"
proof -
  have i: "store_ok (length (c_frame_events c) + k) c" "f \<noteq> no_frame"
    "\<And>e. e \<in> set es \<Longrightarrow> event_ok e \<and> pe_frame e \<le> f" "saved c @ c_frame_events c = es" "c_prev_frame c = f"
    "c_frame_allocs c = of_nat (n_allocs f es)" "c_frame_frees c = of_nat (n_frees f es)"
    "c_size_running_total c = net_size es" "\<And>g. g \<noteq> f \<Longrightarrow> stats_map c g = expected_stats es g"
    using inv(1) unfolding at_frame_def by blast+
  have "f' \<noteq> c_prev_frame c" using f'(1) i(5) by auto
  then obtain c2 where c2: "try_save_events f' c =
      map_option (\<lambda>c3. c3\<lparr>c_prev_frame := f', c_frame_allocs := 0, c_frame_frees := 0\<rparr>) (save_frame_events c2)"
    "c_frame_events c2 = c_frame_events c" "c_prev_frame c2 = f"
    "c_frame_allocs c2 = of_nat (n_allocs f es)" "c_frame_frees c2 = of_nat (n_frees f es)"
    "c_size_running_total c2 = net_size es" "\<And>k. store_ok k c2 = store_ok k c"
    "saved c2 = saved c" "stats_map c2 = stats_map c"
    by (rule try_save_new) (simp add: i)
  have ok: "\<forall>e \<in> set (c_frame_events c2). event_ok e" using i(3,4) c2(2) by auto
  obtain c3 where c3: "save_frame_events c2 = Some c3" "store_ok k c3" "saved c3 = es"
    "c_frame_events c3 = []" "c_size_running_total c3 = net_size es"
    "stats_map c3 = (stats_map c)(f \<mapsto> (of_nat (n_allocs f es), of_nat (n_frees f es), net_size es))"
    by (rule save_frame_step [OF _ ok]) (use i c2 in simp_all)
  have less: "pe_frame e < f'" if "e \<in> set es" for e using i(3) [OF that] f'(1) by auto
  have stats: "stats_map c3 g = expected_stats es g" for g
  proof (cases "g = f")
    case True
    have "filter (\<lambda>e. pe_frame e \<le> f) es = es" using i(3) by simp
    then show ?thesis using True c3(6) inv(2) by (simp add: expected_stats_def)
  next
    case False
    then show ?thesis using i(9) c3(6) by simp
  qed
  have "event_ok e \<and> pe_frame e \<le> f'" if "e \<in> set es" for e using i(3) [OF that] less [OF that] by auto
  then have "at_frame k f' es (c3\<lparr>c_prev_frame := f', c_frame_allocs := 0, c_frame_frees := 0\<rparr>)"
    using c3 f'(2) stats counts_later [OF less] filter_none [OF less]
    by (simp add: at_frame_def frame_reset)
  with c2(1) c3(1) show ?thesis by simp
qed


definition add_event :: "profiler_event \<Rightarrow> client \<Rightarrow> client" where
  "add_event e c =
     (if pe_type e = Ev_alloc
      then add_alloc (pe_frame e) (pe_addr e) (pe_size e) (pe_obj_type e) (pe_callstack e) c
      else add_free (pe_frame e) (pe_addr e) (pe_size e) c)"

lemma add_event_effect:
  assumes "event_ok e"
  shows "c_frame_events (add_event e c) = c_frame_events c @ [e]"
    "c_frame_allocs (add_event e c) = c_frame_allocs c + of_bool (pe_type e = Ev_alloc)"
    "c_frame_frees (add_event e c) = c_frame_frees c + of_bool (pe_type e = Ev_free)"
    "c_size_running_total (add_event e c) = c_size_running_total c + net_size [e]"
    "c_prev_frame (add_event e c) = c_prev_frame c"
    "store_ok k (add_event e c) = store_ok k c" "saved (add_event e c) = saved c"
    "stats_map (add_event e c) = stats_map c"
proof -
  have f: "c_frame_events (add_event e c) = c_frame_events c @ [e]"
    using assms by (cases e, cases "pe_type e") (auto simp: add_event_def add_alloc_def add_free_def event_ok_def)
  show "c_frame_events (add_event e c) = c_frame_events c @ [e]" by (rule f)
  show "c_frame_allocs (add_event e c) = c_frame_allocs c + of_bool (pe_type e = Ev_alloc)"
    "c_frame_frees (add_event e c) = c_frame_frees c + of_bool (pe_type e = Ev_free)"
    "c_size_running_total (add_event e c) = c_size_running_total c + net_size [e]"
    "c_prev_frame (add_event e c) = c_prev_frame c"
    by (cases "pe_type e"; simp add: add_event_def add_alloc_def add_free_def net_size_def)+
  show "store_ok k (add_event e c) = store_ok k c" "saved (add_event e c) = saved c"
    "stats_map (add_event e c) = stats_map c"
    by (rule store_ok_cong; simp add: add_event_def add_alloc_def add_free_def)+
qed

lemma expected_stats_later:
  assumes "\<And>x. x \<in> set es \<Longrightarrow> pe_frame x \<le> pe_frame e" "g \<noteq> pe_frame e"
  shows "expected_stats (es @ [e]) g = expected_stats es g"
proof (cases "g \<in> pe_frame ` set es")
  case True
  then have "g < pe_frame e" using assms by force
  then show ?thesis using True by (auto simp: expected_stats_def n_allocs_def n_frees_def)
next
  case False
  then show ?thesis using assms(2) by (auto simp: expected_stats_def)
qed

lemma add_step:
  assumes inv: "at_frame (Suc k) f es c" and e: "pe_frame e = f" "event_ok e"
  shows "at_frame k f (es @ [e]) (add_event e c)"
proof -
  have i: "store_ok (length (c_frame_events c) + Suc k) c" "f \<noteq> no_frame"
    "\<forall>e \<in> set es. event_ok e \<and> pe_frame e \<le> f" "saved c @ c_frame_events c = es" "c_prev_frame c = f"
    "\<forall>e \<in> set (c_frame_events c). pe_frame e = f"
    "c_frame_allocs c = of_nat (n_allocs f es)" "c_frame_frees c = of_nat (n_frees f es)"
    "c_size_running_total c = net_size es" "\<forall>g. g \<noteq> f \<longrightarrow> stats_map c g = expected_stats es g"
    "length (filter (\<lambda>e. pe_frame e = f) es) \<le> 10000 \<longrightarrow> c_frame_events c = filter (\<lambda>e. pe_frame e = f) es"
    using inv unfolding at_frame_def by blast+
  note a = add_event_effect [OF e(2), where c = c]
  have n: "n_allocs f (es @ [e]) = n_allocs f es + of_bool (pe_type e = Ev_alloc)"
    "n_frees f (es @ [e]) = n_frees f es + of_bool (pe_type e = Ev_free)"
    "net_size (es @ [e]) = net_size es + net_size [e]"
    using e(1) by (simp_all add: n_allocs_def n_frees_def net_size_def)
  have fl: "filter (\<lambda>e. pe_frame e = f) (es @ [e]) = filter (\<lambda>e. pe_frame e = f) es @ [e]" using e(1) by simp
  show ?thesis
  proof (rule at_frameI)
    show "store_ok (length (c_frame_events (add_event e c)) + k) (add_event e c)" using i(1) by (simp add: a)
    show "saved (add_event e c) @ c_frame_events (add_event e c) = es @ [e]" unfolding a i(4) [symmetric] by simp
    show "stats_map (add_event e c) g = expected_stats (es @ [e]) g" if "g \<noteq> f" for g
      unfolding a using expected_stats_later [of es e g] i(3,10) e(1) that by simp
    show "c_frame_events (add_event e c) = filter (\<lambda>e. pe_frame e = f) (es @ [e])"
      if "length (filter (\<lambda>e. pe_frame e = f) (es @ [e])) \<le> 10000"
      using that i(11) unfolding a fl by simp
    show "event_ok x \<and> pe_frame x \<le> f" if "x \<in> set (es @ [e])" for x using that i(3) e by auto
    show "pe_frame x = f" if "x \<in> set (c_frame_events (add_event e c))" for x
      using that i(6) e(1) unfolding a by auto
  qed (unfold a n i(7-9), use i(2,5) in simp_all)
qed

lemma limit_step:
  assumes inv: "at_frame k f es c"
  shows "\<exists>c1. limit_events c = Some c1 \<and> at_frame k f es c1"
proof (cases "length (c_frame_events c) > 10000")
  case False
  then show ?thesis using inv by (simp add: limit_events_def)
next
  case True
  have i: "store_ok (length (c_frame_events c) + k) c" "f \<noteq> no_frame"
    "\<forall>e \<in> set es. event_ok e \<and> pe_frame e \<le> f" "saved c @ c_frame_events c = es" "c_prev_frame c = f"
    "\<forall>e \<in> set (c_frame_events c). pe_frame e = f"
    "c_frame_allocs c = of_nat (n_allocs f es)" "c_frame_frees c = of_nat (n_frees f es)"
    "c_size_running_total c = net_size es" "\<forall>g. g \<noteq> f \<longrightarrow> stats_map c g = expected_stats es g"
    using inv unfolding at_frame_def by blast+
  have ok: "\<forall>e \<in> set (c_frame_events c). event_ok e" using i(3,4) by auto
  have prev: "c_prev_frame c \<noteq> no_frame" using i(2,5) by simp
  obtain c1 where c1: "save_frame_events c = Some c1" "store_ok k c1" "saved c1 = saved c @ c_frame_events c"
    "c_frame_events c1 = []" "c_prev_frame c1 = c_prev_frame c" "c_frame_allocs c1 = c_frame_allocs c"
    "c_frame_frees c1 = c_frame_frees c" "c_size_running_total c1 = c_size_running_total c"
    "stats_map c1 = (stats_map c)(c_prev_frame c \<mapsto> (c_frame_allocs c, c_frame_frees c, c_size_running_total c))"
    by (rule save_frame_step [OF i(1) ok prev])
  have "length (filter (\<lambda>e. pe_frame e = f) (c_frame_events c)) = length (c_frame_events c)"
    using filter_True [of "c_frame_events c" "\<lambda>e. pe_frame e = f"] i(6) by simp
  moreover have "length (filter (\<lambda>e. pe_frame e = f) es) = length (filter (\<lambda>e. pe_frame e = f) (saved c)) +
      length (filter (\<lambda>e. pe_frame e = f) (c_frame_events c))" unfolding i(4) [symmetric] by simp
  ultimately have big: "\<not> length (filter (\<lambda>e. pe_frame e = f) es) \<le> 10000" using True by linarith
  have st: "stats_map c1 g = expected_stats es g" if "g \<noteq> f" for g
    using i(10) that by (simp add: c1(9) i(5))
  have "at_frame k f es c1"
  proof (rule at_frameI)
    show "saved c1 @ c_frame_events c1 = es" using c1(3,4) i(4) by simp
    show "c_frame_events c1 = filter (\<lambda>e. pe_frame e = f) es"
      if "length (filter (\<lambda>e. pe_frame e = f) es) \<le> 10000" using that big by blast
    show "event_ok e \<and> pe_frame e \<le> f" if "e \<in> set es" for e using that i(3) by blast
  qed (simp_all add: c1(2,4-8) i(2,5,7-9) st)
  then show ?thesis using True c1(1) by (auto simp: limit_events_def)
qed

section \<open>Messages\<close>

definition event_message :: "profiler_event \<Rightarrow> net_message" where
  "event_message e =
     (case pe_type e of
        Ev_alloc \<Rightarrow> message_of (srv_code SRV_ALLOC)
          (enc_alloc (pe_frame e) (pe_addr e) (pe_size e) (pe_obj_type e) (pe_callstack e))
      | Ev_free \<Rightarrow> message_of (srv_code SRV_FREE) (enc_free (pe_frame e) (pe_addr e) (pe_size e)))"

text \<open>An event as it arrives: names end at their first zero byte, frees have none.\<close>

definition arrived :: "profiler_event \<Rightarrow> profiler_event" where
  "arrived e = (if pe_type e = Ev_alloc
     then e\<lparr>pe_obj_type := c_str (pe_obj_type e), pe_callstack := c_str (pe_callstack e)\<rparr>
     else e\<lparr>pe_obj_type := [], pe_callstack := []\<rparr>)"

lemma arrived_simps [simp]:
  "pe_frame (arrived e) = pe_frame e" "pe_type (arrived e) = pe_type e" "event_ok (arrived e)"
  by (simp_all add: arrived_def event_ok_def)

lemma process_event_message:
  assumes "length (msg_data (event_message e)) < 2 ^ 63"
    and "c_prev_frame c = no_frame \<or> c_prev_frame c \<le> pe_frame e"
  shows "process_message junk (event_message e) c =
    (case try_save_events (pe_frame e) c of None \<Rightarrow> None | Some c1 \<Rightarrow> limit_events (add_event (arrived e) c1))"
proof (cases "pe_type e")
  case Ev_alloc
  let ?b = "enc_alloc (pe_frame e) (pe_addr e) (pe_size e) (pe_obj_type e) (pe_callstack e)"
  have "length ?b < 2 ^ 63" using assms(1) Ev_alloc by (simp add: event_message_def message_of_def)
  note d = dec_alloc_enc [OF this]
  have "frame_variable junk (new_reader ?b) = pe_frame e" using d(2) by (auto simp: frame_variable_def)
  moreover have "\<not> (pe_frame e < c_prev_frame c \<and> c_prev_frame c \<noteq> no_frame)" using assms(2) by auto
  moreover have "add_event (arrived e) = add_alloc (pe_frame e) (pe_addr e) (pe_size e)
      (c_str (pe_obj_type e)) (c_str (pe_callstack e))"
    using Ev_alloc by (simp add: fun_eq_iff add_event_def arrived_def)
  ultimately have "on_alloc junk (new_reader ?b) c =
      map_option (add_event (arrived e)) (try_save_events (pe_frame e) c)"
    using d(1) by (auto simp: on_alloc_def Let_def)
  then show ?thesis using Ev_alloc
    by (simp add: process_message_def event_message_def message_of_def Let_def split: option.splits)
next
  case Ev_free
  have "add_event (arrived e) = add_free (pe_frame e) (pe_addr e) (pe_size e)"
    using Ev_free by (simp add: fun_eq_iff add_event_def arrived_def)
  then have "on_free junk (ucast junk) (new_reader (enc_free (pe_frame e) (pe_addr e) (pe_size e))) c =
      map_option (add_event (arrived e)) (try_save_events (pe_frame e) c)"
    by (simp add: on_free_def dec_free_enc)
  then show ?thesis using Ev_free
    by (simp add: process_message_def event_message_def message_of_def Let_def split: option.splits)
qed

section \<open>A session\<close>

lemma message_step:
  assumes inv: "at_frame (Suc k) f es c" "f \<in> pe_frame ` set es"
    and e: "f \<le> pe_frame e" "pe_frame e \<noteq> no_frame" "length (msg_data (event_message e)) < 2 ^ 63"
  shows "\<exists>c'. process_message junk (event_message e) c = Some c' \<and> at_frame k (pe_frame e) (es @ [arrived e]) c'"
proof -
  have prev: "c_prev_frame c = f" using inv(1) by (simp add: at_frame_def)
  have "\<exists>c1. try_save_events (pe_frame e) c = Some c1 \<and> at_frame (Suc k) (pe_frame e) es c1"
  proof (cases "pe_frame e = f")
    case True
    then show ?thesis using inv(1) prev by (simp add: try_save_events_def)
  next
    case False
    then show ?thesis using advance_new [OF inv _ e(2)] e(1) by simp
  qed
  then obtain c1 where c1: "try_save_events (pe_frame e) c = Some c1" "at_frame (Suc k) (pe_frame e) es c1" by blast
  have "at_frame k (pe_frame e) (es @ [arrived e]) (add_event (arrived e) c1)"
    by (rule add_step [OF c1(2)]) simp_all
  then obtain c2 where "limit_events (add_event (arrived e) c1) = Some c2" "at_frame k (pe_frame e) (es @ [arrived e]) c2"
    using limit_step by blast
  with process_event_message [OF e(3), of c junk] c1(1) prev e(1) show ?thesis by auto
qed

lemma first_step:
  assumes "ready (Suc k) c" "pe_frame e \<noteq> no_frame" "length (msg_data (event_message e)) < 2 ^ 63"
  shows "\<exists>c'. process_message junk (event_message e) c = Some c' \<and> at_frame k (pe_frame e) [arrived e] c'"
proof -
  obtain c1 where c1: "try_save_events (pe_frame e) c = Some c1" "at_frame (Suc k) (pe_frame e) [] c1"
    using advance_first [OF assms(1,2)] by blast
  have "at_frame k (pe_frame e) ([] @ [arrived e]) (add_event (arrived e) c1)"
    by (rule add_step [OF c1(2)]) simp_all
  then obtain c2 where "limit_events (add_event (arrived e) c1) = Some c2" "at_frame k (pe_frame e) [arrived e] c2"
    using limit_step by fastforce
  with process_event_message [OF assms(3), of c junk] c1(1) assms(1) show ?thesis by (auto simp: ready_def)
qed

definition well_formed_stream :: "profiler_event list \<Rightarrow> bool" where
  "well_formed_stream es \<longleftrightarrow> sorted (map pe_frame es) \<and>
     (\<forall>e \<in> set es. pe_frame e \<noteq> no_frame \<and> length (msg_data (event_message e)) < 2 ^ 63)"

lemma stream_rest:
  assumes "at_frame (length es) f done_es c" "f \<in> pe_frame ` set done_es"
    and "well_formed_stream es" "\<forall>e \<in> set es. f \<le> pe_frame e"
  shows "\<exists>c'. process_all junk (map event_message es) c = Some c' \<and>
    at_frame 0 (pe_frame (last (done_es @ map arrived es))) (done_es @ map arrived es) c' \<or> es = []"
  using assms
proof (induction es arbitrary: f done_es c)
  case (Cons e es)
  have "at_frame (Suc (length es)) f done_es c" "f \<le> pe_frame e" "pe_frame e \<noteq> no_frame"
    "length (msg_data (event_message e)) < 2 ^ 63" using Cons.prems by (auto simp: well_formed_stream_def)
  from message_step [OF this(1) Cons.prems(2) this(2-4), of junk] obtain c1 where
    c1: "process_message junk (event_message e) c = Some c1"
      "at_frame (length es) (pe_frame e) (done_es @ [arrived e]) c1" by blast
  have "well_formed_stream es" "\<forall>x \<in> set es. pe_frame e \<le> pe_frame x"
    using Cons.prems(3) by (auto simp: well_formed_stream_def)
  from Cons.IH [OF c1(2) _ this] c1 show ?case by (cases "es = []") auto
qed simp

lemma stream_run:
  assumes "ready (length es) c" "well_formed_stream es" "es \<noteq> []"
  obtains c' where "process_all junk (map event_message es) c = Some c'"
    "at_frame 0 (pe_frame (last es)) (map arrived es) c'"
proof -
  obtain e rest where es: "es = e # rest" using assms(3) by (cases es) auto
  have "ready (Suc (length rest)) c" "pe_frame e \<noteq> no_frame" "length (msg_data (event_message e)) < 2 ^ 63"
    using assms by (auto simp: es well_formed_stream_def)
  from first_step [OF this, of junk] obtain c1 where
    c1: "process_message junk (event_message e) c = Some c1" "at_frame (length rest) (pe_frame e) [arrived e] c1"
    by blast
  have "well_formed_stream rest" "\<forall>x \<in> set rest. pe_frame e \<le> pe_frame x"
    using assms(2) by (auto simp: es well_formed_stream_def)
  from stream_rest [OF c1(2) _ this, of junk] c1 that show ?thesis
    by (cases "rest = []") (auto simp: es last_map)
qed

text \<open>A session that has just connected and opened a new database.\<close>

definition fresh_client :: client where
  "fresh_client = snd (client_start None (Some empty_database) new_client)"

lemma fresh_client_eq:
  "fresh_client = new_client\<lparr>
     c_network := (read_message_header_from_socket (new_network\<lparr>socket_open := True\<rparr>))\<lparr>io_thread := True\<rparr>,
     c_db := Some (empty_database\<lparr>t_created := True, t_migrations := Some [(create_basic_tables, 0)]\<rparr>),
     c_thread := True\<rparr>"
  by (simp add: fresh_client_def client_start_def net_connect_def upgrade_database_fresh Let_def new_client_def)

lemma fresh_ready: "k < 2 ^ 63 \<Longrightarrow> ready k fresh_client"
  unfolding fresh_client_eq
  by (simp add: new_client_def empty_database_def ready_def store_ok_def ids_wf_def rows_ok_def saved_def
      rows_def stats_map_def fun_eq_iff)

lemma filter_split: "xs @ filter P ys = ys \<Longrightarrow> xs = filter (\<lambda>x. \<not> P x) ys"
proof -
  assume e: "xs @ filter P ys = ys"
  have "length (filter P ys) = length (filter P xs) + length (filter P ys)"
    using arg_cong [OF e, of "\<lambda>l. length (filter P l)"] by simp
  then have "filter P xs = []" by simp
  then have "filter (\<lambda>x. \<not> P x) xs = xs" by (auto simp: filter_empty_conv filter_id_conv)
  moreover have "filter (\<lambda>x. \<not> P x) (xs @ filter P ys) = filter (\<lambda>x. \<not> P x) xs" by simp
  ultimately show ?thesis using e by metis
qed

text \<open>
  A session keeps every event it receives: for events in the order of their frames the
  client never stops, and the rows of the database with their ids resolved by the name caches,
  followed by the events of the current frame, are exactly the received events in order.
\<close>

theorem client_records_stream:
  assumes "well_formed_stream es" "es \<noteq> []" "length es < 2 ^ 63"
  shows "\<exists>c'. process_all junk (map event_message es) fresh_client = Some c' \<and>
    saved c' @ c_frame_events c' = map arrived es \<and>
    (\<forall>e \<in> set (c_frame_events c'). pe_frame e = pe_frame (last es))"
proof -
  obtain c' where "process_all junk (map event_message es) fresh_client = Some c'"
    "at_frame 0 (pe_frame (last es)) (map arrived es) c'"
    by (rule stream_run [OF fresh_ready [OF assms(3)] assms(1,2)])
  then show ?thesis unfolding at_frame_def by blast
qed

lemma arrived_stats [simp]:
  "expected_stats (map arrived es) g = expected_stats es g" "net_size (map arrived es) = net_size es"
proof -
  have sz: "pe_size (arrived e) = pe_size e" for e by (simp add: arrived_def)
  show n: "net_size (map arrived es) = net_size es" for es by (simp add: net_size_def comp_def sz cong: if_cong)
  have "n_allocs g (map arrived es) = n_allocs g es" "n_frees g (map arrived es) = n_frees g es"
    by (simp_all add: n_allocs_def n_frees_def filter_map comp_def)
  then show "expected_stats (map arrived es) g = expected_stats es g"
    by (simp add: expected_stats_def filter_map comp_def image_image n)
qed

text \<open>
  C13. The statistics in the database are exact for every frame but the current one: the numbers
  of allocations and frees of the frame, and the bytes allocated minus the bytes freed up to
  its end; frames without events have no row. The running total covers all events.
\<close>

theorem frame_statistics_exact:
  assumes "well_formed_stream es" "es \<noteq> []" "length es < 2 ^ 63"
  shows "\<exists>c'. process_all junk (map event_message es) fresh_client = Some c' \<and>
    c_size_running_total c' = net_size es \<and>
    (\<forall>g. g \<noteq> pe_frame (last es) \<longrightarrow> stats_map c' g = expected_stats es g)"
proof -
  obtain c' where "process_all junk (map event_message es) fresh_client = Some c'"
    "at_frame 0 (pe_frame (last es)) (map arrived es) c'"
    by (rule stream_run [OF fresh_ready [OF assms(3)] assms(1,2)])
  then show ?thesis unfolding at_frame_def arrived_stats by blast
qed

text \<open>
  C22. The events of the last frame are lost when a session ends: the final call of
  \<^verbatim>\<open>try_save_events\<close> passes the frame that is current anyway and saves nothing. What is in the
  database are the events of the other frames.
\<close>

theorem last_frame_not_saved:
  assumes "well_formed_stream es" "es \<noteq> []" "length es < 2 ^ 63"
    and "length (filter (\<lambda>e. pe_frame e = pe_frame (last es)) es) \<le> 10000"
  shows "\<exists>c'. (case process_all junk (map event_message es) fresh_client of
      None \<Rightarrow> None | Some c \<Rightarrow> process_end c) = Some c' \<and>
    saved c' = map arrived (filter (\<lambda>e. pe_frame e \<noteq> pe_frame (last es)) es)"
proof -
  let ?f = "pe_frame (last es)"
  obtain c where run: "process_all junk (map event_message es) fresh_client = Some c"
    and inv: "at_frame 0 ?f (map arrived es) c"
    by (rule stream_run [OF fresh_ready [OF assms(3)] assms(1,2)])
  have "length (filter (\<lambda>e. pe_frame e = ?f) (map arrived es)) \<le> 10000"
    using assms(4) by (simp add: filter_map comp_def)
  then have pend: "c_frame_events c = filter (\<lambda>e. pe_frame e = ?f) (map arrived es)"
    and all: "saved c @ c_frame_events c = map arrived es" and prev: "c_prev_frame c = ?f"
    using inv unfolding at_frame_def by blast+
  have "process_end c = Some c"
  proof (cases "c_frame_events c")
    case (Cons e ev)
    then have "pe_frame e = ?f" using inv by (simp add: at_frame_def)
    then show ?thesis using Cons prev by (simp add: process_end_def try_save_events_def)
  qed (simp add: process_end_def)
  moreover have "saved c = filter (\<lambda>e. pe_frame e \<noteq> ?f) (map arrived es)"
    using filter_split all unfolding pend by blast
  ultimately show ?thesis using run by (auto simp: filter_map comp_def)
qed

definition example_stream :: "profiler_event list" where
  "example_stream =
     [\<lparr>pe_type = Ev_alloc, pe_frame = 1, pe_addr = 64, pe_size = 24, pe_obj_type = [71], pe_callstack = [83]\<rparr>,
      \<lparr>pe_type = Ev_free, pe_frame = 2, pe_addr = 64, pe_size = 24, pe_obj_type = [], pe_callstack = []\<rparr>]"

lemma example_stream_wf: "well_formed_stream example_stream" "example_stream \<noteq> []" "length example_stream < 2 ^ 63"
  by (simp_all add: example_stream_def well_formed_stream_def no_frame_def event_message_def message_of_def
      enc_alloc_def enc_free_def write_string_def c_str_def write_varint_def write_defs)

theorem client_records_stream_witness:
  "well_formed_stream example_stream \<and>
   (\<exists>c'. process_all 0 (map event_message example_stream) fresh_client = Some c' \<and>
     saved c' @ c_frame_events c' = example_stream)"
proof -
  have "map arrived example_stream = example_stream" by (simp add: example_stream_def arrived_def c_str_def)
  with client_records_stream [OF example_stream_wf, of 0] example_stream_wf(1) show ?thesis by auto
qed

theorem frame_statistics_exact_witness:
  "\<exists>c'. process_all 0 (map event_message example_stream) fresh_client = Some c' \<and>
     c_size_running_total c' = 0 \<and> stats_map c' 1 = Some (1, 0, 24)"
proof -
  have "net_size example_stream = 0" "expected_stats example_stream 1 = Some (1, 0, 24)"
    "pe_frame (last example_stream) = 2"
    by (simp_all add: example_stream_def net_size_def expected_stats_def n_allocs_def n_frees_def word_le_nat_alt)
  with frame_statistics_exact [OF example_stream_wf, of 0] show ?thesis by auto
qed

theorem last_frame_not_saved_witness:
  "\<exists>c'. (case process_all 0 (map event_message example_stream) fresh_client of
      None \<Rightarrow> None | Some c \<Rightarrow> process_end c) = Some c' \<and> saved c' = [hd example_stream]"
proof -
  have "length (filter (\<lambda>e. pe_frame e = pe_frame (last example_stream)) example_stream) \<le> 10000"
    "map arrived (filter (\<lambda>e. pe_frame e \<noteq> pe_frame (last example_stream)) example_stream) = [hd example_stream]"
    by (simp_all add: example_stream_def arrived_def c_str_def)
  with last_frame_not_saved [OF example_stream_wf, of 0] show ?thesis by metis
qed

end
