(* ===== verification/Client_Views.thy ===== *)
theory Client_Views
  imports Client_Events
begin

text \<open>
  What the client shows of its database: the list of live objects of a range of frames and
  the statistics of a range of frames, with the gaps filled; and a bound of the events it buffers.
\<close>

section \<open>Live objects\<close>

definition row_object :: "event_row \<Rightarrow> live_object" where
  "row_object r = \<lparr>lo_addr = col_uint64 (er_address r), lo_size = col_uint64 (er_size r),
     lo_frame = col_uint64 (er_frame r), lo_type_id = col_uint64 (er_type_id r),
     lo_callstack_id = col_uint64 (er_callstack_id r)\<rparr>"

text \<open>The allocations of an address after its last free.\<close>

definition allocs_since_free :: "u64 \<Rightarrow> event_row list \<Rightarrow> event_row list" where
  "allocs_since_free a rs =
     rev (takeWhile (\<lambda>r. er_event_type r = 1) (rev (filter (\<lambda>r. col_uint64 (er_address r) = a) rs)))"

definition first_of :: "'a list \<Rightarrow> 'a option" where
  "first_of xs = (case xs of [] \<Rightarrow> None | x # _ \<Rightarrow> Some x)"

lemma allocs_since_free_snoc:
  "allocs_since_free a (rs @ [r]) =
     (if col_uint64 (er_address r) \<noteq> a then allocs_since_free a rs
      else if er_event_type r = 1 then allocs_since_free a rs @ [r] else [])"
  by (simp add: allocs_since_free_def)

lemma live_loop_all: "live_loop (\<lambda>_. True) n rs m = Some (fold live_step rs m)"
  by (induction rs arbitrary: n m) auto

lemma live_step_wf: "um_wf m \<Longrightarrow> um_wf (live_step r m)"
  by (simp add: live_step_def Let_def um_wf_insert um_wf_erase)

lemma live_step_find:
  "um_find (live_step r m) a =
     (if col_uint64 (er_address r) = a
      then if er_event_type r = 1
           then (case um_find m a of None \<Rightarrow> Some (row_object r) | Some x \<Rightarrow> Some x) else None
      else um_find m a)"
  by (auto simp: live_step_def Let_def row_object_def um_find_insert um_find_erase split: option.splits)

lemma live_fold:
  "um_wf (fold live_step rs []) \<and>
   um_find (fold live_step rs []) a = map_option row_object (first_of (allocs_since_free a rs))"
proof (induction rs rule: rev_induct)
  case Nil
  then show ?case by (simp add: allocs_since_free_def first_of_def)
next
  case (snoc r rs)
  then show ?case
    by (auto simp: live_step_find live_step_wf allocs_since_free_snoc first_of_def split: list.splits)
qed

text \<open>
  C14. The list of live objects of a range of frames holds an object for an address exactly when
  the events of the range allocate it after its last free; the object is described by the
  first such allocation, and no address is listed twice.
\<close>

theorem live_objects_exact:
  assumes "c_db c = Some db"
  shows "set (get_live_objects (\<lambda>_. True) from to c) =
      {row_object r | r a. first_of (allocs_since_free a (select_events (scast from) (scast to) db)) = Some r} \<and>
    distinct (map lo_addr (get_live_objects (\<lambda>_. True) from to c))"
proof -
  let ?rs = "select_events (scast from) (scast to) db"
  let ?m = "fold live_step ?rs []"
  have g: "get_live_objects (\<lambda>_. True) from to c = map snd ?m"
    using assms by (simp add: get_live_objects_def live_loop_all)
  have wf: "um_wf ?m" and find: "\<And>a. um_find ?m a = map_option row_object (first_of (allocs_since_free a ?rs))"
    using live_fold by blast+
  have "x \<in> snd ` set ?m \<longleftrightarrow> (\<exists>a. um_find ?m a = Some x)" for x
    using um_find_iff [OF wf] by force
  then have "x \<in> set (map snd ?m) \<longleftrightarrow>
      (\<exists>r a. x = row_object r \<and> first_of (allocs_since_free a ?rs) = Some r)" for x
    unfolding find map_option_eq_Some by (auto simp only: set_map)
  then have s: "set (map snd ?m) = {row_object r | r a. first_of (allocs_since_free a ?rs) = Some r}"
    by (intro set_eqI) (simp only: mem_Collect_eq)
  have addr: "lo_addr x = a" if "(a, x) \<in> set ?m" for a x
  proof -
    from that obtain r where r: "first_of (allocs_since_free a ?rs) = Some r" "x = row_object r"
      using um_find_iff [OF wf, of a x] find [of a] by auto
    then have "r \<in> set (allocs_since_free a ?rs)" by (auto simp: first_of_def split: list.splits)
    then have "col_uint64 (er_address r) = a"
      by (auto simp: allocs_since_free_def dest: set_takeWhileD)
    then show ?thesis using r(2) by (simp add: row_object_def)
  qed
  have "map lo_addr (map snd ?m) = map fst ?m" using addr unfolding map_map by (intro map_cong refl) auto
  then have "distinct (map lo_addr (map snd ?m))" using wf by (simp only: um_wf_def)
  with s g show ?thesis by simp
qed

definition example_row :: "u64 \<Rightarrow> u64 \<Rightarrow> u64 \<Rightarrow> event_row" where
  "example_row kind a f = \<lparr>er_event_type = kind, er_type_id = SQL_INTEGER 0, er_address = SQL_INTEGER a,
     er_size = SQL_INTEGER 24, er_frame = SQL_INTEGER f, er_callstack_id = SQL_INTEGER 0\<rparr>"

definition example_db :: database where
  "example_db = empty_database\<lparr>t_created := True,
     t_events := [example_row 1 64 1, example_row 2 64 2, example_row 1 64 2, example_row 1 96 5]\<rparr>"

lemma example_events:
  "select_events (scast (1 :: u32)) (scast (3 :: u32)) example_db =
     [example_row 1 64 1, example_row 2 64 2, example_row 1 64 2]"
  by (simp add: select_events_def example_db_def in_frames_def example_row_def col_uint64_def
      get_if_int64_def empty_database_def)

theorem live_objects_exact_witness:
  "row_object (example_row 1 64 2) \<in>
     set (get_live_objects (\<lambda>_. True) 1 3 (new_client\<lparr>c_db := Some example_db\<rparr>))"
proof -
  have db: "c_db (new_client\<lparr>c_db := Some example_db\<rparr>) = Some example_db" by simp
  have "first_of (allocs_since_free 64 (select_events (scast (1 :: u32)) (scast (3 :: u32)) example_db)) =
      Some (example_row 1 64 2)"
    unfolding example_events
    by (simp add: allocs_since_free_def example_row_def first_of_def col_uint64_def get_if_int64_def)
  with live_objects_exact [OF db, of 1 3] show ?thesis by blast
qed

section \<open>Statistics\<close>

abbreviation frame_no :: "stats_row \<Rightarrow> nat" where
  "frame_no r \<equiv> unat (sr_frame r)"

text \<open>What the table says of a frame: its counts, 0 without a row, and the last known size.\<close>

definition allocs_at :: "database \<Rightarrow> nat \<Rightarrow> u64" where
  "allocs_at db n = (case find (\<lambda>r. frame_no r = n) (t_stats db) of Some r \<Rightarrow> sr_allocs r | None \<Rightarrow> 0)"

definition frees_at :: "database \<Rightarrow> nat \<Rightarrow> u64" where
  "frees_at db n = (case find (\<lambda>r. frame_no r = n) (t_stats db) of Some r \<Rightarrow> sr_frees r | None \<Rightarrow> 0)"

definition size_at :: "database \<Rightarrow> nat \<Rightarrow> u64" where
  "size_at db n = (case select_last_good_size (word_of_nat n) db of Some z \<Rightarrow> z | None \<Rightarrow> 0)"

text \<open>The table has one row per frame, its primary key, and frame numbers are not negative.\<close>

definition stats_ok :: "database \<Rightarrow> bool" where
  "stats_ok db \<longleftrightarrow> distinct (map sr_frame (t_stats db)) \<and> (\<forall>r\<in>set (t_stats db). frame_no r < 2 ^ 63)"

lemma sorted_map_le_last:
  "sorted (map f xs) \<Longrightarrow> x \<in> set xs \<Longrightarrow> f x \<le> f (last xs)"
  by (induction xs rule: rev_induct) (auto simp: sorted_append)

lemma sint_small: "unat (x :: u64) < 2 ^ 63 \<Longrightarrow> sint x = int (unat x)"
proof -
  assume "unat x < 2 ^ 63"
  then have "int (unat x) < int (2 ^ 63)" by (simp only: of_nat_less_iff)
  then have "uint x < 2 ^ 63" by simp
  then have "signed_take_bit 63 (uint x) = uint x"
    by (intro signed_take_bit_int_eq_self order.trans [OF _ unsigned_greater_eq]) auto
  then show ?thesis by (simp add: sint_uint)
qed

lemma sint_le_small:
  "unat (x :: u64) < 2 ^ 63 \<Longrightarrow> unat (y :: u64) < 2 ^ 63 \<Longrightarrow> sint x \<le> sint y \<longleftrightarrow> unat x \<le> unat y"
  unfolding sint_small by (simp only: of_nat_le_iff)

lemma scast_small:
  assumes "unat (x :: u32) < 2 ^ 31"
  shows "unat (scast x :: u64) = unat x"
proof -
  from assms have "int (unat x) < int (2 ^ 31)" by (simp only: of_nat_less_iff)
  then have "uint x < 2 ^ 31" by simp
  then have "signed_take_bit 31 (uint x) = uint x"
    by (intro signed_take_bit_int_eq_self order.trans [OF _ unsigned_greater_eq]) auto
  then have "sint x = int (unat x)" by (simp add: sint_uint)
  then have "(scast x :: u64) = of_nat (unat x)" by (metis of_int_of_nat_eq of_int_sint)
  moreover have "unat (of_nat (unat x) :: u64) = unat x" unfolding unat_of_nat by (rule mod_less) (use assms in simp)
  ultimately show ?thesis by simp
qed

lemma select_stats_nat:
  assumes "stats_ok db" "unat from < 2 ^ 63" "unat to < 2 ^ 63"
  shows "select_stats from to db =
    sort_key frame_no (filter (\<lambda>r. unat from \<le> frame_no r \<and> frame_no r \<le> unat to) (t_stats db))"
proof -
  have f: "filter (\<lambda>r. in_frames from to (sr_frame r)) (t_stats db) =
      filter (\<lambda>r. unat from \<le> frame_no r \<and> frame_no r \<le> unat to) (t_stats db)"
    using assms by (intro filter_cong refl) (simp add: stats_ok_def in_frames_def sint_le_small)
  have "sort_key (\<lambda>r. sint (sr_frame r)) xs = sort_key frame_no xs" if "set xs \<subseteq> set (t_stats db)" for xs
    using that
  proof (induction xs)
    case (Cons x xs)
    have "insort_key (\<lambda>r. sint (sr_frame r)) x ys = insort_key frame_no x ys"
      if "set ys \<subseteq> set (t_stats db)" for ys
      using that Cons.prems assms(1) by (induction ys) (auto simp: stats_ok_def sint_le_small)
    with Cons show ?case by simp
  qed simp
  then show ?thesis unfolding select_stats_def f by simp
qed

lemma select_last_eqI:
  assumes "stats_ok db" "n < 2 ^ 63" "r \<in> set (t_stats db)" "frame_no r \<le> n"
    and gap: "\<And>r'. r' \<in> set (t_stats db) \<Longrightarrow> frame_no r < frame_no r' \<Longrightarrow> n < frame_no r'"
  shows "size_at db n = sr_size r"
proof -
  let ?L = "sort_key (\<lambda>r. sint (sr_frame r))
    (filter (\<lambda>r. sint (sr_frame r) \<le> sint (word_of_nat n :: u64)) (t_stats db))"
  have n: "unat (word_of_nat n :: u64) = n" using assms(2) by (simp add: unat_of_nat take_bit_nat_eq_self)
  have L: "r' \<in> set ?L \<longleftrightarrow> r' \<in> set (t_stats db) \<and> frame_no r' \<le> n" for r'
    using assms(1,2) sint_le_small [of "sr_frame r'" "word_of_nat n"] by (auto simp: n stats_ok_def)
  with assms(3,4) have r: "r \<in> set ?L" by blast
  then have ne: "?L \<noteq> []" by (metis (no_types, lifting) empty_iff list.set(1))
  then have last: "last ?L \<in> set ?L" by (rule last_in_set)
  have "sint (sr_frame r) \<le> sint (sr_frame (last ?L))"
    by (rule sorted_map_le_last [where f = "\<lambda>r. sint (sr_frame r)", OF sorted_sort_key r])
  then have "frame_no r \<le> frame_no (last ?L)"
    using last r L assms(1) by (subst (asm) sint_le_small) (auto simp: stats_ok_def)
  moreover have "\<not> frame_no r < frame_no (last ?L)" using gap last L by (meson not_le)
  ultimately have "sr_frame (last ?L) = sr_frame r" by (simp add: word_unat_eq_iff)
  then have "last ?L = r"
    using assms(1,3) last L by (auto simp: stats_ok_def distinct_map inj_on_def)
  moreover have "select_last_good_size (word_of_nat n) db = Some (sr_size (last ?L))"
    using ne by (cases ?L rule: rev_cases) (simp_all add: select_last_good_size_def)
  ultimately show ?thesis by (simp add: size_at_def)
qed

lemma size_at_no_row:
  assumes "stats_ok db" "n < 2 ^ 63" "m \<le> n"
    and gap: "\<And>r'. r' \<in> set (t_stats db) \<Longrightarrow> m < frame_no r' \<Longrightarrow> n < frame_no r'"
  shows "size_at db n = size_at db m"
proof -
  have nm: "unat (word_of_nat n :: u64) = n" "unat (word_of_nat m :: u64) = m"
    using assms(2,3) by (simp_all add: unat_of_nat take_bit_nat_eq_self)
  have "filter (\<lambda>r. sint (sr_frame r) \<le> sint (word_of_nat n :: u64)) (t_stats db) =
      filter (\<lambda>r. sint (sr_frame r) \<le> sint (word_of_nat m :: u64)) (t_stats db)"
  proof (intro filter_cong refl)
    fix r assume r: "r \<in> set (t_stats db)"
    then have "frame_no r < 2 ^ 63" using assms(1) by (simp add: stats_ok_def)
    moreover have "frame_no r \<le> n \<longleftrightarrow> frame_no r \<le> m" using gap [OF r] assms(3) by linarith
    ultimately
    show "sint (sr_frame r) \<le> sint (word_of_nat n :: u64) \<longleftrightarrow> sint (sr_frame r) \<le> sint (word_of_nat m :: u64)"
      using assms(2,3) by (subst (1 2) sint_le_small) (auto simp: nm)
  qed
  then show ?thesis by (simp add: size_at_def select_last_good_size_def)
qed

lemma counts_row:
  assumes "stats_ok db" "r \<in> set (t_stats db)"
  shows "allocs_at db (frame_no r) = sr_allocs r" "frees_at db (frame_no r) = sr_frees r"
proof -
  have "find (\<lambda>r'. sr_frame r' = sr_frame r) xs = Some r" if "distinct (map sr_frame xs)" "r \<in> set xs" for xs
    using that by (induction xs) (auto simp: image_iff)
  then have "find (\<lambda>r'. frame_no r' = frame_no r) (t_stats db) = Some r"
    using assms unfolding stats_ok_def word_unat_eq_iff [symmetric] by blast
  then show "allocs_at db (frame_no r) = sr_allocs r" "frees_at db (frame_no r) = sr_frees r"
    by (simp_all add: allocs_at_def frees_at_def)
qed

lemma counts_no_row:
  assumes "\<And>r. r \<in> set (t_stats db) \<Longrightarrow> frame_no r \<noteq> n"
  shows "allocs_at db n = 0" "frees_at db n = 0"
proof -
  have "find (\<lambda>r. frame_no r = n) (t_stats db) = None" using assms by (simp add: find_None_iff)
  then show "allocs_at db n = 0" "frees_at db n = 0" by (simp_all add: allocs_at_def frees_at_def)
qed

text \<open>The three curves of \<^verbatim>\<open>get_stats\<close> agree with the table on the frames from \<open>lo\<close> up to \<open>hi\<close>.\<close>

definition curves :: "database \<Rightarrow> nat \<Rightarrow> nat \<Rightarrow> frame_stats \<Rightarrow> bool" where
  "curves db lo hi s \<longleftrightarrow> fs_allocs s = map (allocs_at db) [lo..<hi] \<and>
     fs_frees s = map (frees_at db) [lo..<hi] \<and> fs_sizes s = map (size_at db) [lo..<hi]"

lemma curves_push:
  assumes "curves db lo hi s" "lo \<le> hi" "allocs_at db hi = a" "frees_at db hi = f" "size_at db hi = z"
  shows "curves db lo (Suc hi) (push_stats a f z s)"
  using assms by (simp add: curves_def push_stats_def)

lemma curves_gap:
  assumes "curves db lo hi s" "lo \<le> hi"
    and "\<And>k. hi \<le> k \<Longrightarrow> k < hi + n \<Longrightarrow> allocs_at db k = 0 \<and> frees_at db k = 0 \<and> size_at db k = z"
  shows "curves db lo (hi + n) (push_gap n z s)"
  using assms
proof (induction n arbitrary: hi s)
  case (Suc n)
  have "curves db lo (Suc hi) (push_stats 0 0 z s)"
    using Suc.prems(3) [of hi] by (intro curves_push Suc.prems(1,2)) auto
  with Suc.IH [of "Suc hi"] Suc.prems(2,3) show ?case by simp
qed simp

lemma push_gap_max [simp]:
  "fs_max_allocs (push_gap n z s) = fs_max_allocs s" "fs_max_frees (push_gap n z s) = fs_max_frees s"
  by (induction n arbitrary: s) (simp_all add: push_stats_def)

lemma stats_step_split:
  "stats_step from lk row (prev, first, s) =
    (let s1 = s\<lparr>fs_max_allocs := max (fs_max_allocs s) (sr_allocs row),
                fs_max_frees := max (fs_max_frees s) (sr_frees row),
                fs_max_size := (if sint (sr_size row) > sint (fs_max_size s) then sr_size row else fs_max_size s)\<rparr>
     in (sr_frame row, False, push_stats (sr_allocs row) (sr_frees row) (sr_size row)
          (if first \<and> sr_frame row > prev then push_gap (span_u64 from (sr_frame row)) lk s1
           else if sr_frame row > prev + 1 then push_gap (span_u64 (prev + 1) (sr_frame row)) (last (fs_sizes s1)) s1
           else s1)))"
  by (simp add: stats_step_def Let_def max_def not_less less_le)

text \<open>The selected rows come in strictly increasing order of frames, and none is left out.\<close>

lemma select_stats_gap:
  assumes "stats_ok db" "unat from < 2 ^ 63" "unat to < 2 ^ 63" "select_stats from to db = pre @ r # post"
  shows "r \<in> set (t_stats db)" "unat from \<le> frame_no r" "frame_no r \<le> unat to" "frame_no r < 2 ^ 63"
    and "\<And>r'. r' \<in> set pre \<Longrightarrow> frame_no r' < frame_no r"
    and "\<And>r'. r' \<in> set (t_stats db) \<Longrightarrow> unat from \<le> frame_no r' \<Longrightarrow> frame_no r' < frame_no r \<Longrightarrow>
           pre \<noteq> [] \<and> frame_no r' \<le> frame_no (last pre)"
proof -
  let ?L = "sort_key frame_no (filter (\<lambda>r. unat from \<le> frame_no r \<and> frame_no r \<le> unat to) (t_stats db))"
  have L: "?L = pre @ r # post" using assms(4) select_stats_nat [OF assms(1-3)] by simp
  have mem: "r' \<in> set pre \<or> r' = r \<or> r' \<in> set post \<longleftrightarrow>
      r' \<in> set (t_stats db) \<and> unat from \<le> frame_no r' \<and> frame_no r' \<le> unat to" for r'
    using arg_cong [OF L, of "\<lambda>l. r' \<in> set l"] by auto
  then show r: "r \<in> set (t_stats db)" "unat from \<le> frame_no r" "frame_no r \<le> unat to" by blast+
  then show "frame_no r < 2 ^ 63" using assms(3) by linarith
  have so: "sorted (map frame_no (pre @ r # post))" using sorted_sort_key [of frame_no] unfolding L [symmetric] .
  have "distinct (map sr_frame ?L)"
    using assms(1) by (simp add: stats_ok_def distinct_map) (auto intro: inj_on_subset)
  then have di: "distinct (map sr_frame (pre @ r # post))" unfolding L .
  show "frame_no r' < frame_no r" if "r' \<in> set pre" for r'
  proof -
    have "frame_no r' \<le> frame_no r" using so that by (auto simp: sorted_append)
    moreover have "sr_frame r' \<noteq> sr_frame r" using di that by (auto simp: image_iff)
    ultimately show ?thesis by (simp add: word_unat_eq_iff)
  qed
  show "pre \<noteq> [] \<and> frame_no r' \<le> frame_no (last pre)"
    if "r' \<in> set (t_stats db)" "unat from \<le> frame_no r'" "frame_no r' < frame_no r" for r'
  proof -
    have "r' \<in> set pre \<or> r' = r \<or> r' \<in> set post" using that r(3) mem by auto
    moreover have "frame_no r \<le> frame_no r''" if "r'' \<in> set post" for r'' using so that by (auto simp: sorted_append)
    ultimately have "r' \<in> set pre" using that(3) by fastforce
    moreover have "sorted (map frame_no pre)" using so by (simp add: sorted_append)
    ultimately show ?thesis by (auto intro: sorted_map_le_last)
  qed
qed

definition maxima :: "frame_stats \<Rightarrow> bool" where
  "maxima s \<longleftrightarrow> fold max (fs_allocs s) 0 = fs_max_allocs s \<and> fold max (fs_frees s) 0 = fs_max_frees s"

lemma fold_max: "xs \<noteq> [] \<Longrightarrow> fold max xs (0 :: u64) = Max (set xs)"
proof (cases xs)
  case (Cons x ys)
  have "max x 0 = (x :: u64)" by (simp add: max_def)
  with Cons show ?thesis by (simp only: Max.set_eq_fold fold_simps)
qed simp

lemma maxima_gap: "maxima s \<Longrightarrow> maxima (push_gap n z s)"
  by (induction n arbitrary: s) (simp_all add: maxima_def push_stats_def)

lemma maxima_step:
  assumes "maxima s" shows "maxima (snd (snd (stats_step from lk row (prev, first, s))))"
proof -
  have row: "maxima (push_stats (sr_allocs row) (sr_frees row) z
      (t\<lparr>fs_max_allocs := max (fs_max_allocs t) (sr_allocs row), fs_max_frees := max (fs_max_frees t) (sr_frees row)\<rparr>))"
    if "maxima t" for t z
    using that by (simp add: maxima_def push_stats_def max.commute)
  have "push_stats x y z (t\<lparr>fs_max_allocs := a, fs_max_frees := f, fs_max_size := m\<rparr>) =
      (push_stats x y z t)\<lparr>fs_max_allocs := a, fs_max_frees := f, fs_max_size := m\<rparr>" for x y z t a f m
    by (cases t) (simp add: push_stats_def)
  then have comm: "push_gap n z (t\<lparr>fs_max_allocs := a, fs_max_frees := f, fs_max_size := m\<rparr>) =
      (push_gap n z t)\<lparr>fs_max_allocs := a, fs_max_frees := f, fs_max_size := m\<rparr>" for n z t a f m
    by (induction n arbitrary: t) simp_all
  have sz: "maxima (t\<lparr>fs_max_size := m\<rparr>) = maxima t" for t m by (simp add: maxima_def)
  have out: "push_stats a f z (t\<lparr>fs_max_allocs := x, fs_max_frees := y, fs_max_size := m\<rparr>) =
      (push_stats a f z (t\<lparr>fs_max_allocs := x, fs_max_frees := y\<rparr>))\<lparr>fs_max_size := m\<rparr>" for a f z t x y m
    by (cases t) (simp add: push_stats_def)
  have row_gap: "maxima (push_stats (sr_allocs row) (sr_frees row) z ((push_gap n y s)
      \<lparr>fs_max_allocs := max (fs_max_allocs s) (sr_allocs row), fs_max_frees := max (fs_max_frees s) (sr_frees row)\<rparr>))" for n y z
    using row [OF maxima_gap [OF assms, of n y], of z] by simp
  show ?thesis
    using row_gap row [OF assms] by (simp add: stats_step_split Let_def comm out sz)
qed

lemma maxima_fold: "maxima s \<Longrightarrow> maxima (snd (snd (fold (stats_step from lk) rs (prev, first, s))))"
proof (induction rs arbitrary: prev first s)
  case (Cons row rs)
  then show ?case
    using maxima_step [OF Cons.prems, of "from" lk row prev first]
    by (cases "stats_step from lk row (prev, first, s)") auto
qed simp

lemma curves_max [simp]:
  "curves db lo hi (s\<lparr>fs_max_allocs := a, fs_max_frees := f, fs_max_size := m\<rparr>) = curves db lo hi s"
  by (simp add: curves_def)

lemma unat_succ_less:
  fixes x y :: u64
  assumes "y < x"
  shows "unat (y + 1) = Suc (unat y)"
proof -
  have "unat y < unat x" using assms by (simp add: word_less_nat_alt)
  moreover have "unat x < 2 ^ 64" using unsigned_less [of x, where ?'a = nat] by simp
  ultimately show ?thesis using unat_plus_small [of y 1] by simp
qed

lemma stats_step_run:
  assumes "stats_ok db" "unat from < 2 ^ 63" "unat to < 2 ^ 63"
    and sel: "select_stats from to db = pre @ r # post"
    and s: "curves db (unat from) hi s" "unat from \<le> hi" "hi \<le> frame_no r"
    and hi: "\<And>r'. r' \<in> set (t_stats db) \<Longrightarrow> unat from \<le> frame_no r' \<Longrightarrow> hi \<le> frame_no r' \<Longrightarrow> frame_no r \<le> frame_no r'"
    and z: "\<And>k. hi \<le> k \<Longrightarrow> k < frame_no r \<Longrightarrow> size_at db k = z"
  shows "curves db (unat from) (Suc (frame_no r))
    (push_stats (sr_allocs r) (sr_frees r) (sr_size r) (push_gap (frame_no r - hi) z s))"
proof -
  note gap = select_stats_gap [OF assms(1-3) sel]
  have "allocs_at db k = 0 \<and> frees_at db k = 0" if "hi \<le> k" "k < frame_no r" for k
  proof -
    have "frame_no r' \<noteq> k" if "r' \<in> set (t_stats db)" for r'
      using hi [OF that] \<open>hi \<le> k\<close> \<open>k < frame_no r\<close> s(2) by linarith
    then show ?thesis by (simp add: counts_no_row)
  qed
  then have "curves db (unat from) (frame_no r) (push_gap (frame_no r - hi) z s)"
    using curves_gap [OF s(1,2), of "frame_no r - hi" z] s(3) z by simp
  moreover have "size_at db (frame_no r) = sr_size r"
    by (rule select_last_eqI [OF assms(1) gap(4,1)]) auto
  ultimately show ?thesis using curves_push gap(2) counts_row [OF assms(1) gap(1)] by blast
qed

abbreviation with_maxima :: "stats_row \<Rightarrow> frame_stats \<Rightarrow> frame_stats" where
  "with_maxima r s \<equiv> s\<lparr>fs_max_allocs := max (fs_max_allocs s) (sr_allocs r),
     fs_max_frees := max (fs_max_frees s) (sr_frees r),
     fs_max_size := (if sint (sr_size r) > sint (fs_max_size s) then sr_size r else fs_max_size s)\<rparr>"

lemma stats_first:
  assumes "stats_ok db" "unat from < 2 ^ 63" "unat to < 2 ^ 63"
    and sel: "select_stats from to db = r # post" and e: "curves db (unat from) (unat from) e"
  shows "\<exists>s. stats_step from (size_at db (unat from)) r (from, True, e) = (sr_frame r, False, s) \<and>
    curves db (unat from) (Suc (frame_no r)) s"
proof -
  let ?lk = "size_at db (unat from)"
  let ?s = "push_stats (sr_allocs r) (sr_frees r) (sr_size r) (push_gap (frame_no r - unat from) ?lk (with_maxima r e))"
  have sel': "select_stats from to db = [] @ r # post" using sel by simp
  note gap = select_stats_gap [OF assms(1-3) sel']
  have none: "frame_no r \<le> frame_no r'" if "r' \<in> set (t_stats db)" "unat from \<le> frame_no r'" for r'
    using gap(6) [OF that] by fastforce
  have "size_at db k = ?lk" if "unat from \<le> k" "k < frame_no r" for k
  proof (rule size_at_no_row [OF assms(1) _ that(1)])
    show "k < frame_no r'" if "r' \<in> set (t_stats db)" "unat from < frame_no r'" for r'
      using none [OF that(1)] that(2) \<open>k < frame_no r\<close> by linarith
  qed (use that gap(4) in linarith)
  moreover have "curves db (unat from) (unat from) (with_maxima r e)" using e by simp
  ultimately have c: "curves db (unat from) (Suc (frame_no r)) ?s"
    by (intro stats_step_run [OF assms(1-3) sel' _ order_refl gap(2)] none)
  have "stats_step from ?lk r (from, True, e) = (sr_frame r, False, ?s)"
  proof (cases "from < sr_frame r")
    case False
    then have "sr_frame r = from" using gap(2) by (simp add: word_le_nat_alt not_less word_unat_eq_iff)
    moreover have "\<not> from + 1 < from"
      using assms(2) unat_plus_small [of "from" 1] by (simp add: word_less_nat_alt)
    ultimately show ?thesis by (simp add: stats_step_split)
  qed (simp add: stats_step_split span_u64_def Let_def)
  with c show ?thesis by blast
qed

lemma stats_next:
  assumes "stats_ok db" "unat from < 2 ^ 63" "unat to < 2 ^ 63"
    and sel: "select_stats from to db = pre @ r # post" and "pre \<noteq> []"
    and s: "curves db (unat from) (Suc (frame_no (last pre))) s" and lo: "unat from \<le> frame_no (last pre)"
    and last: "last pre \<in> set (t_stats db)"
  shows "\<exists>s'. stats_step from lk r (sr_frame (last pre), False, s) = (sr_frame r, False, s') \<and>
    curves db (unat from) (Suc (frame_no r)) s'"
proof -
  let ?p = "last pre"
  let ?s = "push_stats (sr_allocs r) (sr_frees r) (sr_size r)
    (push_gap (frame_no r - Suc (frame_no ?p)) (size_at db (frame_no ?p)) (with_maxima r s))"
  note gap = select_stats_gap [OF assms(1-3) sel]
  have lt: "frame_no ?p < frame_no r" using gap(5) assms(5) by simp
  have none: "frame_no r \<le> frame_no r'" if "r' \<in> set (t_stats db)" "unat from \<le> frame_no r'" "frame_no ?p < frame_no r'" for r'
    using gap(6) [OF that(1,2)] that(3) by linarith
  have "size_at db k = size_at db (frame_no ?p)" if "Suc (frame_no ?p) \<le> k" "k < frame_no r" for k
  proof (rule size_at_no_row [OF assms(1)])
    show "k < frame_no r'" if "r' \<in> set (t_stats db)" "frame_no ?p < frame_no r'" for r'
      using none [OF that(1)] that(2) lo \<open>k < frame_no r\<close> by linarith
  qed (use that gap(4) in linarith)+
  moreover have "curves db (unat from) (Suc (frame_no ?p)) (with_maxima r s)" using s by simp
  ultimately have c: "curves db (unat from) (Suc (frame_no r)) ?s"
    using lo lt by (intro stats_step_run [OF assms(1-3) sel]) (auto intro: none)
  have p1: "unat (sr_frame ?p + 1) = Suc (frame_no ?p)"
    using lt by (intro unat_succ_less [of _ "sr_frame r"]) (simp add: word_less_nat_alt)
  have z: "last (fs_sizes (with_maxima r s)) = size_at db (frame_no ?p)"
    using s lo by (simp add: curves_def last_map)
  have "stats_step from lk r (sr_frame ?p, False, s) = (sr_frame r, False, ?s)"
  proof (cases "sr_frame r > sr_frame ?p + 1")
    case False
    then have "frame_no r - Suc (frame_no ?p) = 0" using lt p1 by (simp add: word_less_nat_alt)
    with False show ?thesis by (simp add: stats_step_split)
  next
    case True
    then show ?thesis using z by (simp add: stats_step_split span_u64_def p1 Let_def)
  qed
  with c show ?thesis by blast
qed

lemma stats_loop:
  assumes "stats_ok db" "unat from < 2 ^ 63" "unat to < 2 ^ 63"
    and "select_stats from to db = pre @ post" "pre \<noteq> []"
    and e: "curves db (unat from) (unat from) e"
  shows "\<exists>s. fold (stats_step from (size_at db (unat from))) pre (from, True, e) = (sr_frame (last pre), False, s) \<and>
    curves db (unat from) (Suc (frame_no (last pre))) s"
  using assms(4,5)
proof (induction pre arbitrary: post rule: rev_induct)
  case (snoc r pre)
  show ?case
  proof (cases pre rule: rev_cases)
    case Nil
    then show ?thesis using stats_first [OF assms(1-3) _ e, of r post] snoc.prems by simp
  next
    case (snoc pre' p)
    have sel: "select_stats from to db = pre @ r # post" "select_stats from to db = pre' @ p # r # post"
      using snoc.prems snoc by simp_all
    note gap = select_stats_gap [OF assms(1-3) sel(2)]
    from snoc.IH [OF sel(1)] snoc obtain s where
      s: "fold (stats_step from (size_at db (unat from))) pre (from, True, e) = (sr_frame (last pre), False, s)"
      "curves db (unat from) (Suc (frame_no (last pre))) s" by blast
    with stats_next [OF assms(1-3) sel(1) _ s(2)] snoc gap show ?thesis by auto
  qed
qed simp

lemma stats_tail:
  assumes ok: "stats_ok db" "unat from < 2 ^ 63" "unat to < 2 ^ 63"
    and sel: "select_stats from to db = rs" "rs \<noteq> []" and le: "\<forall>r\<in>set (t_stats db). sr_frame r \<le> mx"
    and s: "curves db (unat from) (Suc (frame_no (last rs))) s"
  shows "curves db (unat from) (Suc (min (unat to) (unat mx)))
    (if sr_frame (last rs) < to \<and> fs_sizes s \<noteq> []
     then push_gap (span_u64 (sr_frame (last rs) + 1) (min to mx + 1)) (last (fs_sizes s)) s else s)"
proof -
  let ?p = "last rs" let ?hi = "min (unat to) (unat mx)"
  have sel': "select_stats from to db = butlast rs @ ?p # []" using sel by simp
  note gap = select_stats_gap [OF ok sel']
  have p_le: "frame_no ?p \<le> unat mx" using le gap(1) by (simp add: word_le_nat_alt)
  have ne: "fs_sizes s \<noteq> []" and z: "last (fs_sizes s) = size_at db (frame_no ?p)"
    using s gap(2) by (simp_all add: curves_def last_map)
  have after: "unat to < frame_no r" if "r \<in> set (t_stats db)" "frame_no ?p < frame_no r" for r
  proof (rule ccontr)
    assume "\<not> unat to < frame_no r"
    then have "r \<in> set (butlast rs @ [?p])"
      using that gap(2) unfolding sel' [symmetric] by (simp add: select_stats_nat [OF ok])
    with gap(5) that(2) show False by fastforce
  qed
  show ?thesis
  proof (cases "sr_frame ?p < to")
    case True
    have hi: "unat (min to mx) = ?hi" by (simp add: min_def word_le_nat_alt)
    then have "unat (min to mx + 1) = Suc ?hi" using unat_plus_small [of "min to mx" 1] ok(3) by simp
    then have n: "span_u64 (sr_frame ?p + 1) (min to mx + 1) = Suc ?hi - Suc (frame_no ?p)"
      using unat_succ_less [OF True] by (simp add: span_u64_def)
    have "allocs_at db k = 0 \<and> frees_at db k = 0 \<and> size_at db k = size_at db (frame_no ?p)"
      if "Suc (frame_no ?p) \<le> k" "k < Suc ?hi" for k
    proof -
      have k: "k \<le> unat to" "frame_no ?p \<le> k" "k < 2 ^ 63" using that ok(3) by linarith+
      have "frame_no r \<noteq> k" if "r \<in> set (t_stats db)" for r
        using after [OF that] k \<open>Suc (frame_no ?p) \<le> k\<close> by linarith
      then show ?thesis
        using counts_no_row [of db k] size_at_no_row [OF ok(1) k(3,2)] after k(1) by (simp add: le_less_trans)
    qed
    then have "curves db (unat from) (Suc (frame_no ?p) + (Suc ?hi - Suc (frame_no ?p)))
        (push_gap (Suc ?hi - Suc (frame_no ?p)) (size_at db (frame_no ?p)) s)"
      using gap(2) by (intro curves_gap [OF s]) auto
    then show ?thesis using True ne z n p_le gap(3) by simp
  next
    case False
    then have "?hi = frame_no ?p" using gap(3) p_le by (simp add: word_less_nat_alt)
    with False s show ?thesis by simp
  qed
qed

lemma get_stats_curves:
  assumes "c_db c = Some db" "stats_ok db" "unat from < 2 ^ 63" "unat to < 2 ^ 63"
    and "select_stats from to db \<noteq> []" and "\<forall>r\<in>set (t_stats db). sr_frame r \<le> c_max_frame c"
  shows "curves db (unat from) (Suc (min (unat to) (unat (c_max_frame c)))) (get_stats from to c)"
    and "maxima (get_stats from to c)"
    and "unat from \<le> min (unat to) (unat (c_max_frame c))"
proof -
  let ?rs = "select_stats from to db"
  let ?e = "\<lparr>fs_allocs = [], fs_frees = [], fs_sizes = [], fs_max_allocs = 0, fs_max_frees = 0, fs_max_size = 0\<rparr>"
  have e: "curves db (unat from) (unat from) ?e" "maxima ?e" by (simp_all add: curves_def maxima_def)
  have lk: "(case select_last_good_size from db of Some z \<Rightarrow> z | None \<Rightarrow> 0) = size_at db (unat from)"
    by (simp add: size_at_def)
  obtain s where run: "fold (stats_step from (size_at db (unat from))) ?rs (from, True, ?e) =
      (sr_frame (last ?rs), False, s)" and s: "curves db (unat from) (Suc (frame_no (last ?rs))) s"
    using stats_loop [OF assms(2-4) _ assms(5) e(1), of "[]"] by auto
  have m: "maxima s" using maxima_fold [OF e(2), of "from" "size_at db (unat from)" ?rs "from" True] run by simp
  have g: "get_stats from to c = (if sr_frame (last ?rs) < to \<and> fs_sizes s \<noteq> []
      then push_gap (span_u64 (sr_frame (last ?rs) + 1) (min to (c_max_frame c) + 1)) (last (fs_sizes s)) s else s)"
    by (simp add: get_stats_def assms(1) lk run)
  show "curves db (unat from) (Suc (min (unat to) (unat (c_max_frame c)))) (get_stats from to c)"
    unfolding g by (rule stats_tail [OF assms(2-4) refl assms(5,6) s])
  show "maxima (get_stats from to c)" unfolding g using m maxima_gap by simp
  show "unat from \<le> min (unat to) (unat (c_max_frame c))"
    using select_stats_gap [OF assms(2-4), of "butlast ?rs" "last ?rs" "[]"] assms(5,6)
    by (force simp: word_le_nat_alt)
qed

text \<open>
  C15. The statistics of a range of frames that has at least one recorded frame are complete and
  without gaps: one point for each frame from the first to the last requested one (or the last
  frame known), the counts of a frame being those of its row, or 0 without one, and its size the
  last size recorded up to that frame; the two maxima are those of the count curves.
\<close>

theorem frame_curves_exact:
  assumes "c_db c = Some db" "stats_ok db" "unat from < 2 ^ 63" "unat to < 2 ^ 63"
    and "select_stats from to db \<noteq> []" and "\<forall>r\<in>set (t_stats db). sr_frame r \<le> c_max_frame c"
  shows "let s = get_stats from to c; frames = [unat from..<Suc (min (unat to) (unat (c_max_frame c)))]
    in fs_allocs s = map (allocs_at db) frames \<and> fs_frees s = map (frees_at db) frames \<and>
       fs_sizes s = map (size_at db) frames \<and>
       fs_max_allocs s = Max (set (fs_allocs s)) \<and> fs_max_frees s = Max (set (fs_frees s))"
proof -
  note c = get_stats_curves [OF assms]
  have "fs_allocs (get_stats from to c) \<noteq> []" "fs_frees (get_stats from to c) \<noteq> []"
    using c by (simp_all add: curves_def)
  then have "fs_max_allocs (get_stats from to c) = Max (set (fs_allocs (get_stats from to c)))"
    "fs_max_frees (get_stats from to c) = Max (set (fs_frees (get_stats from to c)))"
    using c(2) by (simp_all add: maxima_def flip: fold_max)
  with c(1) show ?thesis unfolding Let_def curves_def by blast
qed

definition example_stats :: database where
  "example_stats = empty_database\<lparr>t_created := True, t_stats :=
     [\<lparr>sr_frame = 3, sr_allocs = 2, sr_frees = 1, sr_size = 48\<rparr>, \<lparr>sr_frame = 6, sr_allocs = 1, sr_frees = 0, sr_size = 72\<rparr>]\<rparr>"

definition example_viewer :: client where
  "example_viewer = new_client\<lparr>c_db := Some example_stats, c_max_frame := 8\<rparr>"

theorem frame_curves_exact_witness:
  "fs_allocs (get_stats 2 7 example_viewer) = [0, 2, 0, 0, 1, 0] \<and>
   fs_sizes (get_stats 2 7 example_viewer) = [0, 48, 48, 48, 72, 72] \<and>
   fs_max_allocs (get_stats 2 7 example_viewer) = 2"
proof -
  have h: "c_db example_viewer = Some example_stats" "stats_ok example_stats"
    "unat (2 :: u64) < 2 ^ 63" "unat (7 :: u64) < 2 ^ 63" "select_stats 2 7 example_stats \<noteq> []"
    "\<forall>r\<in>set (t_stats example_stats). sr_frame r \<le> c_max_frame example_viewer"
    by (simp_all add: example_viewer_def example_stats_def stats_ok_def select_stats_def in_frames_def)
  have frames: "[unat (2 :: u64)..<Suc (min (unat (7 :: u64)) (unat (c_max_frame example_viewer)))] = [2,3,4,5,6,7]"
    by (simp add: example_viewer_def upt_rec)
  have a: "map (allocs_at example_stats) [2,3,4,5,6,7] = [0, 2, 0, 0, 1, 0]"
    by (simp add: allocs_at_def example_stats_def)
  have z: "map (size_at example_stats) [2,3,4,5,6,7] = [0, 48, 48, 48, 72, 72]"
    by (simp add: size_at_def select_last_good_size_def example_stats_def)
  show ?thesis using frame_curves_exact [OF h] unfolding frames a z Let_def by (simp add: max_def word_le_nat_alt)
qed

section \<open>The buffer of events is bounded\<close>

lemma save_frame_events_empty: "save_frame_events c = Some c' \<Longrightarrow> c_frame_events c' = []"
  by (auto simp: save_frame_events_def Let_def split: if_splits)

lemma try_save_events_shrinks: "try_save_events f c = Some c' \<Longrightarrow> length (c_frame_events c') \<le> length (c_frame_events c)"
  by (auto simp: try_save_events_def Let_def dest!: save_frame_events_empty split: if_splits)

lemma limit_events_bound: "limit_events c = Some c' \<Longrightarrow> length (c_frame_events c') \<le> 10000"
  by (auto simp: limit_events_def dest: save_frame_events_empty split: if_splits)

lemma handlers_keep_events:
  "on_references junk r c = Some (b, c') \<Longrightarrow> c_frame_events c' = c_frame_events c"
  "on_ack type cb r c = Some (b, c') \<Longrightarrow> c_frame_events c' = c_frame_events c"
  by (auto simp: on_references_def on_ack_def Let_def
      split: prod.splits read_result.splits option.splits base_command.splits)

lemma if_eqE: "(if b then x else y) = z \<Longrightarrow> (x = z \<Longrightarrow> P) \<Longrightarrow> (y = z \<Longrightarrow> P) \<Longrightarrow> P"
  by (cases b) simp_all

lemma process_message_bound:
  assumes "length (c_frame_events c) \<le> 10000" "process_message junk m c = Some c'"
  shows "length (c_frame_events c') \<le> 10000"
proof -
  let ?r = "new_reader (msg_data m)"
  let ?after = "\<lambda>res. case res of None \<Rightarrow> None | Some (reached, c1) \<Rightarrow> if reached then limit_events c1 else Some c1"
  have after: "length (c_frame_events c') \<le> 10000"
    if "?after res = Some c'" "\<And>c1. res = Some (False, c1) \<Longrightarrow> length (c_frame_events c1) \<le> 10000" for res
    using that limit_events_bound by (auto split: option.splits if_splits)
  have 1: "length (c_frame_events c') \<le> 10000" if "?after (map_option (Pair True) x) = Some c'" for x
    by (rule after [OF that]) auto
  have 2: "length (c_frame_events c') \<le> 10000" if "?after (on_references junk ?r c) = Some c'"
    by (rule after [OF that]) (use assms(1) in \<open>auto dest!: handlers_keep_events\<close>)
  have 3: "length (c_frame_events c') \<le> 10000" if "?after (on_ack type cb ?r c) = Some c'" for type cb
    by (rule after [OF that]) (use assms(1) in \<open>auto dest!: handlers_keep_events\<close>)
  show ?thesis
    using assms(2) unfolding process_message_def Let_def
    by (elim if_eqE) (erule 1, erule 1, erule 2, erule 3, erule 3, simp)
qed

text \<open>
  The client never buffers more than 10000 events between two messages, whatever messages
  it receives.
\<close>

theorem buffered_events_bounded:
  assumes "process_all junk ms c = Some c'" "length (c_frame_events c) \<le> 10000"
  shows "length (c_frame_events c') \<le> 10000"
  using assms by (induction junk ms c rule: process_all.induct)
    (auto intro: process_message_bound split: option.splits)

theorem buffered_events_bounded_witness:
  "\<exists>c'. process_all 0 (map event_message example_stream) fresh_client = Some c' \<and> length (c_frame_events c') \<le> 10000"
proof -
  obtain c' where "process_all 0 (map event_message example_stream) fresh_client = Some c'"
    by (rule stream_run [OF fresh_ready [OF example_stream_wf(3)] example_stream_wf(1,2)])
  moreover have "length (c_frame_events fresh_client) \<le> 10000"
    unfolding fresh_client_eq by (simp add: new_client_def)
  ultimately show ?thesis using buffered_events_bounded by blast
qed

end
