(* ===== verification/Worker_GC.thy ===== *)
theory Worker_GC
  imports Worker
begin

text \<open>
  Correctness of the pseudo garbage collection. The abstract picture is a graph: the nodes
  are the addresses in the allocation table, an edge leads from an object to every table
  address found at some byte offset inside it, and the roots are the table addresses stored
  in the registered root areas. The loop marks exactly the reachable nodes.
\<close>

section \<open>What the table says about an address\<close>

definition flagged :: "alloc_flag \<Rightarrow> allocations_map \<Rightarrow> u64 set" where
  "flagged f m = {k. \<exists>a. um_find m k = Some a \<and> flag a f}"

definition parents_of :: "allocations_map \<Rightarrow> u64 \<Rightarrow> u64 list" where
  "parents_of m k = (case um_find m k of None \<Rightarrow> [] | Some a \<Rightarrow> ai_parents a)"

text \<open>Keys and sizes, which no step of the collection changes before the sweep.\<close>

definition sizes :: "allocations_map \<Rightarrow> (u64 \<times> u32) list" where
  "sizes m = map (\<lambda>p. (fst p, ai_size (snd p))) m"

definition pointers :: "memory \<Rightarrow> (u64 \<times> u32) list \<Rightarrow> u64 \<Rightarrow> u64 list" where
  "pointers mem s x =
     (case map_of s x of None \<Rightarrow> [] | Some n \<Rightarrow> map (get_ptr_safe mem) (object_slots x n))"

definition heap_edges :: "memory \<Rightarrow> (u64 \<times> u32) list \<Rightarrow> (u64 \<times> u64) set" where
  "heap_edges mem s = {(x, y). y \<in> set (pointers mem s x) \<and> y \<in> fst ` set s}"

definition root_refs :: "memory \<Rightarrow> root_info list \<Rightarrow> (u64 \<times> u32) list \<Rightarrow> u64 set" where
  "root_refs mem roots s =
     {ref. ref \<noteq> 0 \<and> ref \<in> fst ` set s \<and> (\<exists>r \<in> set roots. \<exists>p \<in> set (root_slots r). mem p = Some ref)}"

definition live_set :: "memory \<Rightarrow> worker \<Rightarrow> u64 set" where
  "live_set mem w =
     (let s = sizes (m_allocations w) in reach (root_refs mem (m_roots w) s) (heap_edges mem s))"

lemma keys_sizes [simp]: "fst ` set (sizes m) = um_keys m"
  by (force simp: sizes_def)

lemma find_sizes: "map_of (sizes m) k = map_option ai_size (um_find m k)"
  unfolding sizes_def by (induction m) auto

lemma sizes_modify [simp]: "(\<And>a. ai_size (f a) = ai_size a) \<Longrightarrow> sizes (um_modify k f m) = sizes m"
  unfolding sizes_def by (induction m) auto

lemma wf_sizes: "sizes m = sizes m' \<Longrightarrow> um_wf m = um_wf m'"
proof -
  assume "sizes m = sizes m'"
  then have "map fst (sizes m) = map fst (sizes m')" by simp
  then show ?thesis by (simp add: sizes_def um_wf_def comp_def)
qed

lemma keys_eqI: "sizes m = sizes m' \<Longrightarrow> um_keys m = um_keys m'"
  by (metis keys_sizes)

lemma flagged_keys: "flagged f m \<subseteq> um_keys m"
  by (auto simp: flagged_def dest: um_find_Some_key)

lemma find_key_Some: "k \<in> um_keys m \<Longrightarrow> \<exists>a. um_find m k = Some a"
  by (meson not_None_eq um_find_None_iff)

lemma flagged_found: "um_find m k = Some a \<Longrightarrow> k \<in> flagged f m \<longleftrightarrow> flag a f"
  by (simp add: flagged_def)

lemma flagged_modify:
  assumes "um_find m k = Some a"
  shows "flagged f (um_modify k g m) =
     (if flag (g a) f then insert k (flagged f m) else flagged f m - {k})"
  using assms by (auto simp: flagged_def um_find_modify)

lemma parents_found: "um_find m k = Some a \<Longrightarrow> parents_of m k = ai_parents a"
  by (simp add: parents_of_def)

lemma parents_modify:
  assumes "um_find m k = Some a"
  shows "parents_of (um_modify k g m) k' = (if k' = k then ai_parents (g a) else parents_of m k')"
  using assms by (auto simp: parents_of_def um_find_modify)

lemmas modify_effects = flagged_modify parents_modify flagged_found parents_found

section \<open>One candidate, one object\<close>

lemma push_child_effect:
  assumes "push_child e c (m, st) = (m', st')"
  shows "sizes m' = sizes m \<and>
    flagged TMP_ALLOCATED m' = flagged TMP_ALLOCATED m \<union> ({c} \<inter> um_keys m) \<and>
    flagged TMP_VISITED m' = flagged TMP_VISITED m \<and>
    flagged IS_ROOT m' = flagged IS_ROOT m - ({c} - flagged TMP_ALLOCATED m) \<and>
    st' = (if c \<in> um_keys m - flagged TMP_ALLOCATED m then c # st else st) \<and>
    parents_of m' y = parents_of m y @ (if y = c \<and> c \<in> um_keys m then [e] else [])"
proof -
  consider (absent) "um_find m c = None" | (marked) a where "um_find m c = Some a" "flag a TMP_ALLOCATED"
    | (fresh) a where "um_find m c = Some a" "\<not> flag a TMP_ALLOCATED"
    by (cases "um_find m c") auto
  then show ?thesis
  proof cases
    case absent
    then have "c \<notin> um_keys m" by (simp add: um_find_None_iff)
    moreover then have "c \<notin> flagged f m" for f using flagged_keys by blast
    ultimately show ?thesis using absent assms by (auto simp: push_child_def)
  next
    case marked
    then have k: "c \<in> um_keys m" by (auto dest: um_find_Some_key)
    have "m' = um_modify c (\<lambda>a. a\<lparr>ai_parents := ai_parents a @ [e]\<rparr>) m" "st' = st"
      using marked assms by (auto simp: push_child_def Let_def)
    with marked(2) k show ?thesis
      by (auto simp: modify_effects [OF marked(1)] insert_absorb split: if_splits)
  next
    case fresh
    then have k: "c \<in> um_keys m" by (auto dest: um_find_Some_key)
    let ?m1 = "um_modify c (\<lambda>a. a\<lparr>ai_parents := ai_parents a @ [e]\<rparr>) m"
    have f1: "um_find ?m1 c = Some (a\<lparr>ai_parents := ai_parents a @ [e]\<rparr>)"
      using fresh by (simp add: um_find_modify)
    have "m' = um_modify c (\<lambda>a. set_flag TMP_ALLOCATED (reset_flag IS_ROOT a)) ?m1" "st' = c # st"
      using fresh assms by (auto simp: push_child_def Let_def)
    with fresh(2) k show ?thesis
      by (auto simp: modify_effects [OF f1] modify_effects [OF fresh(1)] split: if_splits)
  qed
qed

lemma fold_child_effect:
  assumes "fold (push_child e) cs (m, st) = (m', st')"
  shows "sizes m' = sizes m \<and>
    flagged TMP_ALLOCATED m' = flagged TMP_ALLOCATED m \<union> (set cs \<inter> um_keys m) \<and>
    flagged TMP_VISITED m' = flagged TMP_VISITED m \<and>
    flagged IS_ROOT m' = flagged IS_ROOT m - (set cs - flagged TMP_ALLOCATED m) \<and>
    (\<exists>new. st' = new @ st \<and> distinct new \<and>
       set new = set cs \<inter> um_keys m - flagged TMP_ALLOCATED m) \<and>
    (\<forall>y. parents_of m' y =
       parents_of m y @ replicate (if y \<in> um_keys m then count_list cs y else 0) e)"
  using assms
proof (induction cs arbitrary: m st)
  case Nil
  then show ?case by simp
next
  case (Cons c cs)
  obtain m1 st1 where one: "push_child e c (m, st) = (m1, st1)" by force
  have p: "sizes m1 = sizes m"
    "flagged TMP_ALLOCATED m1 = flagged TMP_ALLOCATED m \<union> ({c} \<inter> um_keys m)"
    "flagged TMP_VISITED m1 = flagged TMP_VISITED m"
    "flagged IS_ROOT m1 = flagged IS_ROOT m - ({c} - flagged TMP_ALLOCATED m)"
    "st1 = (if c \<in> um_keys m - flagged TMP_ALLOCATED m then c # st else st)"
    "\<And>y. parents_of m1 y = parents_of m y @ (if y = c \<and> c \<in> um_keys m then [e] else [])"
    using push_child_effect [OF one] by blast+
  have keys: "um_keys m1 = um_keys m" using p(1) by (rule keys_eqI)
  have "fold (push_child e) cs (m1, st1) = (m', st')" using Cons.prems one by simp
  from Cons.IH [OF this] obtain new where ih: "sizes m' = sizes m1"
    "flagged TMP_ALLOCATED m' = flagged TMP_ALLOCATED m1 \<union> (set cs \<inter> um_keys m1)"
    "flagged TMP_VISITED m' = flagged TMP_VISITED m1"
    "flagged IS_ROOT m' = flagged IS_ROOT m1 - (set cs - flagged TMP_ALLOCATED m1)"
    "\<And>y. parents_of m' y =
       parents_of m1 y @ replicate (if y \<in> um_keys m1 then count_list cs y else 0) e"
    and new: "st' = new @ st1" "distinct new"
    "set new = set cs \<inter> um_keys m1 - flagged TMP_ALLOCATED m1" by blast
  let ?new = "new @ (if c \<in> um_keys m - flagged TMP_ALLOCATED m then [c] else [])"
  have "st' = ?new @ st" "distinct ?new"
    "set ?new = set (c # cs) \<inter> um_keys m - flagged TMP_ALLOCATED m"
    using new p(2,5) by (auto simp: keys)
  then have stack: "\<exists>new. st' = new @ st \<and> distinct new \<and>
      set new = set (c # cs) \<inter> um_keys m - flagged TMP_ALLOCATED m" by blast
  have par: "parents_of m' y = parents_of m y @
      replicate (if y \<in> um_keys m then count_list (c # cs) y else 0) e" for y
    by (simp add: ih(5) p(6) keys)
  have root: "flagged IS_ROOT m' = flagged IS_ROOT m - (set (c # cs) - flagged TMP_ALLOCATED m)"
    using flagged_keys [of IS_ROOT m] by (auto simp: ih(4) p(2,4))
  have mark: "flagged TMP_ALLOCATED m' = flagged TMP_ALLOCATED m \<union> (set (c # cs) \<inter> um_keys m)"
    by (auto simp: ih(2) p(2) keys)
  show ?case
    using stack par root mark ih(1,3) p(1,3) by simp
qed

lemma scan_object_fold:
  "scan_object mem e (m, st) = fold (push_child e) (pointers mem (sizes m) e) (m, st)"
  by (auto simp: scan_object_def pointers_def find_sizes fold_map comp_def split: option.splits)

section \<open>The marking loop\<close>

text \<open>
  The state between two iterations, over the fixed graph given by \<open>s\<close>: everything on the
  stack is marked, everything marked is reachable, and what is marked but no longer on the
  stack has been scanned: its successors are marked and it has entered itself into their
  lists of parents, once for each pointer.
\<close>

definition mark_inv :: "memory \<Rightarrow> u64 set \<Rightarrow> (u64 \<times> u32) list \<Rightarrow> allocations_map \<Rightarrow> u64 list \<Rightarrow> bool" where
  "mark_inv mem roots s m st \<longleftrightarrow>
     um_wf m \<and> sizes m = s \<and> distinct st \<and> set st \<subseteq> flagged TMP_ALLOCATED m \<and>
     roots \<subseteq> flagged TMP_ALLOCATED m \<and>
     flagged TMP_ALLOCATED m \<subseteq> reach roots (heap_edges mem s) \<and>
     (\<forall>x \<in> flagged TMP_ALLOCATED m - set st. heap_edges mem s `` {x} \<subseteq> flagged TMP_ALLOCATED m) \<and>
     (\<forall>x y. count_list (parents_of m y) x =
        (if x \<in> flagged TMP_ALLOCATED m - set st \<and> y \<in> fst ` set s
         then count_list (pointers mem s x) y else 0)) \<and>
     flagged IS_ROOT m = roots \<and> flagged TMP_VISITED m = {}"

lemma mark_inv_step:
  assumes inv: "mark_inv mem roots s m (e # st)" and sc: "scan_object mem e (m, st) = (m', st')"
  shows "mark_inv mem roots s m' st' \<and>
    flagged TMP_ALLOCATED m' - set st' = insert e (flagged TMP_ALLOCATED m - set (e # st))"
proof -
  let ?M = "flagged TMP_ALLOCATED m" and ?M' = "flagged TMP_ALLOCATED m'"
  let ?E = "heap_edges mem s" and ?P = "pointers mem s e"
  have i: "um_wf m" "sizes m = s" "distinct (e # st)" "set (e # st) \<subseteq> ?M" "roots \<subseteq> ?M"
    "?M \<subseteq> reach roots ?E" "\<And>x. x \<in> ?M - set (e # st) \<Longrightarrow> ?E `` {x} \<subseteq> ?M"
    "\<And>x y. count_list (parents_of m y) x = (if x \<in> ?M - set (e # st) \<and> y \<in> fst ` set s
        then count_list (pointers mem s x) y else 0)"
    "flagged IS_ROOT m = roots" "flagged TMP_VISITED m = {}"
    using inv unfolding mark_inv_def by blast+
  have keys: "um_keys m = fst ` set s" using i(2) keys_sizes by metis
  have "fold (push_child e) ?P (m, st) = (m', st')" using sc i(2) scan_object_fold by metis
  from fold_child_effect [OF this] obtain new where
    f: "sizes m' = s" "?M' = ?M \<union> (set ?P \<inter> fst ` set s)" "flagged TMP_VISITED m' = {}"
    "flagged IS_ROOT m' = roots - (set ?P - ?M)"
    "\<And>y. parents_of m' y = parents_of m y @
       replicate (if y \<in> fst ` set s then count_list ?P y else 0) e"
    and new: "st' = new @ st" "distinct new" "set new = set ?P \<inter> fst ` set s - ?M"
    using i(2,9,10) keys by auto
  have succ: "?E `` {e} = set ?P \<inter> fst ` set s" by (auto simp: heap_edges_def)
  have scanned: "?M' - set st' = insert e (?M - set (e # st))"
    using new i(3,4) f(2) by auto
  have eM: "e \<in> reach roots ?E" using i(4,6) by auto
  have "?E `` {e} \<subseteq> reach roots ?E" by (auto intro: reach_step [OF eM])
  then have "?M' \<subseteq> reach roots ?E" using f(2) i(6) succ by auto
  moreover have "?E `` {x} \<subseteq> ?M'" if x: "x \<in> ?M' - set st'" for x
  proof -
    from x consider "x = e" | "x \<in> ?M - set (e # st)" unfolding scanned by blast
    then show ?thesis
    proof cases
      case 1
      then show ?thesis using succ f(2) by blast
    next
      case 2
      then show ?thesis using i(7) f(2) by blast
    qed
  qed
  moreover have "count_list (parents_of m' y) x = (if x \<in> ?M' - set st' \<and> y \<in> fst ` set s
      then count_list (pointers mem s x) y else 0)" for x y
    using i(3) unfolding scanned f(5) by (auto simp: i(8) count_list_append count_list_replicate)
  moreover have "flagged IS_ROOT m' = roots" using f(4) i(5) by auto
  moreover have "um_wf m'" using i(1,2) f(1) wf_sizes by metis
  moreover have "distinct st'" using new i(3,4) by auto
  moreover have "set st' \<subseteq> ?M'" using new i(4) f(2) by auto
  moreover have "roots \<subseteq> ?M'" using i(5) f(2) by auto
  ultimately show ?thesis unfolding mark_inv_def using f(1,3) scanned by blast
qed

lemma gc_loop_inv:
  assumes "mark_inv mem roots s m st" "gc_loop mem i m st = (n, m')"
  shows "mark_inv mem roots s m' [] \<and>
    n + card (flagged TMP_ALLOCATED m - set st) = i + card (flagged TMP_ALLOCATED m')"
  using assms
proof (induction mem i m st rule: gc_loop.induct)
  case (1 mem i m)
  then show ?case by simp
next
  case (2 mem i m e st)
  let ?old = "flagged TMP_ALLOCATED m - set (e # st)"
  have wf: "um_wf m" using "2.prems"(1) by (simp add: mark_inv_def)
  obtain m1 st1 where sc: "scan_object mem e (m, st) = (m1, st1)" by force
  note step = mark_inv_step [OF "2.prems"(1) sc]
  have "gc_loop mem (Suc i) m1 st1 = (n, m')" using "2.prems"(2) wf sc by simp
  with "2.IH" [OF wf refl] sc step
  have ih: "mark_inv mem roots s m' []"
    "n + card (flagged TMP_ALLOCATED m1 - set st1) = Suc i + card (flagged TMP_ALLOCATED m')"
    by auto
  have "finite ?old" by (meson finite_Diff finite_imageI finite_set finite_subset flagged_keys)
  then have "card (insert e ?old) = Suc (card ?old)" by simp
  with ih step show ?case by simp
qed

section \<open>The roots\<close>

lemma gc_clear_effect:
  "sizes (gc_clear m) = sizes m" "flagged f (gc_clear m) = {}" "parents_of (gc_clear m) y = []"
proof -
  show "sizes (gc_clear m) = sizes m" by (simp add: sizes_def gc_clear_def case_prod_beta)
  show "flagged f (gc_clear m) = {}" by (cases f) (auto simp: flagged_def gc_clear_def)
  show "parents_of (gc_clear m) y = []"
    by (auto simp: parents_of_def gc_clear_def split: option.splits)
qed

definition root_inv :: "(u64 \<times> u32) list \<Rightarrow> u64 set \<Rightarrow> allocations_map \<Rightarrow> u64 list \<Rightarrow> bool" where
  "root_inv s R m st \<longleftrightarrow>
     um_wf m \<and> sizes m = s \<and> distinct st \<and> set st = R \<and> flagged TMP_ALLOCATED m = R \<and>
     flagged IS_ROOT m = R \<and> flagged TMP_VISITED m = {} \<and> (\<forall>y. parents_of m y = [])"

lemma root_inv_push:
  assumes "root_inv s R m st" "push_root ref (m, st) = (m', st')"
  shows "root_inv s (R \<union> ({ref} \<inter> (fst ` set s - {0}))) m' st'"
proof -
  have i: "um_wf m" "sizes m = s" "distinct st" "set st = R" "flagged TMP_ALLOCATED m = R"
     "flagged IS_ROOT m = R" "flagged TMP_VISITED m = {}" "\<And>y. parents_of m y = []"
    using assms(1) unfolding root_inv_def by auto
  have keys: "um_keys m = fst ` set s" using i(2) keys_sizes by metis
  consider (skip) "ref = 0 \<or> um_find m ref = None" | (old) a where "ref \<noteq> 0" "um_find m ref = Some a"
      "flag a TMP_ALLOCATED" | (new) a where "ref \<noteq> 0" "um_find m ref = Some a" "\<not> flag a TMP_ALLOCATED"
    by (cases "um_find m ref") auto
  then show ?thesis
  proof cases
    case skip
    then have none: "{ref} \<inter> (fst ` set s - {0}) = {}"
      unfolding keys [symmetric] um_find_None_iff by blast
    have "m' = m" "st' = st" using skip assms(2) by (auto simp: push_root_def split: if_splits)
    with assms(1) none show ?thesis by simp
  next
    case old
    then have "ref \<in> R" using i(5) flagged_found by blast
    moreover have "m' = m" "st' = st" using old assms(2) by (auto simp: push_root_def)
    ultimately show ?thesis using assms(1) by (simp add: insert_absorb Int_insert_left)
  next
    case new
    let ?g = "\<lambda>a. set_flag TMP_ALLOCATED (set_flag IS_ROOT a)"
    have res: "m' = um_modify ref ?g m" "st' = ref # st"
      using new assms(2) by (auto simp: push_root_def)
    have "ref \<notin> R" using new i(5) flagged_found by blast
    have "\<not> flag a TMP_VISITED" using flagged_found [OF new(2), of TMP_VISITED] i(7) by simp
    then have "flagged TMP_ALLOCATED m' = insert ref R" "flagged IS_ROOT m' = insert ref R"
      "flagged TMP_VISITED m' = {}"
      unfolding res flagged_modify [OF new(2)] by (simp_all add: i(5-7))
    moreover have "parents_of m' y = []" for y
      unfolding res parents_modify [OF new(2)]
      using i(8) [of y] parents_found [OF new(2)] by auto
    moreover have "sizes m' = s" "um_wf m'" unfolding res using i(1,2) um_wf_modify by auto
    moreover have "distinct st'" "set st' = insert ref R" using \<open>ref \<notin> R\<close> i(3,4) res by auto
    moreover have "R \<union> {ref} \<inter> (fst ` set s - {0}) = insert ref R"
      using new keys um_find_Some_key [OF new(2)] by auto
    ultimately show ?thesis unfolding root_inv_def by simp
  qed
qed

lemma root_inv_slots:
  assumes "root_inv s R m st" "push_slots mem ps (m, st) = Some (m', st')"
  shows "root_inv s (R \<union> {ref. ref \<noteq> 0 \<and> ref \<in> fst ` set s \<and> (\<exists>p \<in> set ps. mem p = Some ref)}) m' st'"
  using assms
proof (induction ps arbitrary: m st R)
  case Nil
  then show ?case by simp
next
  case (Cons p ps)
  then obtain ref where ref: "mem p = Some ref" by (auto split: option.splits)
  obtain m1 st1 where one: "push_root ref (m, st) = (m1, st1)" by force
  have "push_slots mem ps (m1, st1) = Some (m', st')" using Cons.prems(2) ref one by simp
  note ih = Cons.IH [OF root_inv_push [OF Cons.prems(1) one] this]
  have "(R \<union> {ref} \<inter> (fst ` set s - {0})) \<union>
      {r. r \<noteq> 0 \<and> r \<in> fst ` set s \<and> (\<exists>q \<in> set ps. mem q = Some r)} =
    R \<union> {r. r \<noteq> 0 \<and> r \<in> fst ` set s \<and> (\<exists>q \<in> set (p # ps). mem q = Some r)}"
    using ref by auto
  with ih show ?case by simp
qed

lemma push_slots_total: "(\<exists>r. push_slots mem ps ms = Some r) \<longleftrightarrow> (\<forall>p \<in> set ps. mem p \<noteq> None)"
  by (induction ps arbitrary: ms) (auto split: option.splits)

section \<open>The whole collection\<close>

text \<open>The table after marking, before the sweep.\<close>

lemma do_gc_marks:
  assumes wf: "um_wf (m_allocations w)" and gc: "do_gc_internal mem frame only w = Some (n, w')"
  obtains m where "w' = (if only then w\<lparr>m_allocations := m\<rparr>
                         else gc_sweep frame (w\<lparr>m_allocations := m\<rparr>))"
    and "mark_inv mem (root_refs mem (m_roots w) (sizes (m_allocations w)))
           (sizes (m_allocations w)) m []"
    and "n = card (flagged TMP_ALLOCATED m)"
proof -
  let ?s = "sizes (m_allocations w)" and ?ps = "concat (map root_slots (m_roots w))"
  let ?R = "root_refs mem (m_roots w) ?s"
  obtain m0 st0 m where p: "push_slots mem ?ps (gc_clear (m_allocations w), []) = Some (m0, st0)"
    and l: "gc_loop mem 0 m0 st0 = (n, m)"
    and w': "w' = (if only then w\<lparr>m_allocations := m\<rparr> else gc_sweep frame (w\<lparr>m_allocations := m\<rparr>))"
    using gc by (auto simp: do_gc_internal_def Let_def split: option.splits prod.splits)
  have "um_wf (gc_clear (m_allocations w))"
    using wf wf_sizes gc_clear_effect(1) by metis
  then have "root_inv ?s {} (gc_clear (m_allocations w)) []"
    by (simp add: root_inv_def gc_clear_effect)
  note root_inv_slots [OF this p]
  moreover have "{} \<union> {ref. ref \<noteq> 0 \<and> ref \<in> fst ` set ?s \<and> (\<exists>p \<in> set ?ps. mem p = Some ref)} = ?R"
    by (auto simp: root_refs_def)
  ultimately have ri: "root_inv ?s ?R m0 st0" by simp
  then have "mark_inv mem ?R ?s m0 st0"
    using reach_base [of ?R] by (auto simp: root_inv_def mark_inv_def)
  from gc_loop_inv [OF this l] ri
  have "mark_inv mem ?R ?s m []" "n = card (flagged TMP_ALLOCATED m)"
    by (auto simp: root_inv_def)
  with w' that show ?thesis by blast
qed

lemma mark_inv_final:
  assumes "mark_inv mem R s m []"
  shows "flagged TMP_ALLOCATED m = reach R (heap_edges mem s)"
proof
  show "flagged TMP_ALLOCATED m \<subseteq> reach R (heap_edges mem s)"
    using assms by (simp add: mark_inv_def)
  show "reach R (heap_edges mem s) \<subseteq> flagged TMP_ALLOCATED m"
    using assms by (intro reach_subset) (auto simp: mark_inv_def)
qed

lemma gc_table:
  assumes wf: "um_wf (m_allocations w)" and gc: "do_gc_internal mem frame only w = Some (n, w')"
  obtains m where "w' = (if only then w\<lparr>m_allocations := m\<rparr>
                         else gc_sweep frame (w\<lparr>m_allocations := m\<rparr>))"
    and "um_wf m" "sizes m = sizes (m_allocations w)"
    and "flagged TMP_ALLOCATED m = live_set mem w"
    and "flagged IS_ROOT m = root_refs mem (m_roots w) (sizes (m_allocations w))"
    and "flagged TMP_VISITED m = {}"
    and "\<And>x y. count_list (parents_of m y) x = (if x \<in> live_set mem w \<and> y \<in> um_keys (m_allocations w)
           then count_list (pointers mem (sizes (m_allocations w)) x) y else 0)"
    and "n = card (live_set mem w)"
proof -
  let ?s = "sizes (m_allocations w)"
  from do_gc_marks [OF wf gc] obtain m where
    w': "w' = (if only then w\<lparr>m_allocations := m\<rparr> else gc_sweep frame (w\<lparr>m_allocations := m\<rparr>))"
    and inv: "mark_inv mem (root_refs mem (m_roots w) ?s) ?s m []"
    and n: "n = card (flagged TMP_ALLOCATED m)" .
  have live: "flagged TMP_ALLOCATED m = live_set mem w"
    using mark_inv_final [OF inv] by (simp add: live_set_def Let_def)
  show ?thesis
  proof (rule that [OF w'])
    show "um_wf m" "sizes m = ?s"
      "flagged IS_ROOT m = root_refs mem (m_roots w) ?s" "flagged TMP_VISITED m = {}"
      using inv by (auto simp: mark_inv_def)
    show "count_list (parents_of m y) x = (if x \<in> live_set mem w \<and> y \<in> um_keys (m_allocations w)
        then count_list (pointers mem ?s x) y else 0)" for x y
      using inv unfolding mark_inv_def live keys_sizes by simp
  qed (use live n in simp_all)
qed

lemma find_filter_flag:
  assumes "um_wf m"
  shows "um_find (filter (\<lambda>p. P (snd p)) m) k =
    (case um_find m k of Some a \<Rightarrow> if P a then Some a else None | None \<Rightarrow> None)"
  using assms
proof (induction m)
  case (Cons p m)
  then have "um_wf m" "fst p \<notin> um_keys m" by (auto simp: um_wf_def)
  moreover have "um_find (filter (\<lambda>p. P (snd p)) m) (fst p) = None"
    using \<open>fst p \<notin> um_keys m\<close> by (auto simp: um_find_None_iff)
  ultimately show ?case using Cons.IH by (auto split: option.splits)
qed simp

lemma sweep_sizes:
  assumes "um_wf m"
  shows "map (\<lambda>p. (fst p, ai_size (snd p))) (filter (\<lambda>p. flag (snd p) f = b) m) =
    filter (\<lambda>q. (fst q \<in> flagged f m) = b) (sizes m)"
proof -
  have "filter (\<lambda>q. (fst q \<in> flagged f m) = b) (sizes m) =
      map (\<lambda>p. (fst p, ai_size (snd p))) (filter (\<lambda>p. (fst p \<in> flagged f m) = b) m)"
    by (simp add: sizes_def filter_map comp_def)
  moreover have mem: "fst p \<in> flagged f m \<longleftrightarrow> flag (snd p) f" if "p \<in> set m" for p
    using that assms flagged_found um_find_iff by (metis prod.collapse)
  have "filter (\<lambda>p. (fst p \<in> flagged f m) = b) m = filter (\<lambda>p. flag (snd p) f = b) m"
    by (rule filter_cong) (simp_all add: mem)
  ultimately show ?thesis by simp
qed

definition free_of :: "u64 \<Rightarrow> u64 \<times> u32 \<Rightarrow> work_item" where
  "free_of frame q = \<lparr>wi_frame = frame, wi_klass = 0, wi_obj = fst q, wi_size = snd q,
     wi_backtrace = [], wi_type = Wi_free\<rparr>"

lemma gc_sweep_effect:
  assumes "um_wf (m_allocations w)"
  shows "sizes (m_allocations (gc_sweep frame w)) =
      filter (\<lambda>q. fst q \<in> flagged TMP_ALLOCATED (m_allocations w)) (sizes (m_allocations w))"
    and "m_work_items (gc_sweep frame w) = m_work_items w @ map (free_of frame)
      (filter (\<lambda>q. fst q \<notin> flagged TMP_ALLOCATED (m_allocations w)) (sizes (m_allocations w)))"
proof -
  show "sizes (m_allocations (gc_sweep frame w)) =
      filter (\<lambda>q. fst q \<in> flagged TMP_ALLOCATED (m_allocations w)) (sizes (m_allocations w))"
    using sweep_sizes [OF assms, of TMP_ALLOCATED True] by (simp add: gc_sweep_def sizes_def)
  have eq: "map (free_item frame) ps = map (free_of frame) (map (\<lambda>p. (fst p, ai_size (snd p))) ps)" for ps
    by (simp add: free_item_def free_of_def)
  have dead: "filter (\<lambda>p. \<not> flag (snd p) TMP_ALLOCATED) m =
      filter (\<lambda>p. flag (snd p) TMP_ALLOCATED = False) m" for m :: allocations_map by simp
  show "m_work_items (gc_sweep frame w) = m_work_items w @ map (free_of frame)
      (filter (\<lambda>q. fst q \<notin> flagged TMP_ALLOCATED (m_allocations w)) (sizes (m_allocations w)))"
    unfolding gc_sweep_def Let_def dead eq sweep_sizes [OF assms] by (simp add: fold_enqueue)
qed

section \<open>What the collection does\<close>

text \<open>
  C6. A collection that only updates the parents marks exactly the addresses reachable from the
  registered roots and flags as roots exactly those the root areas hold. It runs the marking
  loop once for each live object and leaves keys, sizes and the queue as they are.
\<close>

theorem gc_marks_reachable:
  assumes "um_wf (m_allocations w)" "do_gc_internal mem frame True w = Some (n, w')"
  shows "flagged TMP_ALLOCATED (m_allocations w') = live_set mem w \<and>
    flagged IS_ROOT (m_allocations w') = root_refs mem (m_roots w) (sizes (m_allocations w)) \<and>
    flagged TMP_VISITED (m_allocations w') = {} \<and>
    n = card (live_set mem w) \<and>
    sizes (m_allocations w') = sizes (m_allocations w) \<and> m_work_items w' = m_work_items w"
  using assms by (rule gc_table) simp

lemma gc_swept:
  assumes "um_wf (m_allocations w)" "do_gc_internal mem frame False w = Some (n, w')"
  shows "sizes (m_allocations w') = filter (\<lambda>q. fst q \<in> live_set mem w) (sizes (m_allocations w))"
    and "m_work_items w' = m_work_items w @ map (free_of frame)
           (filter (\<lambda>q. fst q \<notin> live_set mem w) (sizes (m_allocations w)))"
    and "flagged TMP_ALLOCATED (m_allocations w') = live_set mem w"
proof -
  obtain m where w': "w' = gc_sweep frame (w\<lparr>m_allocations := m\<rparr>)"
    and m: "um_wf m" "sizes m = sizes (m_allocations w)" "flagged TMP_ALLOCATED m = live_set mem w"
    by (rule gc_table [OF assms]) simp
  show "sizes (m_allocations w') = filter (\<lambda>q. fst q \<in> live_set mem w) (sizes (m_allocations w))"
    "m_work_items w' = m_work_items w @ map (free_of frame)
       (filter (\<lambda>q. fst q \<notin> live_set mem w) (sizes (m_allocations w)))"
    using gc_sweep_effect [of "w\<lparr>m_allocations := m\<rparr>" frame] m w' by simp_all
  show "flagged TMP_ALLOCATED (m_allocations w') = live_set mem w"
    unfolding m(3) [symmetric] w' gc_sweep_def Let_def
    by (auto simp: flagged_def find_filter_flag [OF m(1), of "\<lambda>a. flag a TMP_ALLOCATED"]
        split: option.splits)
qed

text \<open>
  C5. A full collection keeps exactly the reachable allocations, with their sizes, and queues
  one free event, with the collected frame and the size, for every other entry of the table.
\<close>

theorem gc_frees_unreachable:
  assumes "um_wf (m_allocations w)" "do_gc_internal mem frame False w = Some (n, w')"
  shows "sizes (m_allocations w') = filter (\<lambda>q. fst q \<in> live_set mem w) (sizes (m_allocations w)) \<and>
    m_work_items w' = m_work_items w @ map (free_of frame)
      (filter (\<lambda>q. fst q \<notin> live_set mem w) (sizes (m_allocations w))) \<and>
    um_keys (m_allocations w') = um_keys (m_allocations w) \<inter> live_set mem w"
proof -
  have "um_keys (m_allocations w') = um_keys (m_allocations w) \<inter> live_set mem w"
    unfolding keys_sizes [symmetric] gc_swept(1) [OF assms] by (auto simp del: keys_sizes)
  with gc_swept(1,2) [OF assms] show ?thesis by blast
qed

text \<open>
  C7. After a collection the list of parents of an object holds each live object once for every
  byte offset of it at which a pointer to the object is stored, and no other address.
\<close>

theorem gc_parents_exact:
  assumes "um_wf (m_allocations w)" "do_gc_internal mem frame True w = Some (n, w')"
    and "y \<in> um_keys (m_allocations w)"
  shows "count_list (parents_of (m_allocations w') y) x =
    (if x \<in> live_set mem w
     then count_list (pointers mem (sizes (m_allocations w)) x) y else 0)"
  using assms(1,2)
proof (rule gc_table)
  fix m
  assume "w' = (if True then w\<lparr>m_allocations := m\<rparr> else gc_sweep frame (w\<lparr>m_allocations := m\<rparr>))"
    and "\<And>x y. count_list (parents_of m y) x = (if x \<in> live_set mem w \<and> y \<in> um_keys (m_allocations w)
           then count_list (pointers mem (sizes (m_allocations w)) x) y else 0)"
  then show ?thesis using assms(3) by simp
qed

lemma do_gc_returns_iff:
  "(\<exists>n w'. do_gc_internal mem frame only w = Some (n, w')) \<longleftrightarrow>
     (\<forall>r \<in> set (m_roots w). \<forall>p \<in> set (root_slots r). mem p \<noteq> None)"
  (is "?ok \<longleftrightarrow> ?mapped")
proof -
  have "?ok \<longleftrightarrow> (\<exists>r. push_slots mem (concat (map root_slots (m_roots w)))
      (gc_clear (m_allocations w), []) = Some r)"
    by (auto simp: do_gc_internal_def Let_def split: option.splits prod.splits)
  then show ?thesis unfolding push_slots_total by simp
qed

text \<open>
  C29. The collection always ends; it fails only where it reads a word of a registered root
  area that is not mapped, since root areas are read without the guard that protects the
  scan of the objects.
\<close>

theorem gc_returns:
  "(\<exists>n w'. do_gc_internal mem frame only w = Some (n, w')) \<longleftrightarrow>
     (\<forall>r \<in> set (m_roots w). \<forall>p \<in> set (root_slots r). mem p \<noteq> None)"
  by (rule do_gc_returns_iff)

lemma map_of_mset:
  assumes "mset s = mset t" "distinct (map fst s)"
  shows "map_of s = map_of t"
proof -
  have "mset (map fst s) = mset (map fst t)" using assms(1) by simp
  then have "distinct (map fst t)" using assms(2) mset_eq_imp_distinct_iff by blast
  with assms show ?thesis by (metis map_of_inject_set mset_eq_setD)
qed

lemma live_set_mset:
  assumes "mset (sizes (m_allocations w1)) = mset (sizes (m_allocations w2))"
    and "um_wf (m_allocations w1)" "m_roots w1 = m_roots w2"
  shows "live_set mem w1 = live_set mem w2"
proof -
  let ?s = "sizes (m_allocations w1)" and ?t = "sizes (m_allocations w2)"
  have "distinct (map fst ?s)" using assms(2) by (simp add: um_wf_def sizes_def comp_def)
  then have "map_of ?s = map_of ?t" using assms(1) map_of_mset by blast
  moreover have "set ?s = set ?t" using assms(1) by (rule mset_eq_setD)
  ultimately have "root_refs mem (m_roots w1) ?s = root_refs mem (m_roots w2) ?t"
    "heap_edges mem ?s = heap_edges mem ?t"
    by (simp_all add: root_refs_def heap_edges_def pointers_def assms(3))
  then show ?thesis by (simp add: live_set_def Let_def)
qed

text \<open>
  C28. The result of a collection does not depend on the order in which the hash table is
  walked: two tables with the same entries keep the same allocations and queue the same
  free events, up to the order of the entries.
\<close>

theorem gc_order_independent:
  assumes "um_wf (m_allocations w1)" "um_wf (m_allocations w2)"
    and "mset (sizes (m_allocations w1)) = mset (sizes (m_allocations w2))"
    and "m_roots w1 = m_roots w2" "mset (m_work_items w1) = mset (m_work_items w2)"
    and "do_gc_internal mem frame False w1 = Some (n1, w1')"
    and "do_gc_internal mem frame False w2 = Some (n2, w2')"
  shows "n1 = n2 \<and> mset (sizes (m_allocations w1')) = mset (sizes (m_allocations w2')) \<and>
    mset (m_work_items w1') = mset (m_work_items w2')"
proof -
  have l: "live_set mem w1 = live_set mem w2" using assms(1,3,4) by (intro live_set_mset)
  have "n1 = card (live_set mem w1)" by (rule gc_table [OF assms(1,6)])
  moreover have "n2 = card (live_set mem w2)" by (rule gc_table [OF assms(2,7)])
  ultimately show ?thesis
    unfolding gc_swept(1,2) [OF assms(1,6)] gc_swept(1,2) [OF assms(2,7)] l
    using assms(3,5) by simp
qed

section \<open>An example\<close>

text \<open>
  Three allocations: the object at 1000 is referenced from the root area at 500 and holds a
  pointer to the one at 2000; nothing refers to the object at 3000.
\<close>

definition example_memory :: memory where
  "example_memory p = (if p = 500 then Some 1000 else if p = 1004 then Some 2000
     else if 1000 \<le> p \<and> p < 4000 then Some 0 else None)"

definition example_worker :: worker where
  "example_worker = new_worker\<lparr>
     m_allocations := [(2000, \<lparr>ai_size = 8, ai_flags = 0, ai_parents = []\<rparr>),
       (3000, \<lparr>ai_size = 8, ai_flags = 1, ai_parents = [2000]\<rparr>),
       (1000, \<lparr>ai_size = 12, ai_flags = 0, ai_parents = []\<rparr>)],
     m_roots := [\<lparr>root_start = 500, root_size = 8\<rparr>]\<rparr>"


definition example_marked :: allocations_map where
  "example_marked =
     [(2000, \<lparr>ai_size = 8, ai_flags = 1, ai_parents = [1000]\<rparr>),
      (3000, \<lparr>ai_size = 8, ai_flags = 0, ai_parents = []\<rparr>),
      (1000, \<lparr>ai_size = 12, ai_flags = 5, ai_parents = []\<rparr>)]"

lemmas example_defs = example_worker_def example_memory_def example_marked_def new_worker_def

lemmas gc_eval = do_gc_internal_def root_slots_def gc_clear_def push_root_def scan_object_def
  push_child_def object_slots_def get_ptr_safe_def flag_def set_flag_def reset_flag_def um_wf_def
  gc_sweep_def enqueue_def free_item_def upt_rec

lemma example_gc:
  "do_gc_internal example_memory 7 True example_worker =
     Some (2, example_worker\<lparr>m_allocations := example_marked\<rparr>)"
  by (simp add: example_defs gc_eval)

lemma example_wf: "um_wf (m_allocations example_worker)"
  by (simp add: example_worker_def um_wf_def)

text \<open>The same entries in another order of the table.\<close>

definition example_worker' :: worker where
  "example_worker' = example_worker\<lparr>m_allocations := rev (m_allocations example_worker)\<rparr>"

lemma example_wf': "um_wf (m_allocations example_worker')"
  by (simp add: example_worker'_def example_worker_def um_wf_def)

definition example_free :: work_item where
  "example_free = \<lparr>wi_frame = 7, wi_klass = 0, wi_obj = 3000, wi_size = 8, wi_backtrace = [],
     wi_type = Wi_free\<rparr>"

lemma example_gc_full:
  "do_gc_internal example_memory 7 False example_worker =
     Some (2, example_worker\<lparr>m_allocations := [example_marked ! 0, example_marked ! 2],
       m_work_items := [example_free]\<rparr>)"
  by (simp add: example_defs example_free_def gc_eval)

lemma example_gc_full':
  "do_gc_internal example_memory 7 False example_worker' =
     Some (2, example_worker\<lparr>m_allocations := [example_marked ! 2, example_marked ! 0],
       m_work_items := [example_free]\<rparr>)"
  by (simp add: example_worker'_def example_defs example_free_def gc_eval)

lemma example_flagged: "flagged TMP_ALLOCATED example_marked = {1000, 2000}"
  by (auto simp: flagged_def example_marked_def flag_def split: if_splits)

theorem gc_marks_reachable_witness:
  "um_wf (m_allocations example_worker) \<and>
   do_gc_internal example_memory 7 True example_worker =
     Some (2, example_worker\<lparr>m_allocations := example_marked\<rparr>) \<and>
   live_set example_memory example_worker = {1000, 2000}"
  using gc_marks_reachable [OF example_wf example_gc] example_wf example_gc example_flagged by simp

theorem gc_frees_unreachable_witness:
  "um_wf (m_allocations example_worker) \<and>
   do_gc_internal example_memory 7 False example_worker =
     Some (2, example_worker\<lparr>m_allocations := [example_marked ! 0, example_marked ! 2],
       m_work_items := [example_free]\<rparr>) \<and>
   [(2000, 8), (1000, 12)] = filter (\<lambda>q. fst q \<in> live_set example_memory example_worker)
     (sizes (m_allocations example_worker))"
  using gc_frees_unreachable [OF example_wf example_gc_full] example_wf example_gc_full
  by (simp add: example_marked_def sizes_def)

theorem gc_parents_exact_witness:
  "um_wf (m_allocations example_worker) \<and>
   do_gc_internal example_memory 7 True example_worker =
     Some (2, example_worker\<lparr>m_allocations := example_marked\<rparr>) \<and>
   (2000 :: u64) \<in> um_keys (m_allocations example_worker) \<and>
   1000 \<in> live_set example_memory example_worker"
proof -
  have key: "(2000 :: u64) \<in> um_keys (m_allocations example_worker)"
    by (simp add: example_worker_def)
  have one: "count_list (parents_of example_marked 2000) 1000 = 1"
    by (simp add: parents_of_def example_marked_def)
  have "1000 \<in> live_set example_memory example_worker"
    using gc_parents_exact [OF example_wf example_gc key, of 1000] one by (simp split: if_splits)
  with key example_wf example_gc show ?thesis by blast
qed

lemma example_roots_mapped:
  "\<forall>r \<in> set (m_roots example_worker). \<forall>p \<in> set (root_slots r). example_memory p \<noteq> None"
  by (simp add: example_worker_def example_memory_def root_slots_def)

theorem gc_returns_witness:
  "\<exists>n w'. do_gc_internal example_memory 7 False example_worker = Some (n, w')"
  using gc_returns [of example_memory 7 False example_worker] example_roots_mapped by blast

theorem gc_order_independent_witness:
  "um_wf (m_allocations example_worker) \<and> um_wf (m_allocations example_worker') \<and>
   m_allocations example_worker \<noteq> m_allocations example_worker' \<and>
   mset (sizes [example_marked ! 0, example_marked ! 2]) =
     mset (sizes [example_marked ! 2, example_marked ! 0])"
proof -
  have "mset (sizes (m_allocations example_worker)) = mset (sizes (m_allocations example_worker'))"
    "m_roots example_worker = m_roots example_worker'"
    "mset (m_work_items example_worker) = mset (m_work_items example_worker')"
    "m_allocations example_worker \<noteq> m_allocations example_worker'"
    by (simp_all add: example_worker'_def example_worker_def sizes_def)
  with gc_order_independent [OF example_wf example_wf' this(1-3) example_gc_full example_gc_full']
    example_wf example_wf' show ?thesis by simp
qed

end
