(* ===== verification/Worker_Refs.thy ===== *)
theory Worker_Refs
  imports Worker_GC
begin

text \<open>
  The search for references. The walk goes from the requested objects along the lists of
  parents that the last collection recorded. It reports every requested object and all its
  ancestors, provided no object is still flagged as visited by an earlier request.
\<close>

section \<open>The graph of parents\<close>

definition parent_edges :: "allocations_map \<Rightarrow> (u64 \<times> u64) set" where
  "parent_edges m = {(x, p). p \<in> set (parents_of m x)}"

definition parents_closed :: "allocations_map \<Rightarrow> bool" where
  "parents_closed m \<longleftrightarrow> (\<forall>p \<in> set m. set (ai_parents (snd p)) \<subseteq> um_keys m)"

text \<open>What the walk may change: the marks of visited entries.\<close>

definition view :: "alloc_info \<Rightarrow> u32 \<times> u64 list \<times> bool \<times> bool" where
  "view a = (ai_size a, ai_parents a, flag a TMP_ALLOCATED, flag a IS_ROOT)"

definition same_but_visited :: "allocations_map \<Rightarrow> allocations_map \<Rightarrow> bool" where
  "same_but_visited m m' \<longleftrightarrow> map (map_prod id view) m' = map (map_prod id view) m"

lemma same_refl [simp]: "same_but_visited m m"
  by (simp add: same_but_visited_def)

lemma same_trans: "same_but_visited m m' \<Longrightarrow> same_but_visited m' m'' \<Longrightarrow> same_but_visited m m''"
  by (simp add: same_but_visited_def)

lemma same_modify: "same_but_visited m (um_modify k (set_flag TMP_VISITED) m)"
  unfolding same_but_visited_def by (induction m) (auto simp: view_def)

lemma find_map_prod: "map_of (map (map_prod id h) m) k = map_option h (um_find m k)"
  by (induction m) auto

lemma same_view: "same_but_visited m m' \<Longrightarrow> map_option view (um_find m' k) = map_option view (um_find m k)"
  unfolding same_but_visited_def by (metis find_map_prod)

lemma same_project:
  assumes "same_but_visited m m'"
  shows "map (map_prod id (h \<circ> view)) m' = map (map_prod id (h \<circ> view)) m"
proof -
  have "map (map_prod id h) (map (map_prod id view) m') = map (map_prod id h) (map (map_prod id view) m)"
    using assms unfolding same_but_visited_def by simp
  then show ?thesis by (simp add: map_prod.comp)
qed

lemma same_facts:
  assumes "same_but_visited m m'"
  shows "sizes m' = sizes m" "um_wf m' = um_wf m" "um_keys m' = um_keys m"
    "parents_of m' x = parents_of m x" "parents_closed m' = parents_closed m"
proof -
  have "map_prod id (fst \<circ> view) = (\<lambda>p :: u64 \<times> alloc_info. (fst p, ai_size (snd p)))"
    by (auto simp: view_def fun_eq_iff)
  then show s: "sizes m' = sizes m"
    using same_project [OF assms, of fst] by (simp only: sizes_def)
  then show "um_wf m' = um_wf m" and keys: "um_keys m' = um_keys m"
    using wf_sizes keys_eqI by metis+
  have vp: "ai_parents a = fst (snd (view a))" for a by (simp add: view_def)
  show "parents_of m' x = parents_of m x"
    using same_view [OF assms, of x] by (auto simp: parents_of_def vp split: option.splits)
  have "set (map (map_prod id view) m') = set (map (map_prod id view) m)"
    using assms unfolding same_but_visited_def by (rule arg_cong)
  then have "snd ` map_prod id view ` set m' = snd ` map_prod id view ` set m" by simp
  then have "(\<lambda>p. view (snd p)) ` set m' = (\<lambda>p. view (snd p)) ` set m"
    by (simp add: image_image)
  moreover have "parents_closed n \<longleftrightarrow> (\<forall>v \<in> (\<lambda>p. view (snd p)) ` set n. set (fst (snd v)) \<subseteq> um_keys n)" for n
    by (simp add: parents_closed_def vp)
  ultimately show "parents_closed m' = parents_closed m" by (simp only: keys)
qed

lemma closed_find:
  "parents_closed m \<Longrightarrow> um_find m x = Some a \<Longrightarrow> set (ai_parents a) \<subseteq> um_keys m"
  unfolding parents_closed_def by (metis map_of_SomeD snd_conv)

section \<open>The walk\<close>

lemma push_parents_effect:
  assumes "set ps \<subseteq> um_keys m"
  shows "\<exists>m' new. push_parents ps (m, st) = Some (m', new @ st) \<and> same_but_visited m m' \<and>
    flagged TMP_VISITED m' = flagged TMP_VISITED m \<union> set ps \<and>
    distinct new \<and> set new = set ps - flagged TMP_VISITED m"
  using assms
proof (induction ps arbitrary: m st)
  case Nil
  then show ?case by simp
next
  case (Cons p ps)
  then obtain a where a: "um_find m p = Some a" using find_key_Some by (metis insert_subset list.simps(15))
  show ?case
  proof (cases "flag a TMP_VISITED")
    case True
    then have "p \<in> flagged TMP_VISITED m" using a flagged_found by blast
    then show ?thesis using Cons.IH [of m st] Cons.prems a True by auto
  next
    case False
    let ?m1 = "um_modify p (set_flag TMP_VISITED) m"
    have v1: "flagged TMP_VISITED ?m1 = insert p (flagged TMP_VISITED m)"
      using flagged_modify [OF a] by simp
    have "p \<notin> flagged TMP_VISITED m" using a False flagged_found by blast
    have "set ps \<subseteq> um_keys ?m1" using Cons.prems by simp
    from Cons.IH [OF this, of "p # st"] obtain m' new where
      ih: "push_parents ps (?m1, p # st) = Some (m', new @ p # st)" "same_but_visited ?m1 m'"
        "flagged TMP_VISITED m' = flagged TMP_VISITED ?m1 \<union> set ps"
        "distinct new" "set new = set ps - flagged TMP_VISITED ?m1" by blast
    have "push_parents (p # ps) (m, st) = Some (m', (new @ [p]) @ st)" using ih(1) a False by simp
    moreover have "same_but_visited m m'" using same_modify ih(2) by (rule same_trans)
    moreover have "flagged TMP_VISITED m' = flagged TMP_VISITED m \<union> set (p # ps)"
      using ih(3) v1 by auto
    moreover have "distinct (new @ [p])" "set (new @ [p]) = set (p # ps) - flagged TMP_VISITED m"
      using ih(4,5) v1 \<open>p \<notin> flagged TMP_VISITED m\<close> by auto
    ultimately show ?thesis by blast
  qed
qed

text \<open>What a report says about the entry it was made from.\<close>

definition entry_ok :: "allocations_map \<Rightarrow> object_references \<Rightarrow> bool" where
  "entry_ok m e \<longleftrightarrow> (\<exists>a name. um_find m (or_addr e) = Some a \<and> or_parents e = ai_parents a \<and>
     or_type e = name @ (if flag a IS_ROOT then chars '' (Root)'' else [])
       @ (if \<not> flag a TMP_ALLOCATED then chars '' (Deleted)'' else []))"

lemma entry_ok_view:
  "entry_ok m e \<longleftrightarrow> (\<exists>v name. map_option view (um_find m (or_addr e)) = Some v \<and>
     or_parents e = fst (snd v) \<and>
     or_type e = name @ (if snd (snd (snd v)) then chars '' (Root)'' else [])
       @ (if \<not> fst (snd (snd v)) then chars '' (Deleted)'' else []))"
  unfolding entry_ok_def by (fastforce simp: view_def)

lemma entry_ok_same: "same_but_visited m m' \<Longrightarrow> entry_ok m' e = entry_ok m e"
  unfolding entry_ok_view using same_view by presburger

lemma entry_ok_entry: "um_find m addr = Some a \<Longrightarrow> entry_ok m (reference_entry name addr a)"
  by (auto simp: entry_ok_def reference_entry_def)

lemma refs_loop_effect:
  assumes "um_wf m" "parents_closed m"
  shows "\<exists>name' m' rs. refs_loop api name m st res = Some (name', m', res @ rs) \<and>
    same_but_visited m m' \<and>
    flagged TMP_VISITED m \<subseteq> flagged TMP_VISITED m' \<and>
    flagged TMP_VISITED m' \<subseteq> flagged TMP_VISITED m \<union> parent_edges m `` (or_addr ` set rs) \<and>
    parent_edges m `` (or_addr ` set rs) \<subseteq> flagged TMP_VISITED m' \<and>
    (\<forall>x. count_list (map or_addr rs) x + of_bool (x \<in> flagged TMP_VISITED m) =
       (if x \<in> um_keys m then count_list st x else 0) + of_bool (x \<in> flagged TMP_VISITED m')) \<and>
    or_addr ` set rs \<subseteq> reach (set st \<inter> um_keys m) (parent_edges m) \<and>
    (\<forall>e \<in> set rs. entry_ok m e)"
  using assms
proof (induction api name m st res rule: refs_loop.induct)
  case (1 api name m res)
  then show ?case by (intro exI [of _ name] exI [of _ m] exI [of _ "[]"]) simp
next
  case (2 api name m addr st res)
  show ?case
  proof (cases "um_find m addr")
    case None
    then have nk: "addr \<notin> um_keys m" by (simp add: um_find_None_iff)
    have "set (addr # st) \<inter> um_keys m = set st \<inter> um_keys m" using nk by auto
    moreover have "(if x \<in> um_keys m then count_list (addr # st) x else 0) =
      (if x \<in> um_keys m then count_list st x else 0)" for x using nk by auto
    moreover have "refs_loop api name m (addr # st) res = refs_loop api name m st res"
      using None "2.prems"(1) by simp
    ultimately show ?thesis using "2.IH"(1) [OF "2.prems"(1) None "2.prems"] by presburger
  next
    case (Some a)
    let ?full = "get_full_class_name_at api 2048 addr name"
    have key: "addr \<in> um_keys m" using Some by (rule um_find_Some_key)
    have par: "parents_of m addr = ai_parents a" using Some by (rule parents_found)
    have "set (ai_parents a) \<subseteq> um_keys m" using "2.prems"(2) Some by (rule closed_find)
    from push_parents_effect [OF this, of st] obtain m1 new where
      p: "push_parents (ai_parents a) (m, st) = Some (m1, new @ st)" "same_but_visited m m1"
        "flagged TMP_VISITED m1 = flagged TMP_VISITED m \<union> set (ai_parents a)"
        "distinct new" "set new = set (ai_parents a) - flagged TMP_VISITED m" by blast
    note sf = same_facts [OF p(2)]
    have edges: "parent_edges m1 = parent_edges m" by (simp add: parent_edges_def sf(4))
    have wf1: "um_wf m1" and pc1: "parents_closed m1" using "2.prems" sf by simp_all
    from "2.IH"(2) [OF "2.prems"(1) Some refl p(1) refl wf1 pc1, unfolded edges sf] obtain name' m' rs where
      ih: "refs_loop api ?full m1 (new @ st) (res @ [reference_entry ?full addr a]) =
            Some (name', m', (res @ [reference_entry ?full addr a]) @ rs)"
        "same_but_visited m1 m'" "flagged TMP_VISITED m1 \<subseteq> flagged TMP_VISITED m'"
        "flagged TMP_VISITED m' \<subseteq> flagged TMP_VISITED m1 \<union> parent_edges m `` (or_addr ` set rs)"
        "parent_edges m `` (or_addr ` set rs) \<subseteq> flagged TMP_VISITED m'"
        "\<forall>x. count_list (map or_addr rs) x + of_bool (x \<in> flagged TMP_VISITED m1) =
          (if x \<in> um_keys m then count_list (new @ st) x else 0) + of_bool (x \<in> flagged TMP_VISITED m')"
        "or_addr ` set rs \<subseteq> reach (set (new @ st) \<inter> um_keys m) (parent_edges m)"
        "\<forall>e \<in> set rs. entry_ok m1 e"
      by (elim exE conjE) (rule that)
    let ?rs = "reference_entry ?full addr a # rs"
    have addr: "or_addr (reference_entry ?full addr a) = addr" by (simp add: reference_entry_def)
    have succ: "parent_edges m `` {addr} = set (ai_parents a)" by (simp add: parent_edges_def par)
    have img: "parent_edges m `` (or_addr ` set ?rs) =
        set (ai_parents a) \<union> parent_edges m `` (or_addr ` set rs)"
      using succ addr by auto
    have "refs_loop api name m (addr # st) res = Some (name', m', res @ ?rs)"
      using "2.prems"(1) Some p(1) ih(1) by simp
    moreover have "same_but_visited m m'" using p(2) ih(2) by (rule same_trans)
    moreover have "flagged TMP_VISITED m \<subseteq> flagged TMP_VISITED m'" using ih(3) p(3) by blast
    moreover have "flagged TMP_VISITED m' \<subseteq> flagged TMP_VISITED m \<union> parent_edges m `` (or_addr ` set ?rs)"
      unfolding img using ih(4) p(3) by blast
    moreover have "parent_edges m `` (or_addr ` set ?rs) \<subseteq> flagged TMP_VISITED m'"
      unfolding img using ih(3,5) p(3) by blast
    moreover have "count_list (map or_addr ?rs) x + of_bool (x \<in> flagged TMP_VISITED m) =
        (if x \<in> um_keys m then count_list (addr # st) x else 0) + of_bool (x \<in> flagged TMP_VISITED m')" for x
    proof -
      have "count_list new x = of_bool (x \<in> set new)"
        using p(4) by (rule count_list_distinct)
      moreover have "x \<in> um_keys m" if "x \<in> set (ai_parents a)"
        using that closed_find [OF "2.prems"(2) Some] by blast
      ultimately show ?thesis using ih(6) [rule_format, of x] key p(3,5) addr
        by (auto simp: count_list_append split: if_splits)
    qed
    moreover have "or_addr ` set ?rs \<subseteq> reach (set (addr # st) \<inter> um_keys m) (parent_edges m)"
    proof -
      let ?R = "reach (set (addr # st) \<inter> um_keys m) (parent_edges m)"
      have base: "addr \<in> ?R" "set st \<inter> um_keys m \<subseteq> ?R" using key reach_base [of "set (addr # st) \<inter> um_keys m"] by auto
      have "set new \<subseteq> ?R" using reach_step [OF base(1)] succ p(5) by blast
      then have "reach (set (new @ st) \<inter> um_keys m) (parent_edges m) \<subseteq> ?R"
        using base(2) by (intro reach_subset) (auto intro: reach_step)
      with ih(7) base(1) addr show ?thesis by auto
    qed
    moreover have "entry_ok m e" if "e \<in> set ?rs" for e
      using that ih(8) entry_ok_same [OF p(2)] entry_ok_entry [OF Some] by auto
    ultimately show ?thesis by blast
  qed
qed

section \<open>Reports\<close>

text \<open>After a collection of the parents: the graph that the walk follows.\<close>

lemma gc_parent_graph:
  assumes "um_wf (m_allocations w)" "do_gc_internal mem frame True w = Some (n, w')"
  shows "um_wf (m_allocations w')" "parents_closed (m_allocations w')"
    "flagged TMP_VISITED (m_allocations w') = {}" "um_keys (m_allocations w') = um_keys (m_allocations w)"
    "m_reported w' = m_reported w"
    "parent_edges (m_allocations w') =
       {(y, x). x \<in> live_set mem w \<and> (x, y) \<in> heap_edges mem (sizes (m_allocations w))}"
proof -
  obtain m where m: "w' = w\<lparr>m_allocations := m\<rparr>" "um_wf m" "sizes m = sizes (m_allocations w)"
    "flagged TMP_ALLOCATED m = live_set mem w" "flagged TMP_VISITED m = {}"
    "\<And>x y. count_list (parents_of m y) x = (if x \<in> live_set mem w \<and> y \<in> um_keys (m_allocations w)
           then count_list (pointers mem (sizes (m_allocations w)) x) y else 0)"
    by (rule gc_table [OF assms]) simp
  have "um_keys m = um_keys (m_allocations w)" using m(3) by (rule keys_eqI)
  then show "um_wf (m_allocations w')" "flagged TMP_VISITED (m_allocations w') = {}"
    "um_keys (m_allocations w') = um_keys (m_allocations w)" "m_reported w' = m_reported w"
    using m by simp_all
  have mem: "x \<in> set (parents_of m y) \<longleftrightarrow> x \<in> live_set mem w \<and> y \<in> um_keys (m_allocations w) \<and>
      y \<in> set (pointers mem (sizes (m_allocations w)) x)" for x y
    using m(6) [of y x] by (metis count_list_0_iff)
  then show "parent_edges (m_allocations w') =
       {(y, x). x \<in> live_set mem w \<and> (x, y) \<in> heap_edges mem (sizes (m_allocations w))}"
    using m(1) by (auto simp: parent_edges_def heap_edges_def)
  have "set (parents_of m y) \<subseteq> um_keys m" for y
    using mem m(4) flagged_keys by blast
  moreover have "parents_of m k = ai_parents a" if "(k, a) \<in> set m" for k a
    using that m(2) by (simp add: parents_of_def um_find_iff [symmetric])
  ultimately have "parents_closed m" unfolding parents_closed_def by (metis prod.collapse)
  then show "parents_closed (m_allocations w')" using m(1) by simp
qed

lemma find_references_internal_effect:
  assumes "um_wf (m_allocations w)" "parents_closed (m_allocations w)"
  obtains w' rs where "find_references_internal api rid addrs w = Some w'"
    "m_reported w' = m_reported w @ [Report_references rid rs]"
    "same_but_visited (m_allocations w) (m_allocations w')" "m_last_gc_frame w' = m_last_gc_frame w"
    "flagged TMP_VISITED (m_allocations w) \<subseteq> flagged TMP_VISITED (m_allocations w')"
    "flagged TMP_VISITED (m_allocations w') \<subseteq>
       flagged TMP_VISITED (m_allocations w) \<union> parent_edges (m_allocations w) `` (or_addr ` set rs)"
    "parent_edges (m_allocations w) `` (or_addr ` set rs) \<subseteq> flagged TMP_VISITED (m_allocations w')"
    "\<forall>x. count_list (map or_addr rs) x + of_bool (x \<in> flagged TMP_VISITED (m_allocations w)) =
       (if x \<in> um_keys (m_allocations w) then count_list addrs x else 0) +
       of_bool (x \<in> flagged TMP_VISITED (m_allocations w'))"
    "or_addr ` set rs \<subseteq> reach (set addrs \<inter> um_keys (m_allocations w)) (parent_edges (m_allocations w))"
    "\<forall>e \<in> set rs. entry_ok (m_allocations w) e"
proof -
  have cr: "count_list (rev addrs) x = count_list addrs x" for x
    by (simp add: count_mset [symmetric])
  from refs_loop_effect [OF assms, of api "fr_full_name w" "rev addrs" "[]", unfolded cr set_rev append_Nil]
  obtain name' m' rs where l: "refs_loop api (fr_full_name w) (m_allocations w) (rev addrs) [] = Some (name', m', rs)"
    "same_but_visited (m_allocations w) m'"
    "flagged TMP_VISITED (m_allocations w) \<subseteq> flagged TMP_VISITED m'"
    "flagged TMP_VISITED m' \<subseteq>
       flagged TMP_VISITED (m_allocations w) \<union> parent_edges (m_allocations w) `` (or_addr ` set rs)"
    "parent_edges (m_allocations w) `` (or_addr ` set rs) \<subseteq> flagged TMP_VISITED m'"
    "\<forall>x. count_list (map or_addr rs) x + of_bool (x \<in> flagged TMP_VISITED (m_allocations w)) =
       (if x \<in> um_keys (m_allocations w) then count_list addrs x else 0) + of_bool (x \<in> flagged TMP_VISITED m')"
    "or_addr ` set rs \<subseteq> reach (set addrs \<inter> um_keys (m_allocations w)) (parent_edges (m_allocations w))"
    "\<forall>e \<in> set rs. entry_ok (m_allocations w) e"
    by (elim exE conjE) (rule that)
  let ?w' = "report (Report_references rid rs) (w\<lparr>fr_full_name := name', m_allocations := m'\<rparr>)"
  have "m_allocations ?w' = m'" "m_reported ?w' = m_reported w @ [Report_references rid rs]"
    "m_last_gc_frame ?w' = m_last_gc_frame w" by (simp_all add: report_def)
  moreover have "find_references_internal api rid addrs w = Some ?w'"
    using l(1) by (simp add: find_references_internal_def)
  ultimately show ?thesis using l(2-) that [of ?w' rs] by presburger
qed

text \<open>The objects that lead to the requested ones through live objects.\<close>

definition referrers :: "memory \<Rightarrow> worker \<Rightarrow> u64 list \<Rightarrow> u64 set" where
  "referrers mem w addrs = reach (set addrs \<inter> um_keys (m_allocations w))
     {(y, x). x \<in> live_set mem w \<and> (x, y) \<in> heap_edges mem (sizes (m_allocations w))}"

lemma refs_all_ancestors:
  assumes "\<forall>x. count_list (map or_addr rs) x + of_bool (x \<in> {}) = (if x \<in> K then count_list addrs x else 0) +
      of_bool (x \<in> V)"
    and "parent_edges m `` (or_addr ` set rs) \<subseteq> V"
    and "or_addr ` set rs \<subseteq> reach (set addrs \<inter> K) (parent_edges m)"
  shows "or_addr ` set rs = reach (set addrs \<inter> K) (parent_edges m)"
proof (rule antisym [OF assms(3)], rule reach_subset)
  have mem: "x \<in> or_addr ` set rs \<longleftrightarrow> x \<in> set addrs \<inter> K \<or> x \<in> V" for x
    using assms(1) [rule_format, of x] count_list_0_iff [of "map or_addr rs" x] count_list_0_iff [of addrs x]
    by (auto split: if_splits)
  then show "set addrs \<inter> K \<subseteq> or_addr ` set rs" by blast
  show "y \<in> or_addr ` set rs" if "x \<in> or_addr ` set rs" "(x, y) \<in> parent_edges m" for x y
    using that assms(2) mem by blast
qed

lemma worker_find_references_effect:
  assumes "um_wf (m_allocations w)" "m_last_gc_frame w < frame"
    and "\<forall>r \<in> set (m_roots w). \<forall>p \<in> set (root_slots r). mem p \<noteq> None"
  obtains w' rs where "worker_find_references api mem rid addrs frame w = Some w'"
    "m_reported w' = m_reported w @ [Report_references rid rs]"
    "or_addr ` set rs = referrers mem w addrs" "\<forall>e \<in> set rs. entry_ok (m_allocations w') e"
    "\<forall>x. x \<notin> set addrs \<longrightarrow> count_list (map or_addr rs) x \<le> 1" "m_last_gc_frame w' = frame"
    "um_wf (m_allocations w')" "parents_closed (m_allocations w')"
    "parent_edges (m_allocations w') =
       {(y, x). x \<in> live_set mem w \<and> (x, y) \<in> heap_edges mem (sizes (m_allocations w))}"
    "um_keys (m_allocations w') = um_keys (m_allocations w)"
    "parent_edges (m_allocations w') `` referrers mem w addrs \<subseteq> flagged TMP_VISITED (m_allocations w')"
proof -
  obtain n w1 where gc: "do_gc_internal mem frame True w = Some (n, w1)"
    using do_gc_returns_iff assms(3) by blast
  note g = gc_parent_graph [OF assms(1) gc]
  let ?w1 = "w1\<lparr>m_last_gc_frame := frame\<rparr>"
  have "um_wf (m_allocations ?w1)" "parents_closed (m_allocations ?w1)" using g by simp_all
  from this obtain w' rs where f: "find_references_internal api rid addrs ?w1 = Some w'"
    "m_reported w' = m_reported ?w1 @ [Report_references rid rs]"
    "same_but_visited (m_allocations ?w1) (m_allocations w')" "m_last_gc_frame w' = frame"
    "parent_edges (m_allocations ?w1) `` (or_addr ` set rs) \<subseteq> flagged TMP_VISITED (m_allocations w')"
    "\<forall>x. count_list (map or_addr rs) x + of_bool (x \<in> flagged TMP_VISITED (m_allocations ?w1)) =
       (if x \<in> um_keys (m_allocations ?w1) then count_list addrs x else 0) +
       of_bool (x \<in> flagged TMP_VISITED (m_allocations w'))"
    "or_addr ` set rs \<subseteq> reach (set addrs \<inter> um_keys (m_allocations ?w1)) (parent_edges (m_allocations ?w1))"
    "\<forall>e \<in> set rs. entry_ok (m_allocations ?w1) e"
    by (rule find_references_internal_effect [where api = api and rid = rid and addrs = addrs]) simp
  note sf = same_facts [OF f(3)]
  have edges: "parent_edges (m_allocations w') = parent_edges (m_allocations w1)"
    using sf(4) by (simp add: parent_edges_def)
  have V: "flagged TMP_VISITED (m_allocations ?w1) = {}" using g(3) by simp
  have all: "or_addr ` set rs = reach (set addrs \<inter> um_keys (m_allocations ?w1)) (parent_edges (m_allocations ?w1))"
    using f(6) [unfolded V] f(5,7) by (rule refs_all_ancestors)
  then have refs: "or_addr ` set rs = referrers mem w addrs"
    using g(4,6) by (simp add: referrers_def)
  show ?thesis
  proof (rule that)
    show "worker_find_references api mem rid addrs frame w = Some w'"
      using assms(2) gc f(1) by (simp add: worker_find_references_def do_gc_sync_def)
    show "m_reported w' = m_reported w @ [Report_references rid rs]" using f(2) g(5) by simp
    show "\<forall>e \<in> set rs. entry_ok (m_allocations w') e" using f(8) entry_ok_same [OF f(3)] by simp
    show "\<forall>x. x \<notin> set addrs \<longrightarrow> count_list (map or_addr rs) x \<le> 1"
    proof (intro allI impI)
      fix x
      assume "x \<notin> set addrs"
      then show "count_list (map or_addr rs) x \<le> 1"
        using f(6) [rule_format, of x, unfolded V] count_list_0_iff [of addrs x] by simp
    qed
    show "um_wf (m_allocations w')" "parents_closed (m_allocations w')" "m_last_gc_frame w' = frame"
      using sf g f(4) by simp_all
    show "parent_edges (m_allocations w') =
       {(y, x). x \<in> live_set mem w \<and> (x, y) \<in> heap_edges mem (sizes (m_allocations w))}"
      unfolding edges by (rule g(6))
    show "um_keys (m_allocations w') = um_keys (m_allocations w)" using sf(3) g(4) by simp
    show "parent_edges (m_allocations w') `` referrers mem w addrs \<subseteq> flagged TMP_VISITED (m_allocations w')"
      unfolding edges refs [symmetric] using f(5) by simp
  qed (rule refs)
qed


text \<open>
  C25. A request for references in a frame later than the last collection returns, and reports
  exactly the requested objects that are in the table together with every live object that
  leads to one of them through pointers; no unrequested object is reported twice, and each
  report carries the recorded parents and the root and deletion marks of its object.
\<close>

theorem find_references_complete:
  assumes "um_wf (m_allocations w)" "m_last_gc_frame w < frame"
    and "\<forall>r \<in> set (m_roots w). \<forall>p \<in> set (root_slots r). mem p \<noteq> None"
  shows "\<exists>w' rs. worker_find_references api mem rid addrs frame w = Some w' \<and>
    m_reported w' = m_reported w @ [Report_references rid rs] \<and>
    or_addr ` set rs = referrers mem w addrs \<and>
    (\<forall>x. x \<notin> set addrs \<longrightarrow> count_list (map or_addr rs) x \<le> 1) \<and>
    (\<forall>e \<in> set rs. entry_ok (m_allocations w') e)"
  by (rule worker_find_references_effect [OF assms, of api rid addrs]) blast

text \<open>
  A second request for the same objects in the same frame finds the marks of the first one
  still set: it reports the requested objects alone and none of the objects that refer to
  them.
\<close>

theorem find_references_repeated:
  assumes "um_wf (m_allocations w)" "m_last_gc_frame w < frame"
    and "\<forall>r \<in> set (m_roots w). \<forall>p \<in> set (root_slots r). mem p \<noteq> None"
    and "worker_find_references api mem rid addrs frame w = Some w1"
  shows "\<exists>w2 rs. worker_find_references api mem rid2 addrs frame w1 = Some w2 \<and>
    m_reported w2 = m_reported w1 @ [Report_references rid2 rs] \<and>
    or_addr ` set rs = set addrs \<inter> um_keys (m_allocations w)"
proof -
  let ?m = "m_allocations w1"
  obtain first: "m_last_gc_frame w1 = frame" "um_wf ?m" "parents_closed ?m"
    "parent_edges ?m = {(y, x). x \<in> live_set mem w \<and> (x, y) \<in> heap_edges mem (sizes (m_allocations w))}"
    "um_keys ?m = um_keys (m_allocations w)"
    "parent_edges ?m `` referrers mem w addrs \<subseteq> flagged TMP_VISITED ?m"
    by (rule worker_find_references_effect [OF assms(1-3), of api rid addrs]) (use assms(4) in simp)
  obtain w2 rs where f: "find_references_internal api rid2 addrs w1 = Some w2"
    "m_reported w2 = m_reported w1 @ [Report_references rid2 rs]"
    "flagged TMP_VISITED (m_allocations w2) \<subseteq> flagged TMP_VISITED ?m \<union> parent_edges ?m `` (or_addr ` set rs)"
    "\<forall>x. count_list (map or_addr rs) x + of_bool (x \<in> flagged TMP_VISITED ?m) =
       (if x \<in> um_keys ?m then count_list addrs x else 0) + of_bool (x \<in> flagged TMP_VISITED (m_allocations w2))"
    "or_addr ` set rs \<subseteq> reach (set addrs \<inter> um_keys ?m) (parent_edges ?m)"
    "flagged TMP_VISITED ?m \<subseteq> flagged TMP_VISITED (m_allocations w2)"
    by (rule find_references_internal_effect [OF first(2,3), of api rid2 addrs])
  have "or_addr ` set rs \<subseteq> referrers mem w addrs" using f(5) first(4,5) by (simp add: referrers_def)
  then have "flagged TMP_VISITED (m_allocations w2) = flagged TMP_VISITED ?m"
    using f(3,6) first(6) by blast
  then have "count_list (map or_addr rs) x = (if x \<in> um_keys ?m then count_list addrs x else 0)" for x
    using f(4) [rule_format, of x] by simp
  then have "x \<in> set (map or_addr rs) \<longleftrightarrow> x \<in> set addrs \<and> x \<in> um_keys ?m" for x
    by (metis count_list_0_iff)
  then have "or_addr ` set rs = set addrs \<inter> um_keys (m_allocations w)"
    unfolding first(5) by auto
  with f(1,2) first(1) show ?thesis by (auto simp: worker_find_references_def)
qed

section \<open>An example\<close>

definition example_api :: mono_api where
  "example_api = \<lparr>get_class_namespace = (\<lambda>_. Some (chars ''Game'')), get_class_name = (\<lambda>_. chars ''Unit''),
     get_method_name = (\<lambda>_. chars ''Spawn''), method_get_class = (\<lambda>_. 1),
     object_get_class = (\<lambda>_. Some 1), object_get_size = (\<lambda>_. 16), stack_walk = [77]\<rparr>"

lemma example_live: "live_set example_memory example_worker = {1000, 2000}"
  by (rule gc_table [OF example_wf example_gc])
    (drule arg_cong [where f = m_allocations], use example_flagged in simp)

lemma example_referrers: "referrers example_memory example_worker [2000] = {2000, 1000}"
proof -
  let ?s = "sizes (m_allocations example_worker)"
  have "map_of ?s 1000 = Some 12" "2000 \<in> fst ` set ?s" by (simp_all add: sizes_def example_worker_def)
  moreover have "2000 \<in> set (map (get_ptr_safe example_memory) (object_slots 1000 12))"
    by (simp add: object_slots_def get_ptr_safe_def example_memory_def upt_rec)
  ultimately have e: "(1000, 2000) \<in> heap_edges example_memory ?s"
    by (simp add: heap_edges_def pointers_def)
  show ?thesis unfolding referrers_def example_live
  proof (rule antisym)
    show "reach (set [2000] \<inter> um_keys (m_allocations example_worker))
       {(y, x). x \<in> {1000, 2000} \<and> (x, y) \<in> heap_edges example_memory ?s} \<subseteq> {2000, 1000}"
      by (rule reach_subset) auto
    have "2000 \<in> reach (set [2000] \<inter> um_keys (m_allocations example_worker))
       {(y, x). x \<in> {1000, 2000} \<and> (x, y) \<in> heap_edges example_memory ?s}"
      by (rule subsetD [OF reach_base]) (simp add: example_worker_def)
    with reach_step [OF this, of 1000] e show "{2000, 1000} \<subseteq> reach (set [2000] \<inter> um_keys (m_allocations example_worker))
       {(y, x). x \<in> {1000, 2000} \<and> (x, y) \<in> heap_edges example_memory ?s}" by simp
  qed
qed

lemma example_frame: "m_last_gc_frame example_worker < 7"
  by (simp add: example_worker_def new_worker_def)

theorem find_references_complete_witness:
  "um_wf (m_allocations example_worker) \<and> m_last_gc_frame example_worker < 7 \<and>
   (\<exists>w' rs. worker_find_references example_api example_memory 1 [2000] 7 example_worker = Some w' \<and>
      m_reported w' = [Report_references 1 rs] \<and> or_addr ` set rs = {2000, 1000})"
proof -
  have "m_reported example_worker = []" by (simp add: example_worker_def new_worker_def)
  with find_references_complete [OF example_wf example_frame example_roots_mapped, of example_api 1 "[2000]"]
  have "\<exists>w' rs. worker_find_references example_api example_memory 1 [2000] 7 example_worker = Some w' \<and>
      m_reported w' = [Report_references 1 rs] \<and> or_addr ` set rs = {2000, 1000}"
    unfolding example_referrers by auto
  with example_wf example_frame show ?thesis by blast
qed

theorem find_references_repeated_witness:
  "\<exists>w1 w2 rs. worker_find_references example_api example_memory 1 [2000] 7 example_worker = Some w1 \<and>
     worker_find_references example_api example_memory 2 [2000] 7 w1 = Some w2 \<and>
     m_reported w2 = m_reported w1 @ [Report_references 2 rs] \<and> or_addr ` set rs = {2000}"
proof -
  obtain w1 where w1: "worker_find_references example_api example_memory 1 [2000] 7 example_worker = Some w1"
    by (rule worker_find_references_effect [OF example_wf example_frame example_roots_mapped])
  have "set [2000] \<inter> um_keys (m_allocations example_worker) = {2000}" by (auto simp: example_worker_def)
  with w1 find_references_repeated [OF example_wf example_frame example_roots_mapped w1, of 2]
  show ?thesis by auto
qed

end
