(* ===== verification/Worker_Inv.thy ===== *)
theory Worker_Inv
  imports Worker_Refs
begin

text \<open>
  The worker as a state machine. The threads that touch a worker (the application's threads,
  the runtime's collector callback, the worker thread itself, the server's command handlers)
  interleave at the granularity of the operations below: each of them holds the mutex it
  needs for the whole of its effect. Invariants are proved for every interleaving.
\<close>

section \<open>Operations and runs\<close>

datatype wop =
    Op_start
  | Op_stop
  | Op_allocation mono_api u64 u64 u64
  | Op_work mono_api
  | Op_gc memory u64 bool
  | Op_register_root u64 u64
  | Op_unregister_root u64
  | Op_references mono_api memory u64 "u64 list" u64
  | Op_pause u64
  | Op_resume u64

text \<open>
  The collection waits until the flag \<^verbatim>\<open>m_work_items_empty\<close> is set. \<open>None\<close>: the operation
  cannot run in this state (it would wait), or it faults.
\<close>

fun wexec :: "wop \<Rightarrow> worker \<Rightarrow> worker option" where
  "wexec Op_start w = Some (start_thread w)"
| "wexec Op_stop w = Some (stop_thread w)"
| "wexec (Op_allocation api frame klass obj) w =
     (case add_allocation_async api frame klass obj w of Returns w' \<Rightarrow> Some w' | _ \<Rightarrow> None)"
| "wexec (Op_work api) w = (if wt_thread w \<and> \<not> wt_stop w then Some (do_work_step api w) else None)"
| "wexec (Op_gc mem frame only) w =
     (if m_work_items_empty w then map_option snd (do_gc_sync mem frame only w) else None)"
| "wexec (Op_register_root start n) w = Some (register_root start n w)"
| "wexec (Op_unregister_root start) w = Some (unregister_root start w)"
| "wexec (Op_references api mem rid addrs frame) w =
     (if frame > m_last_gc_frame w \<and> \<not> m_work_items_empty w then None
      else worker_find_references api mem rid addrs frame w)"
| "wexec (Op_pause rid) w = Some (worker_pause_app rid w)"
| "wexec (Op_resume rid) w = Some (worker_resume_app rid w)"

inductive wstep :: "worker \<Rightarrow> worker \<Rightarrow> bool" where
  wstep: "wexec op w = Some w' \<Longrightarrow> wstep w w'"

inductive_cases wstepE: "wstep w w'"

section \<open>The table stays well formed\<close>

definition worker_wf :: "worker \<Rightarrow> bool" where
  "worker_wf w \<longleftrightarrow> um_wf (m_allocations w) \<and> parents_closed (m_allocations w)"

lemma worker_wf_cong: "m_allocations w' = m_allocations w \<Longrightarrow> worker_wf w' = worker_wf w"
  by (simp add: worker_wf_def)

lemma parents_closed_Nil [simp]: "parents_closed []"
  by (simp add: parents_closed_def)

lemma parents_closed_insert:
  "parents_closed m \<Longrightarrow> parents_closed (um_insert k \<lparr>ai_size = n, ai_flags = f, ai_parents = []\<rparr> m)"
  by (auto simp: parents_closed_def um_insert_def)

lemma parents_closed_modify:
  assumes "parents_closed m" "\<And>a. ai_parents (f a) = ai_parents a"
  shows "parents_closed (um_modify k f m)"
  unfolding parents_closed_def um_keys_modify
proof
  fix p
  assume "p \<in> set (um_modify k f m)"
  then obtain a where "(fst p, a) \<in> set m" "ai_parents (snd p) = ai_parents a"
    using assms(2) by (auto simp: um_modify_def)
  with assms(1) show "set (ai_parents (snd p)) \<subseteq> um_keys m" unfolding parents_closed_def by (metis snd_conv)
qed

lemma wf_add_allocation: "worker_wf w \<Longrightarrow> worker_wf (add_allocation addr n frame w)"
  by (auto simp: worker_wf_def add_allocation_def report_def Let_def
      intro: um_wf_insert parents_closed_insert um_wf_modify parents_closed_modify split: option.splits)

lemma wf_process_item: "worker_wf w \<Longrightarrow> worker_wf (process_item api item w)"
  using wf_add_allocation [of w "wi_obj item" "wi_size item" "wi_frame item"]
  by (auto simp: process_item_def report_def Let_def worker_wf_def split: option.splits)

lemma gc_closed:
  assumes "worker_wf w" "do_gc_internal mem frame only w = Some (n, w')"
  shows "worker_wf w'"
proof (cases only)
  case True
  then have "do_gc_internal mem frame True w = Some (n, w')" using assms(2) by simp
  then show ?thesis using assms(1) gc_parent_graph(1,2) unfolding worker_wf_def by blast
next
  case False
  have wf: "um_wf (m_allocations w)" using assms(1) by (simp add: worker_wf_def)
  obtain m where m: "w' = gc_sweep frame (w\<lparr>m_allocations := m\<rparr>)" "um_wf m"
    "flagged TMP_ALLOCATED m = live_set mem w"
    "\<And>x y. count_list (parents_of m y) x = (if x \<in> live_set mem w \<and> y \<in> um_keys (m_allocations w)
           then count_list (pointers mem (sizes (m_allocations w)) x) y else 0)"
    by (rule gc_table [OF wf assms(2)]) (simp add: False)
  let ?live = "filter (\<lambda>p. flag (snd p) TMP_ALLOCATED) m"
  have keys: "um_keys ?live = live_set mem w"
    unfolding m(3) [symmetric] using m(2)
    by (force simp: flagged_def um_find_iff)
  have "set (ai_parents a) \<subseteq> live_set mem w" if "(k, a) \<in> set m" for k a
  proof
    fix x
    assume "x \<in> set (ai_parents a)"
    then have "x \<in> set (parents_of m k)" using that m(2) by (simp add: parents_of_def um_find_iff [symmetric])
    then show "x \<in> live_set mem w" using m(4) [of k x] by (metis count_list_0_iff)
  qed
  then have "parents_closed ?live" unfolding parents_closed_def keys by auto
  moreover have "m_allocations w' = ?live" using m(1) by (simp add: gc_sweep_def Let_def)
  ultimately show ?thesis using um_wf_filter [OF m(2)] by (simp add: worker_wf_def)
qed

lemma wf_find_references_internal:
  assumes "worker_wf w" "find_references_internal api rid addrs w = Some w'"
  shows "worker_wf w'"
proof -
  have wf: "um_wf (m_allocations w)" "parents_closed (m_allocations w)"
    using assms(1) by (simp_all add: worker_wf_def)
  have "same_but_visited (m_allocations w) (m_allocations w')"
    by (rule find_references_internal_effect [OF wf, of api rid addrs]) (use assms(2) in simp)
  from same_facts(2,5) [OF this] wf show ?thesis by (simp add: worker_wf_def)
qed

lemma wf_do_gc_sync:
  assumes "worker_wf w" "do_gc_sync mem frame only w = Some (n, w')"
  shows "worker_wf w'"
proof -
  obtain w1 where "do_gc_internal mem frame only w = Some (n, w1)" "w' = w1\<lparr>m_last_gc_frame := frame\<rparr>"
    using assms(2) by (auto simp: do_gc_sync_def)
  with gc_closed [OF assms(1)] worker_wf_cong [of w' w1] show ?thesis by simp
qed

lemma wf_worker_find_references:
  assumes "worker_wf w" "worker_find_references api mem rid addrs frame w = Some w'"
  shows "worker_wf w'"
proof (cases "frame > m_last_gc_frame w")
  case True
  then obtain n w1 where "do_gc_sync mem frame True w = Some (n, w1)"
    "find_references_internal api rid addrs w1 = Some w'"
    using assms(2) by (auto simp: worker_find_references_def split: option.splits)
  then show ?thesis using assms(1) wf_do_gc_sync wf_find_references_internal by blast
next
  case False
  then show ?thesis using assms wf_find_references_internal
    by (simp add: worker_find_references_def)
qed

lemma wf_do_work_step: "worker_wf w \<Longrightarrow> worker_wf (do_work_step api w)"
  by (auto simp: do_work_step_def Let_def worker_wf_cong [of "w\<lparr>m_work_items_empty := _\<rparr>" w]
      worker_wf_cong [of "w\<lparr>m_work_items_empty := _, m_work_items := _\<rparr>" w]
      intro: wf_process_item split: option.splits)

lemmas worker_op_defs = start_thread_def stop_thread_def do_work_exit_def add_allocation_async_def
  register_root_def unregister_root_def worker_pause_app_def worker_resume_app_def report_def

lemma wf_wexec:
  assumes "worker_wf w" "wexec op w = Some w'"
  shows "worker_wf w'"
proof (cases op)
  case (Op_work api)
  then show ?thesis using assms wf_do_work_step by (auto split: if_splits)
next
  case (Op_gc mem frame only)
  then show ?thesis using assms wf_do_gc_sync by (auto split: if_splits)
next
  case (Op_references api mem rid addrs frame)
  then show ?thesis using assms wf_worker_find_references by (auto split: if_splits)
qed (use assms in \<open>auto simp: worker_op_defs worker_wf_def Let_def split: if_splits\<close>)

definition worker_init :: "worker \<Rightarrow> bool" where
  "worker_init w \<longleftrightarrow> w = new_worker"

interpretation wf: invariant_machine worker_init wstep worker_wf
proof unfold_locales
  show "worker_wf s" if "worker_init s" for s
    using that by (simp add: worker_init_def new_worker_def worker_wf_def)
  show "worker_wf t" if "worker_wf s" "wstep s t" for s t
    using that wf_wexec by (auto elim: wstepE)
qed


section \<open>The byte counters\<close>

definition live_bytes :: "allocations_map \<Rightarrow> u64" where
  "live_bytes m = (\<Sum>p \<leftarrow> m. ucast (ai_size (snd p)))"

definition free_bytes :: "work_item list \<Rightarrow> u64" where
  "free_bytes q = (\<Sum>i \<leftarrow> filter (\<lambda>i. wi_type i = Wi_free) q. ucast (wi_size i))"

text \<open>All arithmetic is modulo \<open>2^64\<close>, as the counters are.\<close>

definition conserved :: "worker \<Rightarrow> bool" where
  "conserved w \<longleftrightarrow> wt_stop w \<or>
     m_allocated w = m_freed w + live_bytes (m_allocations w) + free_bytes (m_work_items w)"

lemma live_bytes_insert:
  "um_find m k = None \<Longrightarrow> live_bytes (um_insert k a m) = live_bytes m + ucast (ai_size a)"
  by (simp add: um_insert_def live_bytes_def)

lemma live_bytes_modify:
  assumes "um_wf m" "um_find m k = Some a"
  shows "live_bytes (um_modify k f m) + ucast (ai_size a) = live_bytes m + ucast (ai_size (f a))"
  using assms
proof (induction m)
  case (Cons p m)
  show ?case
  proof (cases "fst p = k")
    case True
    with Cons.prems have "um_modify k f m = m" "snd p = a"
      by (auto simp: um_wf_def um_modify_absent)
    with True show ?thesis by (simp add: live_bytes_def)
  next
    case False
    with Cons.prems have "um_wf m" "um_find m k = Some a" by (auto simp: um_wf_def)
    with Cons.IH False show ?thesis by (simp add: live_bytes_def add.assoc)
  qed
qed simp

lemma live_bytes_sizes: "live_bytes m = (\<Sum>q \<leftarrow> sizes m. ucast (snd q))"
  by (simp add: live_bytes_def sizes_def comp_def)

lemma free_bytes_append: "free_bytes (q @ r) = free_bytes q + free_bytes r"
  by (simp add: free_bytes_def)

lemma sum_list_partition:
  fixes f :: "'a \<Rightarrow> 'b::comm_monoid_add"
  shows "(\<Sum>x \<leftarrow> xs. f x) = (\<Sum>x \<leftarrow> filter P xs. f x) + (\<Sum>x \<leftarrow> filter (\<lambda>x. \<not> P x) xs. f x)"
  by (induction xs) (auto simp: ac_simps)

lemma free_bytes_free_of: "free_bytes (map (free_of frame) qs) = (\<Sum>q \<leftarrow> qs. ucast (snd q))"
  by (induction qs) (auto simp: free_bytes_def free_of_def)

lemma conserved_add_allocation:
  assumes "um_wf (m_allocations w)"
  shows "m_freed (add_allocation addr n frame w) + live_bytes (m_allocations (add_allocation addr n frame w)) =
      m_freed w + live_bytes (m_allocations w) + ucast n"
    and "m_work_items (add_allocation addr n frame w) = m_work_items w"
    and "m_allocated (add_allocation addr n frame w) = m_allocated w"
    and "wt_stop (add_allocation addr n frame w) = wt_stop w"
proof -
  show "m_work_items (add_allocation addr n frame w) = m_work_items w"
    "m_allocated (add_allocation addr n frame w) = m_allocated w"
    "wt_stop (add_allocation addr n frame w) = wt_stop w"
    by (auto simp: add_allocation_def report_def Let_def split: option.splits)
  show "m_freed (add_allocation addr n frame w) + live_bytes (m_allocations (add_allocation addr n frame w)) =
      m_freed w + live_bytes (m_allocations w) + ucast n"
  proof (cases "um_find (m_allocations w) addr")
    case None
    then show ?thesis by (simp add: add_allocation_def live_bytes_insert)
  next
    case (Some old)
    with live_bytes_modify [OF assms Some, of "\<lambda>a. a\<lparr>ai_size := n\<rparr>"] show ?thesis
      by (simp add: add_allocation_def report_def Let_def algebra_simps)
  qed
qed

lemma conserved_process_item:
  assumes "um_wf (m_allocations w)"
    and "m_allocated w = m_freed w + live_bytes (m_allocations w) + free_bytes (item # m_work_items w)"
  shows "conserved (process_item api item w)"
proof -
  note add = conserved_add_allocation [OF assms(1), of "wi_obj item" "wi_size item" "wi_frame item"]
  show ?thesis
  proof (cases "wi_type item")
    case Wi_free
    with assms(2) show ?thesis
      by (simp add: process_item_def report_def conserved_def free_bytes_def algebra_simps)
  next
    case Wi_alloc
    then have "free_bytes (item # m_work_items w) = free_bytes (m_work_items w)"
      by (simp add: free_bytes_def)
    with assms(2) add Wi_alloc show ?thesis
      by (auto simp: process_item_def Let_def report_def conserved_def algebra_simps split: option.splits)
  qed
qed

lemma conserved_cong:
  assumes "m_allocated w' = m_allocated w" "m_freed w' = m_freed w" "m_work_items w' = m_work_items w"
    and "sizes (m_allocations w') = sizes (m_allocations w)" "wt_stop w' = wt_stop w"
  shows "conserved w' = conserved w"
  using assms by (simp add: conserved_def live_bytes_sizes)

lemma conserved_do_work_step:
  assumes "worker_wf w" "conserved w" "\<not> wt_stop w"
  shows "conserved (do_work_step api w)"
proof (cases "m_work_items w")
  case Nil
  then show ?thesis using assms(2) conserved_cong [of "do_work_step api w" w]
    by (simp add: do_work_step_def)
next
  case (Cons item q)
  with assms conserved_process_item [of "w\<lparr>m_work_items_empty := False, m_work_items := q\<rparr>" item api]
  show ?thesis by (simp add: do_work_step_def conserved_def worker_wf_def)
qed

lemma gc_counters:
  assumes "do_gc_internal mem frame only w = Some (n, w')"
  shows "m_allocated w' = m_allocated w" "m_freed w' = m_freed w" "wt_stop w' = wt_stop w"
    "m_reported w' = m_reported w"
  using assms by (auto simp: do_gc_internal_def gc_sweep_def Let_def split: option.splits prod.splits if_splits)

lemma conserved_do_gc:
  assumes "worker_wf w" "conserved w" "do_gc_sync mem frame only w = Some (n, w')"
  shows "conserved w'"
proof -
  obtain w1 where gc: "do_gc_internal mem frame only w = Some (n, w1)" and w': "w' = w1\<lparr>m_last_gc_frame := frame\<rparr>"
    using assms(3) by (auto simp: do_gc_sync_def)
  have wf: "um_wf (m_allocations w)" using assms(1) by (simp add: worker_wf_def)
  have "conserved w1"
  proof (cases only)
    case True
    have "sizes (m_allocations w1) = sizes (m_allocations w) \<and> m_work_items w1 = m_work_items w"
      by (rule gc_table [OF wf gc]) (simp add: True)
    then show ?thesis using assms(2) gc_counters [OF gc] conserved_cong by metis
  next
    case False
    then have "do_gc_internal mem frame False w = Some (n, w1)" using gc by simp
    note sw = gc_swept(1,2) [OF wf this]
    have "live_bytes (m_allocations w1) + free_bytes (m_work_items w1) =
        live_bytes (m_allocations w) + free_bytes (m_work_items w)"
      unfolding live_bytes_sizes sw free_bytes_append free_bytes_free_of
      using sum_list_partition [of "\<lambda>q. ucast (snd q) :: u64" "sizes (m_allocations w)" "\<lambda>q. fst q \<in> live_set mem w"]
      by (simp add: algebra_simps)
    then show ?thesis using assms(2) gc_counters [OF gc] by (simp add: conserved_def add.assoc)
  qed
  then show ?thesis using w' conserved_cong [of w' w1] by simp
qed

lemma conserved_find_references_internal:
  assumes "worker_wf w" "conserved w" "find_references_internal api rid addrs w = Some w'"
  shows "conserved w'"
proof -
  have wf: "um_wf (m_allocations w)" "parents_closed (m_allocations w)"
    using assms(1) by (simp_all add: worker_wf_def)
  have "same_but_visited (m_allocations w) (m_allocations w')"
    by (rule find_references_internal_effect [OF wf, of api rid addrs]) (use assms(3) in simp)
  then have "sizes (m_allocations w') = sizes (m_allocations w)" by (rule same_facts)
  then show ?thesis using assms(2,3) conserved_cong [of w' w]
    by (auto simp: find_references_internal_def report_def split: option.splits)
qed

lemma conserved_worker_find_references:
  assumes "worker_wf w" "conserved w" "worker_find_references api mem rid addrs frame w = Some w'"
  shows "conserved w'"
proof (cases "frame > m_last_gc_frame w")
  case True
  then obtain n w1 where "do_gc_sync mem frame True w = Some (n, w1)"
    "find_references_internal api rid addrs w1 = Some w'"
    using assms(3) by (auto simp: worker_find_references_def split: option.splits)
  then show ?thesis using assms wf_do_gc_sync conserved_do_gc conserved_find_references_internal by blast
next
  case False
  then show ?thesis using assms conserved_find_references_internal
    by (simp add: worker_find_references_def)
qed

lemma conserved_wexec:
  assumes "worker_wf w" "conserved w" "wexec op w = Some w'"
  shows "conserved w'"
proof (cases op)
  case (Op_work api)
  then show ?thesis using assms conserved_do_work_step by (auto split: if_splits)
next
  case (Op_gc mem frame only)
  then show ?thesis using assms conserved_do_gc by (auto split: if_splits)
next
  case (Op_references api mem rid addrs frame)
  then show ?thesis using assms conserved_worker_find_references by (auto split: if_splits)
qed (use assms in \<open>auto simp: worker_op_defs conserved_def Let_def free_bytes_append enqueue_def
    free_bytes_def split: if_splits\<close>)

interpretation bal: invariant_machine worker_init wstep "\<lambda>w. worker_wf w \<and> conserved w"
proof unfold_locales
  show "worker_wf s \<and> conserved s" if "worker_init s" for s
    using that wf.init_inv [OF that]
    by (simp add: worker_init_def new_worker_def conserved_def live_bytes_def free_bytes_def)
  show "worker_wf t \<and> conserved t" if "worker_wf s \<and> conserved s" "wstep s t" for s t
    using that wf_wexec conserved_wexec by (auto elim: wstepE)
qed

text \<open>
  C24. While the worker runs, its counters balance: the bytes reported as allocated are the bytes
  reported as freed, plus the sizes in the table, plus the sizes of the free events still
  waiting in the queue.
\<close>

theorem worker_bytes_conserved:
  assumes "steps wstep new_worker w" "\<not> wt_stop w"
  shows "m_allocated w = m_freed w + live_bytes (m_allocations w) + free_bytes (m_work_items w)"
  using bal.reachable_inv [of new_worker w] assms by (simp add: worker_init_def conserved_def)

section \<open>The stream of events\<close>

text \<open>
  A listener that keeps the set of live objects from the reported events. It gets stuck on the
  allocation of an address it believes to be live, and on a free of an unknown address or with
  another size.
\<close>

fun replay_event :: "sink_event \<Rightarrow> (u64 \<rightharpoonup> u32) \<Rightarrow> (u64 \<rightharpoonup> u32) option" where
  "replay_event (Report_alloc frame addr n name stack) M =
     (if M addr = None then Some (M(addr \<mapsto> n)) else None)"
| "replay_event (Report_free frame addr n) M =
     (if M addr = Some n then Some (M(addr := None)) else None)"
| "replay_event _ M = Some M"

fun replay :: "sink_event list \<Rightarrow> (u64 \<rightharpoonup> u32) \<Rightarrow> (u64 \<rightharpoonup> u32) option" where
  "replay [] M = Some M"
| "replay (e # es) M = (case replay_event e M of None \<Rightarrow> None | Some M' \<Rightarrow> replay es M')"

lemma replay_append: "replay (xs @ ys) M = Option.bind (replay xs M) (replay ys)"
  by (induction xs arbitrary: M) (auto split: option.splits)

definition is_free :: "work_item \<Rightarrow> bool" where
  "is_free i \<longleftrightarrow> wi_type i = Wi_free"

definition pending :: "work_item list \<Rightarrow> (u64 \<times> u32) list" where
  "pending q = map (\<lambda>i. (wi_obj i, wi_size i)) (filter is_free q)"

text \<open>What the listener should believe: the table and the frees that are still to come.\<close>

definition expected :: "worker \<Rightarrow> (u64 \<times> u32) list" where
  "expected w = sizes (m_allocations w) @ pending (m_work_items w)"

definition frees_first :: "work_item list \<Rightarrow> bool" where
  "frees_first q \<longleftrightarrow> filter is_free (dropWhile is_free q) = []"

definition stream_ok :: "worker \<Rightarrow> bool" where
  "stream_ok w \<longleftrightarrow> wt_stop w \<or>
     frees_first (m_work_items w) \<and> distinct (map fst (expected w)) \<and>
     replay (m_reported w) Map.empty = Some (map_of (expected w))"

text \<open>A collection that starts with an empty queue, as \<^verbatim>\<open>do_gc_sync\<close> means to.\<close>

fun quiet :: "wop \<Rightarrow> worker \<Rightarrow> bool" where
  "quiet (Op_gc mem frame only) w = (only \<or> m_work_items w = [])"
| "quiet _ w = True"

inductive wstep_quiet :: "worker \<Rightarrow> worker \<Rightarrow> bool" where
  wstep_quiet: "wexec op w = Some w' \<Longrightarrow> quiet op w \<Longrightarrow> wstep_quiet w w'"

inductive_cases wstep_quietE: "wstep_quiet w w'"

lemma map_of_remove:
  assumes "distinct (map fst (xs @ (k, v) # ys))"
  shows "map_of (xs @ (k, v) # ys) k = Some v"
    and "map_of (xs @ ys) = (map_of (xs @ (k, v) # ys))(k := None)"
proof -
  have "k \<notin> fst ` set xs" "k \<notin> fst ` set ys" using assms by auto
  then have n: "map_of xs k = None" "map_of ys k = None" by (simp_all add: map_of_eq_None_iff)
  then show "map_of (xs @ (k, v) # ys) k = Some v" by (simp add: map_add_def)
  show "map_of (xs @ ys) = (map_of (xs @ (k, v) # ys))(k := None)"
    using n by (auto simp: map_add_def fun_eq_iff split: option.splits)
qed

lemma distinct_sizes [simp]: "distinct (map fst (sizes m)) = um_wf m"
  by (simp add: sizes_def um_wf_def comp_def)

lemma stream_alloc:
  assumes wf: "um_wf (m_allocations w)"
    and r: "replay (m_reported w) Map.empty = Some (map_of (sizes (m_allocations w)))"
  shows "replay (m_reported (add_allocation addr n frame w) @ [Report_alloc f addr n name stack]) Map.empty =
    Some (map_of (sizes (m_allocations (add_allocation addr n frame w))))"
proof (cases "um_find (m_allocations w) addr")
  case None
  then have "map_of (sizes (m_allocations w)) addr = None" by (simp add: find_sizes)
  moreover have "sizes (um_insert addr \<lparr>ai_size = n, ai_flags = 0, ai_parents = []\<rparr> (m_allocations w)) =
      sizes (m_allocations w) @ [(addr, n)]" using None by (simp add: um_insert_def sizes_def)
  ultimately show ?thesis using None r
    by (auto simp: add_allocation_def replay_append map_add_def fun_eq_iff split: option.splits)
next
  case (Some old)
  let ?m = "um_modify addr (\<lambda>a. a\<lparr>ai_size := n\<rparr>) (m_allocations w)"
  have "map_of (sizes (m_allocations w)) addr = Some (ai_size old)" using Some by (simp add: find_sizes)
  moreover have "map_of (sizes ?m) = (map_of (sizes (m_allocations w)))(addr \<mapsto> n)"
    using Some by (auto simp: find_sizes um_find_modify fun_eq_iff)
  ultimately show ?thesis using Some r
    by (simp add: add_allocation_def report_def Let_def replay_append)
qed


lemma frees_first_Cons_alloc: "frees_first (i # q) \<Longrightarrow> \<not> is_free i \<Longrightarrow> frees_first q \<and> pending q = []"
  by (auto simp: frees_first_def pending_def filter_empty_conv dest: set_dropWhileD)

lemma frees_first_append: "frees_first q \<Longrightarrow> \<not> is_free i \<Longrightarrow> frees_first (q @ [i])"
  by (induction q) (auto simp: frees_first_def split: if_splits)

lemma frees_first_all: "(\<And>i. i \<in> set q \<Longrightarrow> is_free i) \<Longrightarrow> frees_first q"
  by (induction q) (simp_all add: frees_first_def)

lemma stream_process_item:
  assumes wf: "worker_wf w" and q: "frees_first (item # m_work_items w)"
    and d: "distinct (map fst (sizes (m_allocations w) @ pending (item # m_work_items w)))"
    and r: "replay (m_reported w) Map.empty =
      Some (map_of (sizes (m_allocations w) @ pending (item # m_work_items w)))"
  shows "stream_ok (process_item api item w)"
proof (cases "wi_type item")
  case Wi_free
  then have p: "pending (item # m_work_items w) = (wi_obj item, wi_size item) # pending (m_work_items w)"
    and q': "frees_first (m_work_items w)" using q
    by (simp_all add: pending_def is_free_def frees_first_def)
  note rem = map_of_remove [OF d [unfolded p]]
  have "replay (m_reported w @ [Report_free (wi_frame item) (wi_obj item) (wi_size item)]) Map.empty =
      Some (map_of (sizes (m_allocations w) @ pending (m_work_items w)))"
    using r unfolding p replay_append rem(2) by (simp add: rem(1) del: map_of_append)
  with Wi_free q' d p show ?thesis
    by (simp add: process_item_def report_def stream_ok_def expected_def)
next
  case Wi_alloc
  then have q': "frees_first (m_work_items w)" "pending (m_work_items w) = []"
    and p: "pending (item # m_work_items w) = []"
    using frees_first_Cons_alloc [OF q] by (auto simp: is_free_def pending_def)
  have wfm: "um_wf (m_allocations w)" using wf by (simp add: worker_wf_def)
  let ?w1 = "add_allocation (wi_obj item) (wi_size item) (wi_frame item) w"
  have wf1: "um_wf (m_allocations ?w1)" using wf_add_allocation [OF wf] by (simp add: worker_wf_def)
  have items: "m_work_items ?w1 = m_work_items w" using conserved_add_allocation(2) [OF wfm] .
  have "replay (m_reported w) Map.empty = Some (map_of (sizes (m_allocations w)))" using r p by simp
  note al = stream_alloc [OF wfm this]
  show ?thesis
  proof (cases "backtrace_text api (m_stopwords w) (wi_backtrace item) []")
    case None
    with Wi_alloc q' r p wfm show ?thesis
      by (simp add: process_item_def Let_def stream_ok_def expected_def)
  next
    case (Some str)
    with Wi_alloc q' al wf1 items show ?thesis
      by (simp add: process_item_def Let_def report_def stream_ok_def expected_def)
  qed
qed

lemma stream_cong:
  assumes "m_reported w' = m_reported w" "m_work_items w' = m_work_items w"
    and "sizes (m_allocations w') = sizes (m_allocations w)" "wt_stop w' = wt_stop w"
  shows "stream_ok w' = stream_ok w"
  using assms by (simp add: stream_ok_def expected_def)

lemma stream_neutral:
  assumes "m_reported w' = m_reported w @ [e]" "\<And>M. replay_event e M = Some M"
    and "m_work_items w' = m_work_items w" "wt_stop w' = wt_stop w"
    and "sizes (m_allocations w') = sizes (m_allocations w)"
  shows "stream_ok w' = stream_ok w"
proof -
  have "replay (m_reported w') Map.empty = replay (m_reported w) Map.empty"
    using assms(1,2) by (cases "replay (m_reported w) Map.empty") (simp_all add: replay_append)
  moreover have "expected w' = expected w" using assms(3,5) by (simp add: expected_def)
  ultimately show ?thesis using assms(3,4) by (simp add: stream_ok_def)
qed

lemma stream_do_work_step:
  assumes "worker_wf w" "stream_ok w" "\<not> wt_stop w"
  shows "stream_ok (do_work_step api w)"
proof (cases "m_work_items w")
  case Nil
  then show ?thesis using assms(2) stream_cong [of "do_work_step api w" w]
    by (simp add: do_work_step_def)
next
  case (Cons item q)
  let ?w = "w\<lparr>m_work_items_empty := False, m_work_items := q\<rparr>"
  have "worker_wf ?w" using assms(1) by (simp add: worker_wf_def)
  with stream_process_item [of ?w item api] assms Cons show ?thesis
    by (simp add: do_work_step_def stream_ok_def expected_def)
qed

lemma stream_do_gc:
  assumes "worker_wf w" "stream_ok w" "do_gc_sync mem frame only w = Some (n, w')"
    and "only \<or> m_work_items w = []"
  shows "stream_ok w'"
proof -
  obtain w1 where gc: "do_gc_internal mem frame only w = Some (n, w1)" and w': "w' = w1\<lparr>m_last_gc_frame := frame\<rparr>"
    using assms(3) by (auto simp: do_gc_sync_def)
  have wf: "um_wf (m_allocations w)" using assms(1) by (simp add: worker_wf_def)
  have "stream_ok w1"
  proof (cases only)
    case True
    have "sizes (m_allocations w1) = sizes (m_allocations w) \<and> m_work_items w1 = m_work_items w"
      by (rule gc_table [OF wf gc]) (simp add: True)
    then show ?thesis using assms(2) gc_counters [OF gc] stream_cong by metis
  next
    case False
    then have gc': "do_gc_internal mem frame False w = Some (n, w1)" and q: "m_work_items w = []"
      using gc assms(4) by simp_all
    note sw = gc_swept(1,2) [OF wf gc']
    let ?s = "sizes (m_allocations w)" and ?P = "\<lambda>q. fst q \<in> live_set mem w"
    have pend: "pending (map (free_of frame) qs) = qs" for qs
      by (induction qs) (auto simp: pending_def free_of_def is_free_def)
    then have e: "expected w1 = filter ?P ?s @ filter (\<lambda>q. \<not> ?P q) ?s"
      by (simp add: expected_def sw q)
    have ms: "mset (expected w1) = mset ?s" unfolding e by simp
    have "mset (map fst (expected w1)) = mset (map fst ?s)" using ms by (simp only: mset_map)
    then have "distinct (map fst (expected w1))" using wf mset_eq_imp_distinct_iff by (metis distinct_sizes)
    moreover from this have "map_of (expected w1) = map_of ?s" using ms map_of_mset by metis
    moreover have "frees_first (m_work_items w1)"
      unfolding sw q by (rule frees_first_all) (auto simp: free_of_def is_free_def)
    moreover have "expected w = ?s" using q by (simp add: expected_def pending_def)
    ultimately show ?thesis using assms(2) gc_counters [OF gc] unfolding stream_ok_def by auto
  qed
  then show ?thesis using w' stream_cong [of w' w1] by simp
qed

lemma stream_find_references_internal:
  assumes "worker_wf w" "stream_ok w" "find_references_internal api rid addrs w = Some w'"
  shows "stream_ok w'"
proof -
  have wf: "um_wf (m_allocations w)" "parents_closed (m_allocations w)"
    using assms(1) by (simp_all add: worker_wf_def)
  have "same_but_visited (m_allocations w) (m_allocations w')"
    by (rule find_references_internal_effect [OF wf, of api rid addrs]) (use assms(3) in simp)
  then have "sizes (m_allocations w') = sizes (m_allocations w)" by (rule same_facts)
  moreover obtain rs where "m_reported w' = m_reported w @ [Report_references rid rs]"
    "m_work_items w' = m_work_items w" "wt_stop w' = wt_stop w"
    using assms(3) by (auto simp: find_references_internal_def report_def split: option.splits)
  ultimately show ?thesis using assms(2) stream_neutral [of w' w] by auto
qed

lemma stream_worker_find_references:
  assumes "worker_wf w" "stream_ok w" "worker_find_references api mem rid addrs frame w = Some w'"
  shows "stream_ok w'"
proof (cases "frame > m_last_gc_frame w")
  case True
  then obtain n w1 where "do_gc_sync mem frame True w = Some (n, w1)"
    "find_references_internal api rid addrs w1 = Some w'"
    using assms(3) by (auto simp: worker_find_references_def split: option.splits)
  then show ?thesis using assms wf_do_gc_sync stream_do_gc stream_find_references_internal by blast
next
  case False
  then show ?thesis using assms stream_find_references_internal
    by (simp add: worker_find_references_def)
qed

lemma stream_add_async:
  assumes "stream_ok w" "add_allocation_async api frame klass obj w = Returns w'"
  shows "stream_ok w'"
proof -
  define i where "i = \<lparr>wi_frame = frame, wi_klass = klass, wi_obj = obj,
    wi_size = object_get_size api obj, wi_backtrace = stack_walk api, wi_type = Wi_alloc\<rparr>"
  then have i: "wi_type i = Wi_alloc" "w' = w\<lparr>m_work_items := m_work_items w @ [i]\<rparr>"
    using assms(2) by (auto simp: add_allocation_async_def Let_def enqueue_def split: if_splits)
  then have "pending (m_work_items w @ [i]) = pending (m_work_items w)"
    by (simp add: pending_def is_free_def)
  then show ?thesis using assms(1) i frees_first_append [of "m_work_items w" i]
    by (auto simp: stream_ok_def expected_def is_free_def)
qed

lemma stream_wexec:
  assumes "worker_wf w" "stream_ok w" "wexec op w = Some w'" "quiet op w"
  shows "stream_ok w'"
proof (cases op)
  case (Op_allocation api frame klass obj)
  then show ?thesis using assms stream_add_async by (auto split: call.splits)
next
  case (Op_work api)
  then show ?thesis using assms stream_do_work_step by (auto split: if_splits)
next
  case (Op_gc mem frame only)
  then show ?thesis using assms stream_do_gc by (auto split: if_splits)
next
  case (Op_references api mem rid addrs frame)
  then show ?thesis using assms stream_worker_find_references by (auto split: if_splits)
next
  case (Op_pause rid)
  then show ?thesis using assms stream_neutral [of w' w "Report_paused rid True"]
    by (auto simp: worker_op_defs split: if_splits)
next
  case (Op_resume rid)
  then show ?thesis using assms stream_neutral [of w' w "Report_resumed rid True"]
    by (auto simp: worker_op_defs split: if_splits)
next
  case Op_stop
  then have "wt_stop w'" using assms(3) by (auto simp: worker_op_defs Let_def split: if_splits)
  then show ?thesis by (simp add: stream_ok_def)
qed (use assms stream_cong [of w' w] in \<open>auto simp: worker_op_defs\<close>)

interpretation str: invariant_machine worker_init wstep_quiet "\<lambda>w. worker_wf w \<and> stream_ok w"
proof unfold_locales
  show "worker_wf s \<and> stream_ok s" if "worker_init s" for s
    using that wf.init_inv [OF that]
    by (simp add: worker_init_def new_worker_def stream_ok_def expected_def sizes_def pending_def frees_first_def)
  show "worker_wf t \<and> stream_ok t" if "worker_wf s \<and> stream_ok s" "wstep_quiet s t" for s t
    using that wf_wexec stream_wexec by (auto elim: wstep_quietE)
qed


section \<open>Concrete runs\<close>

fun wrun :: "wop list \<Rightarrow> worker \<Rightarrow> worker option" where
  "wrun [] w = Some w"
| "wrun (op # ops) w = (case wexec op w of None \<Rightarrow> None | Some w' \<Rightarrow> wrun ops w')"

lemma wrun_steps: "wrun ops w = Some w' \<Longrightarrow> steps wstep w w'"
proof (induction ops arbitrary: w)
  case (Cons op ops)
  then obtain w1 where "wexec op w = Some w1" "wrun ops w1 = Some w'" by (auto split: option.splits)
  then show ?case
    using Cons.IH steps_trans [OF steps_one [of wstep, OF wstep]] by blast
qed (auto intro: steps_refl)

definition native_api :: mono_api where
  "native_api = example_api\<lparr>stack_walk := []\<rparr>"

text \<open>
  The application allocates at address 64; the worker processes the event and finds its queue
  empty. The address is allocated again before the collection has looked at the table.
\<close>

definition race_ops :: "wop list" where
  "race_ops = [Op_start, Op_allocation native_api 1 5 64, Op_work native_api, Op_work native_api,
     Op_allocation native_api 2 5 64, Op_gc (\<lambda>_. None) 2 False, Op_work native_api]"

lemmas run_eval = new_worker_def start_thread_def add_allocation_async_def do_work_step_def enqueue_def
  process_item_def add_allocation_def report_def um_insert_def do_gc_sync_def native_api_def example_api_def
  do_gc_internal_def gc_clear_def gc_sweep_def free_item_def


definition short_ops :: "wop list" where
  "short_ops = [Op_start, Op_allocation native_api 1 5 64, Op_work native_api]"

lemma short_run:
  obtains w where "wrun short_ops new_worker = Some w" "\<not> wt_stop w" "m_allocated w = 16"
    "sizes (m_allocations w) = [(64, 16)]" "m_work_items w = []"
    "steps wstep_quiet new_worker w"
proof -
  obtain w1 w2 w where w: "wexec Op_start new_worker = Some w1"
    "wexec (Op_allocation native_api 1 5 64) w1 = Some w2" "wexec (Op_work native_api) w2 = Some w"
    and facts: "\<not> wt_stop w" "m_allocated w = 16" "sizes (m_allocations w) = [(64, 16)]" "m_work_items w = []"
    by (simp add: run_eval sizes_def)
  moreover have "wrun short_ops new_worker = Some w" using w by (simp add: short_ops_def)
  moreover have "wstep_quiet new_worker w1" "wstep_quiet w1 w2" "wstep_quiet w2 w"
    by (rule wstep_quiet, rule w, simp)+
  then have "steps wstep_quiet new_worker w"
    using steps_more [OF steps_more [OF steps_one [of wstep_quiet]]] by metis
  ultimately show ?thesis using facts that by blast
qed


theorem worker_bytes_conserved_witness:
  "\<exists>w. wrun short_ops new_worker = Some w \<and> \<not> wt_stop w \<and>
     m_freed w + live_bytes (m_allocations w) + free_bytes (m_work_items w) = 16"
proof -
  obtain w where w: "wrun short_ops new_worker = Some w" "\<not> wt_stop w" "m_allocated w = 16"
    by (rule short_run)
  with worker_bytes_conserved [OF wrun_steps [OF w(1)] w(2)] show ?thesis by auto
qed


text \<open>
  While the application is paused no allocation enters the queue, and nothing but the resume
  command or the end of the session lifts the pause.
\<close>

theorem pause_blocks_allocations:
  assumes "m_stop_lock w" "wexec op w = Some w'" "\<forall>rid. op \<noteq> Op_resume rid" "op \<noteq> Op_stop"
  shows "m_stop_lock w' \<and> wexec (Op_allocation api frame klass obj) w' = None"
proof -
  have "m_stop_lock w'"
  proof (cases op)
    case (Op_work api)
    with assms show ?thesis
      by (auto simp: do_work_step_def process_item_def add_allocation_def report_def Let_def
          split: option.splits if_splits)
  next
    case (Op_gc mem frame only)
    with assms show ?thesis
      by (auto simp: do_gc_sync_def do_gc_internal_def gc_sweep_def Let_def
          split: option.splits if_splits prod.splits)
  next
    case (Op_references api mem rid addrs frame)
    with assms show ?thesis
      by (auto simp: worker_find_references_def find_references_internal_def do_gc_sync_def do_gc_internal_def
          report_def Let_def split: option.splits if_splits prod.splits)
  qed (use assms in \<open>auto simp: worker_op_defs split: if_splits\<close>)
  then show ?thesis by (simp add: add_allocation_async_def)
qed

theorem pause_blocks_allocations_witness:
  "m_stop_lock (worker_pause_app 3 new_worker) \<and>
   wexec (Op_register_root 500 8) (worker_pause_app 3 new_worker) =
     Some (register_root 500 8 (worker_pause_app 3 new_worker)) \<and>
   wexec (Op_allocation example_api 1 5 64) (register_root 500 8 (worker_pause_app 3 new_worker)) = None"
proof -
  have l: "m_stop_lock (worker_pause_app 3 new_worker)"
    by (simp add: worker_pause_app_def new_worker_def report_def)
  with pause_blocks_allocations [OF l, of "Op_register_root 500 8"] show ?thesis by simp
qed

section \<open>The token of the queue\<close>

lemma token_kept:
  assumes "m_work_items_token w \<or> wt_stop w" "wexec op w = Some w'"
  shows "m_work_items_token w' \<or> wt_stop w'"
proof (cases op)
  case (Op_allocation api frame klass obj)
  with assms show ?thesis by (auto simp: add_allocation_async_def Let_def split: if_splits)
next
  case (Op_work api)
  with assms show ?thesis
    by (auto simp: do_work_step_def process_item_def add_allocation_def report_def Let_def
        split: option.splits if_splits)
next
  case (Op_gc mem frame only)
  with assms show ?thesis
    by (auto simp: do_gc_sync_def do_gc_internal_def gc_sweep_def Let_def
        split: option.splits if_splits prod.splits)
next
  case (Op_references api mem rid addrs frame)
  with assms show ?thesis
    by (auto simp: worker_find_references_def find_references_internal_def do_gc_sync_def do_gc_internal_def
        gc_sweep_def report_def Let_def split: option.splits if_splits prod.splits)
qed (use assms in \<open>auto simp: worker_op_defs Let_def split: if_splits\<close>)

interpretation tok: invariant_machine worker_init wstep "\<lambda>w. m_work_items_token w \<or> wt_stop w"
proof unfold_locales
  show "m_work_items_token w \<or> wt_stop w" if "worker_init w" for w
    using that by (simp add: worker_init_def new_worker_def)
  show "m_work_items_token t \<or> wt_stop t" if "m_work_items_token s \<or> wt_stop s" "wstep s t" for s t
    using that(2) by (cases rule: wstep.cases) (rule token_kept [OF that(1)])
qed

text \<open>
  C27. Until the worker is stopped no allocation of the application crashes in its callback; after
  the worker thread has been stopped the next one does, because the queue has taken the producer of
  its token with it.
\<close>

theorem allocation_after_stop_faults:
  assumes "worker_init w0" "steps wstep w0 w"
  shows "(\<not> wt_stop w \<longrightarrow> add_allocation_async api frame klass obj w \<noteq> Faults) \<and>
    (wt_thread w \<longrightarrow> add_allocation_async api frame klass obj (stop_thread w) = Faults)"
  using tok.reachable_inv [OF assms]
  by (auto simp: add_allocation_async_def stop_thread_def do_work_exit_def Let_def)

theorem allocation_after_stop_faults_witness:
  "steps wstep new_worker (start_thread new_worker) \<and>
   add_allocation_async example_api 1 5 64 (start_thread new_worker) \<noteq> Faults \<and>
   add_allocation_async example_api 1 5 64 (stop_thread (start_thread new_worker)) = Faults"
proof -
  have "wexec Op_start new_worker = Some (start_thread new_worker)" by simp
  then have run: "steps wstep new_worker (start_thread new_worker)" by (intro steps_one wstep)
  have init: "worker_init new_worker" by (simp add: worker_init_def)
  from allocation_after_stop_faults [OF init run, of example_api 1 5 64] run show ?thesis
    by (simp add: start_thread_def new_worker_def)
qed

end
