(* ===== verification/Worker_Spec.thy ===== *)
theory Worker_Spec
  imports Worker_Inv
begin

text \<open>
  What the worker promises, without flags, lists of parents, queues and threads: a tracker that
  knows the registered roots and the size of every live object. The worker implements it: each of
  its operations is a step of the tracker or invisible to it. A second group of lemmas shows
  that the worker thread makes progress.
\<close>

section \<open>The tracker\<close>

record tracker =
  tr_roots :: "root_info list"
  tr_live :: "u64 \<Rightarrow> u32 option"

text \<open>The tracked objects that chains of pointers lead to from a root area.\<close>

definition tracker_reachable :: "memory \<Rightarrow> tracker \<Rightarrow> u64 set" where
  "tracker_reachable mem t =
     reach {ref. ref \<noteq> 0 \<and> ref \<in> dom (tr_live t) \<and>
             (\<exists>r \<in> set (tr_roots t). \<exists>p \<in> set (root_slots r). mem p = Some ref)}
           {(x, y). y \<in> dom (tr_live t) \<and>
             (\<exists>n. tr_live t x = Some n \<and> y \<in> get_ptr_safe mem ` set (object_slots x n))}"

inductive tracker_step :: "tracker \<Rightarrow> tracker \<Rightarrow> bool" where
  Tr_alloc: "tracker_step t (t\<lparr>tr_live := (tr_live t)(a \<mapsto> n)\<rparr>)"
| Tr_collect: "tracker_step t (t\<lparr>tr_live := tr_live t |` tracker_reachable mem t\<rparr>)"
| Tr_register: "tracker_step t (t\<lparr>tr_roots := tr_roots t @ [r]\<rparr>)"
| Tr_unregister: "tracker_step t (t\<lparr>tr_roots := filter (\<lambda>r. root_start r \<noteq> start) (tr_roots t)\<rparr>)"
| Tr_stop: "tracker_step t (t\<lparr>tr_live := Map.empty\<rparr>)"

definition tracker_of :: "worker \<Rightarrow> tracker" where
  "tracker_of w = \<lparr>tr_roots = m_roots w, tr_live = map_of (sizes (m_allocations w))\<rparr>"

lemma sizes_find: "map_of (sizes m) k = map_option ai_size (um_find m k)"
  by (induction m) (auto simp: sizes_def)

lemma tracker_of_cong:
  "m_roots w' = m_roots w \<Longrightarrow> sizes (m_allocations w') = sizes (m_allocations w) \<Longrightarrow> tracker_of w' = tracker_of w"
  by (simp add: tracker_of_def)

lemma tracker_reachable_live_set: "tracker_reachable mem (tracker_of w) = live_set mem w"
proof -
  have "root_refs mem (m_roots w) (sizes (m_allocations w)) =
      {ref. ref \<noteq> 0 \<and> ref \<in> dom (tr_live (tracker_of w)) \<and>
        (\<exists>r \<in> set (tr_roots (tracker_of w)). \<exists>p \<in> set (root_slots r). mem p = Some ref)}"
    by (simp add: root_refs_def tracker_of_def dom_map_of_conv_image_fst)
  moreover have "heap_edges mem (sizes (m_allocations w)) =
      {(x, y). y \<in> dom (tr_live (tracker_of w)) \<and>
        (\<exists>n. tr_live (tracker_of w) x = Some n \<and> y \<in> get_ptr_safe mem ` set (object_slots x n))}"
    by (auto simp: heap_edges_def pointers_def tracker_of_def dom_map_of_conv_image_fst split: option.splits)
      (metis imageI)
  ultimately show ?thesis by (simp add: tracker_reachable_def live_set_def Let_def)
qed

section \<open>The worker implements the tracker\<close>

lemma tracker_add_allocation:
  "tracker_of (add_allocation addr n frame w) =
     (tracker_of w)\<lparr>tr_live := (tr_live (tracker_of w))(addr \<mapsto> n)\<rparr>"
  by (auto simp: add_allocation_def report_def tracker_of_def sizes_find fun_eq_iff um_find_insert um_find_modify
      Let_def split: option.splits)

lemma tracker_process_item:
  "tracker_of (process_item api item w) = tracker_of w \<or>
   tracker_step (tracker_of w) (tracker_of (process_item api item w))"
proof -
  let ?w = "add_allocation (wi_obj item) (wi_size item) (wi_frame item) w"
  have "tracker_of (process_item api item w) \<in> {tracker_of w, tracker_of ?w}"
    by (auto simp: process_item_def report_def tracker_of_def Let_def split: option.splits)
  then show ?thesis unfolding tracker_add_allocation by (auto intro: Tr_alloc)
qed

lemma tracker_work_step:
  "tracker_of (do_work_step api w) = tracker_of w \<or> tracker_step (tracker_of w) (tracker_of (do_work_step api w))"
proof (cases "try_dequeue (m_work_items w)")
  case None
  then show ?thesis by (simp add: do_work_step_def tracker_of_def)
next
  case (Some iq)
  let ?w = "w\<lparr>m_work_items_empty := False, m_work_items := snd iq\<rparr>"
  have "tracker_of ?w = tracker_of w" by (simp add: tracker_of_def)
  with tracker_process_item [of api "fst iq" ?w] Some show ?thesis
    by (cases iq) (simp add: do_work_step_def)
qed

lemma do_gc_sync_roots: "do_gc_sync mem frame only w = Some (n, w') \<Longrightarrow> m_roots w' = m_roots w"
  by (auto simp: do_gc_sync_def do_gc_internal_def gc_sweep_def Let_def split: option.splits prod.splits)

lemma do_work_step_roots: "m_roots (do_work_step api w) = m_roots w"
  by (simp add: do_work_step_def process_item_def add_allocation_def report_def Let_def split: option.splits)

lemma tracker_gc:
  assumes "um_wf (m_allocations w)" "do_gc_sync mem frame only w = Some (n, w')"
  shows "tracker_of w' = (if only then tracker_of w
    else (tracker_of w)\<lparr>tr_live := tr_live (tracker_of w) |` tracker_reachable mem (tracker_of w)\<rparr>)"
proof -
  obtain w1 where w1: "do_gc_internal mem frame only w = Some (n, w1)" "w' = w1\<lparr>m_last_gc_frame := frame\<rparr>"
    using assms(2) by (auto simp: do_gc_sync_def)
  have roots: "m_roots w1 = m_roots w" using do_gc_sync_roots [OF assms(2)] w1(2) by simp
  show ?thesis
  proof (cases only)
    case True
    obtain m where "w1 = w\<lparr>m_allocations := m\<rparr>" "sizes m = sizes (m_allocations w)"
      by (rule gc_table [OF assms(1) w1(1)]) (simp add: True)
    with True w1(2) show ?thesis by (simp add: tracker_of_def)
  next
    case False
    then have "do_gc_internal mem frame False w = Some (n, w1)" using w1(1) by simp
    note sw = gc_swept(1) [OF assms(1) this]
    have "map_of (filter (\<lambda>q. fst q \<in> S) xs) = map_of xs |` S" for xs :: "(u64 \<times> u32) list" and S
      by (induction xs) (auto simp: fun_eq_iff restrict_map_def)
    with False w1(2) roots sw show ?thesis
      by (simp add: tracker_of_def tracker_reachable_live_set [unfolded tracker_of_def])
  qed
qed

lemma tracker_references_internal:
  assumes "worker_wf w" "find_references_internal api rid addrs w = Some w'"
  shows "tracker_of w' = tracker_of w"
proof -
  have wf: "um_wf (m_allocations w)" "parents_closed (m_allocations w)"
    using assms(1) by (simp_all add: worker_wf_def)
  have "same_but_visited (m_allocations w) (m_allocations w')"
    by (rule find_references_internal_effect [OF wf, of api rid addrs]) (use assms(2) in simp)
  moreover have "m_roots w' = m_roots w"
    using assms(2) by (auto simp: find_references_internal_def report_def split: option.splits)
  ultimately show ?thesis using same_facts(1) tracker_of_cong by blast
qed

lemma tracker_references:
  assumes "worker_wf w" "worker_find_references api mem rid addrs frame w = Some w'"
  shows "tracker_of w' = tracker_of w"
proof (cases "frame > m_last_gc_frame w")
  case True
  then obtain n w1 where w1: "do_gc_sync mem frame True w = Some (n, w1)"
    "find_references_internal api rid addrs w1 = Some w'"
    using assms(2) by (auto simp: worker_find_references_def split: option.splits)
  have "um_wf (m_allocations w)" using assms(1) by (simp add: worker_wf_def)
  with tracker_gc [OF this w1(1)] tracker_references_internal [OF wf_do_gc_sync [OF assms(1) w1(1)] w1(2)]
  show ?thesis by simp
next
  case False
  then show ?thesis using assms tracker_references_internal by (simp add: worker_find_references_def)
qed

lemma tracker_wexec:
  assumes "worker_wf w" "wexec op w = Some w'"
  shows "tracker_of w' = tracker_of w \<or> tracker_step (tracker_of w) (tracker_of w')"
proof (cases op)
  case Op_stop
  then have "tracker_of w' = tracker_of w \<or> tracker_of w' = (tracker_of w)\<lparr>tr_live := Map.empty\<rparr>"
    using assms(2)
    by (cases "wt_thread w"; cases "m_stop_lock w") (auto simp: worker_op_defs tracker_of_def sizes_def)
  then show ?thesis by (auto intro: Tr_stop)
next
  case (Op_work api)
  then show ?thesis using assms(2) tracker_work_step by (auto split: if_splits)
next
  case (Op_gc mem frame only)
  have "um_wf (m_allocations w)" using assms(1) by (simp add: worker_wf_def)
  with Op_gc assms(2) show ?thesis
    using tracker_gc [of w mem frame only _ w'] by (auto intro: Tr_collect split: if_splits)
next
  case (Op_register_root start n)
  then have "tracker_of w' = (tracker_of w)\<lparr>tr_roots := tr_roots (tracker_of w) @ [\<lparr>root_start = start, root_size = n\<rparr>]\<rparr>"
    using assms(2) by (auto simp: worker_op_defs tracker_of_def)
  then show ?thesis by (auto intro: Tr_register)
next
  case (Op_unregister_root start)
  then have "tracker_of w' = (tracker_of w)\<lparr>tr_roots := filter (\<lambda>r. root_start r \<noteq> start) (tr_roots (tracker_of w))\<rparr>"
    using assms(2) by (auto simp: worker_op_defs tracker_of_def)
  then show ?thesis by (auto intro: Tr_unregister)
next
  case (Op_references api mem rid addrs frame)
  then show ?thesis using assms tracker_references by (auto split: if_splits)
qed (use assms(2) in \<open>auto simp: worker_op_defs tracker_of_def split: if_splits\<close>)

interpretation spec: refinement worker_init wstep worker_wf tracker_of tracker_step
  by unfold_locales (auto elim!: wstepE dest: tracker_wexec)


section \<open>Progress of the worker thread\<close>

lemma process_item_queue:
  "process_item api i (w\<lparr>m_work_items_empty := b, m_work_items := q\<rparr>) =
     (process_item api i w)\<lparr>m_work_items := q, m_work_items_empty := b\<rparr>"
  by (cases w) (simp add: process_item_def add_allocation_def report_def Let_def split: option.splits)

lemma work_through:
  "(do_work_step api ^^ length q) (w\<lparr>m_work_items := q @ r, m_work_items_empty := b\<rparr>) =
     (fold (process_item api) q w)\<lparr>m_work_items := r, m_work_items_empty := (b \<and> q = [])\<rparr>"
proof (induction q arbitrary: w b)
  case (Cons i q)
  have "do_work_step api (w\<lparr>m_work_items := i # q @ r, m_work_items_empty := b\<rparr>) =
      (process_item api i w)\<lparr>m_work_items := q @ r, m_work_items_empty := False\<rparr>"
    using process_item_queue [where w = w and q = "q @ r" and b = False]
    by (simp add: do_work_step_def try_dequeue_def)
  then show ?case using Cons.IH [where w = "process_item api i w" and b = False] by (simp add: funpow_swap1)
qed simp

text \<open>
  C34. The worker thread makes progress: as many passes of its loop as there are items, and one
  more, process every queued item in order and then raise the flag that a waiting collection
  looks at.
\<close>

theorem worker_drains_queue:
  "(do_work_step api ^^ Suc (length (m_work_items w))) w =
     (fold (process_item api) (m_work_items w) w)\<lparr>m_work_items := [], m_work_items_empty := True\<rparr>"
proof -
  have "(do_work_step api ^^ length (m_work_items w)) (w\<lparr>m_work_items := m_work_items w @ [], m_work_items_empty := m_work_items_empty w\<rparr>) =
      (fold (process_item api) (m_work_items w) w)
        \<lparr>m_work_items := [], m_work_items_empty := (m_work_items_empty w \<and> m_work_items w = [])\<rparr>"
    by (rule work_through)
  then show ?thesis by (simp add: do_work_step_def try_dequeue_def)
qed


end
