(* ===== verification/Profiler.thy ===== *)
theory Profiler
  imports Worker_Spec Protocol
begin

text \<open>
  The profiler proper and the server inside the profiled process
  (\<^verbatim>\<open>server/src/mono_profiler.cpp\<close>, \<^verbatim>\<open>functor.h\<close>, \<^verbatim>\<open>load_library.cpp\<close>,
  \<^verbatim>\<open>mono_profiler_server.cpp\<close>): finding the functions of the runtime, installing the callbacks,
  the callbacks themselves, the current frame, restarting, and the server that listens, watches
  the connection and executes the commands of the client. Writing to the log file is left out.
\<close>

section \<open>Functions of the runtime library\<close>

text \<open>A loaded module: its base address and what the name lookup of the system answers (0: not
  exported).\<close>

record library =
  lib_module :: u64
  lib_exports :: "bytes \<Rightarrow> u64"

definition get_method_by_name :: "library \<Rightarrow> bytes \<Rightarrow> u64" where
  "get_method_by_name l name = lib_exports l name"

definition get_method_by_addr :: "library \<Rightarrow> u64 \<Rightarrow> u64" where
  "get_method_by_addr l addr = lib_module l + addr"

record mono_func =
  mf_name :: "bytes option"
  mf_addr :: u64
  mf_ptr :: u64

definition named_func :: "string \<Rightarrow> mono_func" where
  "named_func name = \<lparr>mf_name = Some (chars name), mf_addr = 0, mf_ptr = 0\<rparr>"

text \<open>A lookup by a missing name is a call of the system with a null pointer.\<close>

definition mono_func_init :: "library \<Rightarrow> mono_func \<Rightarrow> (bool \<times> mono_func) call" where
  "mono_func_init l f =
     call_bind
       (if mf_addr f = 0
        then (case mf_name f of None \<Rightarrow> Faults | Some name \<Rightarrow> Returns (f\<lparr>mf_ptr := get_method_by_name l name\<rparr>))
        else if mf_name f \<noteq> None then Returns (f\<lparr>mf_ptr := get_method_by_addr l (mf_addr f)\<rparr>)
        else Returns f)
       (\<lambda>f1. Returns (mf_ptr f1 \<noteq> 0, f1))"

text \<open>The functions of a build against Mono, in the order in which they are looked up.\<close>

definition mono_function_names :: "string list" where
  "mono_function_names =
     [''mono_profiler_install_allocation'', ''mono_profiler_install_gc'', ''mono_profiler_set_events'',
      ''mono_profiler_create'', ''mono_profiler_set_gc_root_register_callback'',
      ''mono_profiler_set_gc_root_unregister_callback'', ''mono_profiler_install'',
      ''mono_class_get_namespace'', ''mono_class_get_name'', ''mono_stack_walk_no_il'',
      ''mono_method_get_name'', ''mono_method_get_class'', ''mono_object_get_class'',
      ''mono_object_get_size'']"

definition mono_functions :: "mono_func list" where
  "mono_functions = map named_func mono_function_names"

text \<open>The chain of conjunctions stops at the first function that is missing.\<close>

fun init_functions :: "library \<Rightarrow> mono_func list \<Rightarrow> (bool \<times> mono_func list) call" where
  "init_functions l [] = Returns (True, [])"
| "init_functions l (f # fs) =
     call_bind (mono_func_init l f) (\<lambda>(ok, f1).
       if ok then call_bind (init_functions l fs) (\<lambda>(all_ok, fs1). Returns (all_ok, f1 # fs1))
       else Returns (False, f1 # fs))"

section \<open>The profiler\<close>

datatype gc_event = MONO_GC_EVENT_START | MONO_GC_EVENT_END | MONO_GC_EVENT_PRE_STOP_WORLD
  | MONO_GC_EVENT_POST_STOP_WORLD | MONO_GC_EVENT_PRE_START_WORLD | MONO_GC_EVENT_POST_START_WORLD
  | MONO_GC_EVENT_PRE_STOP_WORLD_LOCKED | MONO_GC_EVENT_POST_START_WORLD_UNLOCKED

datatype root_source = MONO_ROOT_SOURCE_EXTERNAL | MONO_ROOT_SOURCE_STACK
  | MONO_ROOT_SOURCE_FINALIZER_QUEUE | MONO_ROOT_SOURCE_STATIC | MONO_ROOT_SOURCE_THREAD_STATIC
  | MONO_ROOT_SOURCE_CONTEXT_STATIC | MONO_ROOT_SOURCE_GC_HANDLE | MONO_ROOT_SOURCE_JIT
  | MONO_ROOT_SOURCE_THREADING | MONO_ROOT_SOURCE_DOMAIN | MONO_ROOT_SOURCE_REFLECTION
  | MONO_ROOT_SOURCE_MARSHAL | MONO_ROOT_SOURCE_THREAD_POOL | MONO_ROOT_SOURCE_DEBUGGER
  | MONO_ROOT_SOURCE_HANDLE

text \<open>\<open>p_reported\<close> keeps what workers that are gone have reported.\<close>

record profiler =
  p_started :: bool
  p_functions :: "mono_func list"
  p_callbacks :: bool
  p_worker :: "worker option"
  p_frame_index :: u64
  p_reported :: "sink_event list"

definition new_profiler :: profiler where
  "new_profiler = \<lparr>p_started = False, p_functions = mono_functions, p_callbacks = False, p_worker = None,
     p_frame_index = 0, p_reported = []\<rparr>"

definition p_events :: "profiler \<Rightarrow> sink_event list" where
  "p_events p = p_reported p @ (case p_worker p of None \<Rightarrow> [] | Some w \<Rightarrow> m_reported w)"

text \<open>An operation on the worker; without one the null pointer is dereferenced.\<close>

definition on_worker :: "(worker \<Rightarrow> worker call) \<Rightarrow> profiler \<Rightarrow> profiler call" where
  "on_worker f p =
     (case p_worker p of
        None \<Rightarrow> Faults
      | Some w \<Rightarrow> call_bind (f w) (\<lambda>w1. Returns (p\<lparr>p_worker := Some w1\<rparr>)))"

definition on_allocation :: "mono_api \<Rightarrow> u64 \<Rightarrow> u64 \<Rightarrow> profiler \<Rightarrow> profiler call" where
  "on_allocation api obj klass p =
     on_worker (add_allocation_async api (p_frame_index p) klass obj) p"

definition gc_sync_call :: "memory \<Rightarrow> u64 \<Rightarrow> bool \<Rightarrow> worker \<Rightarrow> worker call" where
  "gc_sync_call mem frame parents_only w =
     (if \<not> m_work_items_empty w then Blocks
      else call_of (map_option snd (do_gc_sync mem frame parents_only w)))"

definition on_gc :: "memory \<Rightarrow> gc_event \<Rightarrow> profiler \<Rightarrow> profiler call" where
  "on_gc mem e p =
     (if e \<noteq> MONO_GC_EVENT_END then Returns p
      else on_worker (gc_sync_call mem (p_frame_index p) False) p)"

definition on_root_register :: "u64 \<Rightarrow> u64 \<Rightarrow> root_source \<Rightarrow> profiler \<Rightarrow> profiler call" where
  "on_root_register start n source p =
     (if source = MONO_ROOT_SOURCE_STACK \<or> source = MONO_ROOT_SOURCE_FINALIZER_QUEUE then Returns p
      else on_worker (\<lambda>w. Returns (register_root start n w)) p)"

definition on_root_unregister :: "u64 \<Rightarrow> profiler \<Rightarrow> profiler call" where
  "on_root_unregister start p = on_worker (\<lambda>w. Returns (unregister_root start w)) p"

definition fresh_worker :: "profiler \<Rightarrow> profiler" where
  "fresh_worker p = p\<lparr>p_reported := p_events p, p_worker := Some (start_thread new_worker)\<rparr>"

definition try_restart_profiling :: "profiler \<Rightarrow> (bool \<times> profiler) call" where
  "try_restart_profiling p =
     (if \<not> p_started p then Returns (False, p)
      else call_bind (on_worker (\<lambda>w. Returns (stop_thread w)) p) (\<lambda>p1. Returns (True, fresh_worker p1)))"

definition setup_mono_functions :: "library \<Rightarrow> profiler \<Rightarrow> (bool \<times> profiler) call" where
  "setup_mono_functions l p =
     call_bind (init_functions l (p_functions p)) (\<lambda>(ok, fs). Returns (ok, p\<lparr>p_functions := fs\<rparr>))"

text \<open>\<^verbatim>\<open>init\<close> in two steps: the callbacks are active before the worker exists.\<close>

definition install_callbacks :: "profiler \<Rightarrow> profiler" where
  "install_callbacks p = p\<lparr>p_callbacks := True\<rparr>"

definition profiler_init :: "profiler \<Rightarrow> profiler" where
  "profiler_init p = fresh_worker (install_callbacks p)"

definition profiler_start :: "library option \<Rightarrow> profiler \<Rightarrow> (bool \<times> profiler) call" where
  "profiler_start mono_module p =
     call_bind (try_restart_profiling p) (\<lambda>(restarted, p1).
       if restarted then Returns (True, p1)
       else case mono_module of
              None \<Rightarrow> Returns (False, p1)
            | Some l \<Rightarrow>
                call_bind (setup_mono_functions l p1) (\<lambda>(ok, p2).
                  if \<not> ok then Returns (False, p2)
                  else Returns (True, (profiler_init p2)\<lparr>p_started := True\<rparr>)))"

definition profiler_on_frame :: "profiler \<Rightarrow> profiler" where
  "profiler_on_frame p = p\<lparr>p_frame_index := p_frame_index p + 1\<rparr>"

text \<open>A search in a frame that has had no collection yet waits like one.\<close>

definition profiler_find_references :: "mono_api \<Rightarrow> memory \<Rightarrow> u64 \<Rightarrow> u64 list \<Rightarrow> profiler \<Rightarrow> profiler call" where
  "profiler_find_references api mem rid addresses p =
     on_worker (\<lambda>w. if p_frame_index p > m_last_gc_frame w \<and> \<not> m_work_items_empty w then Blocks
       else call_of (worker_find_references api mem rid addresses (p_frame_index p) w)) p"

definition profiler_pause_app :: "u64 \<Rightarrow> profiler \<Rightarrow> profiler call" where
  "profiler_pause_app rid p = on_worker (\<lambda>w. Returns (worker_pause_app rid w)) p"

definition profiler_resume_app :: "u64 \<Rightarrow> profiler \<Rightarrow> profiler call" where
  "profiler_resume_app rid p = on_worker (\<lambda>w. Returns (worker_resume_app rid w)) p"

text \<open>A pass of the worker's own thread.\<close>

definition profiler_work :: "mono_api \<Rightarrow> profiler \<Rightarrow> profiler call" where
  "profiler_work api p = on_worker (\<lambda>w. Returns (if wt_thread w then do_work_step api w else w)) p"

section \<open>The server\<close>

record server =
  s_network :: network_details
  s_profiler :: profiler
  s_watchdog :: bool
  s_stop_watchdog :: bool
  s_wait_for_connection :: bool
  s_port :: u32
  s_commands_thread :: bool
  s_stop_commands_thread :: bool

definition new_server :: server where
  "new_server = \<lparr>s_network = new_network, s_profiler = new_profiler, s_watchdog = False,
     s_stop_watchdog = False, s_wait_for_connection = False, s_port = 0, s_commands_thread = False,
     s_stop_commands_thread = False\<rparr>"

text \<open>The events that an operation of the profiler reports go through the sink, in order.\<close>

fun sink_reports :: "bytes \<Rightarrow> sink_event list \<Rightarrow> network_details \<Rightarrow> network_details option" where
  "sink_reports padding [] d = Some d"
| "sink_reports padding (e # es) d =
     (case sink_report padding e d of None \<Rightarrow> None | Some d1 \<Rightarrow> sink_reports padding es d1)"

definition with_profiler :: "bytes \<Rightarrow> (profiler \<Rightarrow> profiler call) \<Rightarrow> server \<Rightarrow> server call" where
  "with_profiler padding f s =
     call_bind (f (s_profiler s)) (\<lambda>p.
       call_bind (call_of (sink_reports padding (drop (length (p_events (s_profiler s))) (p_events p))
                             (s_network s)))
         (\<lambda>d. Returns (s\<lparr>s_profiler := p, s_network := d\<rparr>)))"

text \<open>\<open>ec\<close> is the outcome of the blocking accept. Starting again replaces both threads.\<close>

definition server_start :: "bool \<Rightarrow> u32 \<Rightarrow> asio_error option \<Rightarrow> library option \<Rightarrow> server \<Rightarrow> server call" where
  "server_start wait_for_connection port ec mono_module s =
     (let s1 = s\<lparr>s_wait_for_connection := wait_for_connection, s_port := port\<rparr>;
          s2 = (if \<not> is_connected (s_network s1)
                then s1\<lparr>s_network := (if wait_for_connection then listen_sync ec (s_network s1)
                                      else listen_async (s_network s1))\<rparr>
                else s1);
          s3 = s2\<lparr>s_stop_watchdog := False, s_stop_commands_thread := False, s_watchdog := True,
                  s_commands_thread := True\<rparr>
      in call_bind (profiler_start mono_module (s_profiler s3)) (\<lambda>(ok, p).
           Returns (s3\<lparr>s_profiler := p\<rparr>)))"

text \<open>One round of the watchdog.\<close>

definition watchdog_step :: "asio_error option \<Rightarrow> server \<Rightarrow> server" where
  "watchdog_step ec s =
     (if s_watchdog s \<and> \<not> s_stop_watchdog s \<and> \<not> is_connected (s_network s) \<and> \<not> is_listening (s_network s)
      then let d = net_stop_all (s_network s)
           in s\<lparr>s_network := (if s_wait_for_connection s then listen_sync ec d else listen_async d)\<rparr>
      else s)"

text \<open>\<open>junk\<close> is what the variables hold that a failed read leaves unset.\<close>

definition execute_command :: "u64 \<Rightarrow> mono_api \<Rightarrow> memory \<Rightarrow> net_message \<Rightarrow> profiler \<Rightarrow> profiler call" where
  "execute_command junk api mem msg p =
     (let r = new_reader (msg_data msg)
      in if hdr_type msg = cmd_code CMD_REFERENCES then
           (case fst (dec_cmd_references junk r) of
              Ok (rid, addresses) \<Rightarrow> profiler_find_references api mem rid addresses p
            | _ \<Rightarrow> Faults)
         else if hdr_type msg = cmd_code CMD_PAUSE then
           (case fst (dec_cmd junk r) of Ok rid \<Rightarrow> profiler_pause_app rid p | _ \<Rightarrow> Faults)
         else if hdr_type msg = cmd_code CMD_RESUME then
           (case fst (dec_cmd junk r) of Ok rid \<Rightarrow> profiler_resume_app rid p | _ \<Rightarrow> Faults)
         else Returns p)"

text \<open>One round of the commands thread.\<close>

definition server_process_message :: "u64 \<Rightarrow> bytes \<Rightarrow> mono_api \<Rightarrow> memory \<Rightarrow> server \<Rightarrow> server call" where
  "server_process_message junk padding api mem s =
     (if \<not> s_commands_thread s \<or> s_stop_commands_thread s then Returns s
      else case read_message (s_network s) of
             (None, d) \<Rightarrow> Returns s
           | (Some msg, d) \<Rightarrow>
               with_profiler padding (execute_command junk api mem msg) (s\<lparr>s_network := d\<rparr>))"

definition server_stop :: "server \<Rightarrow> server" where
  "server_stop s = s\<lparr>s_stop_watchdog := True, s_watchdog := False, s_network := net_stop_all (s_network s)\<rparr>"

definition server_on_frame :: "server \<Rightarrow> server" where
  "server_on_frame s = s\<lparr>s_profiler := profiler_on_frame (s_profiler s)\<rparr>"

definition server_destroy :: "server \<Rightarrow> server" where
  "server_destroy s =
     s\<lparr>s_stop_watchdog := True, s_watchdog := False, s_stop_commands_thread := True,
       s_commands_thread := False, s_network := net_stop_all (s_network s)\<rparr>"

section \<open>Starting\<close>

lemma mono_func_init_named:
  "mono_func_init l (named_func n) =
     Returns (lib_exports l (chars n) \<noteq> 0, (named_func n)\<lparr>mf_ptr := lib_exports l (chars n)\<rparr>)"
  by (simp add: mono_func_init_def named_func_def get_method_by_name_def)

lemma init_functions_named:
  "\<exists>fs. init_functions l (map named_func names) =
      Returns (\<forall>n\<in>set names. lib_exports l (chars n) \<noteq> 0, fs) \<and>
    ((\<forall>n\<in>set names. lib_exports l (chars n) \<noteq> 0) \<longrightarrow>
       map mf_ptr fs = map (\<lambda>n. lib_exports l (chars n)) names)"
proof (induction names)
  case (Cons n names)
  then obtain fs where "init_functions l (map named_func names) =
      Returns (\<forall>n\<in>set names. lib_exports l (chars n) \<noteq> 0, fs)"
    "(\<forall>n\<in>set names. lib_exports l (chars n) \<noteq> 0) \<longrightarrow> map mf_ptr fs = map (\<lambda>n. lib_exports l (chars n)) names"
    by blast
  then show ?case
    by (cases "lib_exports l (chars n) = 0") (auto simp: mono_func_init_named)
qed simp

text \<open>
  C36. The first start succeeds exactly when the library is loaded and exports every function
  the profiler calls; then all of them are resolved and the worker runs, and otherwise no
  callback has been installed.
\<close>

theorem profiler_starts_iff_resolved:
  "\<exists>ok p. profiler_start mono_module new_profiler = Returns (ok, p) \<and>
     (ok \<longleftrightarrow> (\<exists>l. mono_module = Some l \<and> (\<forall>f\<in>set mono_functions. get_method_by_name l (the (mf_name f)) \<noteq> 0))) \<and>
     (if ok then p_callbacks p \<and> p_worker p = Some (start_thread new_worker) \<and> (\<forall>f\<in>set (p_functions p). mf_ptr f \<noteq> 0)
      else \<not> p_callbacks p \<and> p_worker p = None)"
proof -
  define names where "names = mono_function_names"
  have names: "mono_functions = map named_func names" by (simp add: mono_functions_def names_def)
  have ex: "(\<forall>f\<in>set mono_functions. get_method_by_name l (the (mf_name f)) \<noteq> 0) \<longleftrightarrow>
      (\<forall>n\<in>set names. lib_exports l (chars n) \<noteq> 0)" for l
    by (simp add: names get_method_by_name_def named_func_def)
  show ?thesis
  proof (cases mono_module)
    case None
    then have "profiler_start mono_module new_profiler = Returns (False, new_profiler)"
      by (simp add: profiler_start_def try_restart_profiling_def new_profiler_def)
    with None show ?thesis by (auto simp: new_profiler_def)
  next
    case (Some l)
    obtain fs where fs: "init_functions l mono_functions =
        Returns (\<forall>n\<in>set names. lib_exports l (chars n) \<noteq> 0, fs)"
      "(\<forall>n\<in>set names. lib_exports l (chars n) \<noteq> 0) \<longrightarrow> map mf_ptr fs = map (\<lambda>n. lib_exports l (chars n)) names"
      using init_functions_named [of l names] unfolding names by blast
    have "\<forall>f\<in>set fs. mf_ptr f \<noteq> 0" if "\<forall>n\<in>set names. lib_exports l (chars n) \<noteq> 0"
    proof -
      have "set (map mf_ptr fs) = set (map (\<lambda>n. lib_exports l (chars n)) names)" using fs(2) that by simp
      with that show ?thesis by (auto simp: image_iff) (metis imageI image_iff)
    qed
    with Some fs(1) show ?thesis unfolding ex
      by (simp add: profiler_start_def try_restart_profiling_def new_profiler_def setup_mono_functions_def
          profiler_init_def install_callbacks_def fresh_worker_def)
  qed
qed

section \<open>Restarting\<close>

text \<open>What the application and the worker do while no root is registered.\<close>

inductive app_step :: "profiler \<Rightarrow> profiler \<Rightarrow> bool" where
  App_alloc: "on_allocation api obj klass p = Returns p' \<Longrightarrow> app_step p p'"
| App_work: "profiler_work api p = Returns p' \<Longrightarrow> app_step p p'"
| App_gc: "on_gc mem e p = Returns p' \<Longrightarrow> app_step p p'"
| App_unregister: "on_root_unregister start p = Returns p' \<Longrightarrow> app_step p p'"
| App_frame: "app_step p (profiler_on_frame p)"

text \<open>Both ways to reach the worker keep an empty list of roots.\<close>

definition rootless :: "profiler \<Rightarrow> bool" where
  "rootless p \<longleftrightarrow> (\<exists>w. p_worker p = Some w \<and> m_roots w = [])"

lemma rootless_on_worker:
  assumes "rootless p" "on_worker f p = Returns p'"
    and "\<And>w w'. m_roots w = [] \<Longrightarrow> f w = Returns w' \<Longrightarrow> m_roots w' = []"
  shows "rootless p'"
proof -
  obtain w where w: "p_worker p = Some w" "m_roots w = []" using assms(1) by (auto simp: rootless_def)
  with assms(2) obtain w' where "f w = Returns w'" "p' = p\<lparr>p_worker := Some w'\<rparr>"
    by (cases "f w") (auto simp: on_worker_def)
  with assms(3) [OF w(2)] show ?thesis by (simp add: rootless_def)
qed

lemma rootless_step: "app_step p p' \<Longrightarrow> rootless p \<Longrightarrow> rootless p'"
proof (induction rule: app_step.induct)
  case (App_alloc api obj klass p p')
  then show ?case unfolding on_allocation_def
    by (elim rootless_on_worker) (auto simp: add_allocation_async_def split: if_splits)
next
  case (App_work api p p')
  then show ?case unfolding profiler_work_def
    by (elim rootless_on_worker) (auto simp: do_work_step_roots)
next
  case (App_gc mem e p p')
  have "m_roots w' = []" if "m_roots w = []" "gc_sync_call mem f False w = Returns w'" for w w' f
    using that do_gc_sync_roots [of mem f False w]
    by (cases "do_gc_sync mem f False w") (auto simp: gc_sync_call_def split: if_splits)
  with App_gc show ?case
    by (auto simp: on_gc_def split: if_splits elim: rootless_on_worker)
next
  case (App_unregister start p p')
  then show ?case unfolding on_root_unregister_def
    by (elim rootless_on_worker) (auto simp: unregister_root_def)
next
  case (App_frame p)
  then show ?case by (simp add: rootless_def profiler_on_frame_def)
qed

lemma gc_no_roots:
  assumes "m_roots w = []"
  shows "do_gc_sync mem frame False w =
    Some (0, w\<lparr>m_allocations := [], m_last_gc_frame := frame,
      m_work_items := m_work_items w @ map (free_item frame) (gc_clear (m_allocations w))\<rparr>)"
proof -
  have "\<not> flag (snd p) TMP_ALLOCATED" if "p \<in> set (gc_clear (m_allocations w))" for p
    using that by (auto simp: gc_clear_def)
  then have "filter (\<lambda>p. \<not> flag (snd p) TMP_ALLOCATED) (gc_clear (m_allocations w)) = gc_clear (m_allocations w)"
    "filter (\<lambda>p. flag (snd p) TMP_ALLOCATED) (gc_clear (m_allocations w)) = []"
    by (simp_all add: filter_id_conv filter_empty_conv)
  moreover have "fold enqueue xs q = q @ xs" for xs q :: "work_item list"
    by (induction xs arbitrary: q) (simp_all add: enqueue_def)
  ultimately show ?thesis using assms
    by (cases w) (simp add: do_gc_sync_def do_gc_internal_def gc_sweep_def)
qed

text \<open>
  C37. Starting a running profiler again forgets the roots the application has registered, which
  the runtime reports only once: whatever is allocated and processed afterwards, the next
  collection reports every tracked object as freed.
\<close>

theorem restart_loses_roots:
  assumes "p_started p" "p_worker p = Some w"
  shows "\<exists>p1. profiler_start mono_module p = Returns (True, p1) \<and>
    (\<forall>p2 p3. app_step\<^sup>*\<^sup>* p1 p2 \<longrightarrow> on_gc mem MONO_GC_EVENT_END p2 = Returns p3 \<longrightarrow>
       (\<exists>w2 w3. p_worker p2 = Some w2 \<and> p_worker p3 = Some w3 \<and> m_allocations w3 = [] \<and>
          m_work_items w3 = m_work_items w2 @ map (free_item (p_frame_index p2)) (gc_clear (m_allocations w2))))"
proof -
  define p1 where "p1 = fresh_worker (p\<lparr>p_worker := Some (stop_thread w)\<rparr>)"
  have start: "profiler_start mono_module p = Returns (True, p1)"
    using assms by (simp add: profiler_start_def try_restart_profiling_def on_worker_def p1_def)
  have first: "rootless p1" by (simp add: p1_def fresh_worker_def rootless_def start_thread_def new_worker_def)
  have roots: "rootless p2" if "app_step\<^sup>*\<^sup>* p1 p2" for p2
    using that first by (induction rule: rtranclp_induct) (auto dest: rootless_step)
  have "\<exists>w2 w3. p_worker p2 = Some w2 \<and> p_worker p3 = Some w3 \<and> m_allocations w3 = [] \<and>
      m_work_items w3 = m_work_items w2 @ map (free_item (p_frame_index p2)) (gc_clear (m_allocations w2))"
    if run: "app_step\<^sup>*\<^sup>* p1 p2" and gc: "on_gc mem MONO_GC_EVENT_END p2 = Returns p3" for p2 p3
  proof -
    obtain w2 where w2: "p_worker p2 = Some w2" "m_roots w2 = []" using roots [OF run] by (auto simp: rootless_def)
    with gc show ?thesis
      by (auto simp: on_gc_def on_worker_def gc_sync_call_def gc_no_roots split: if_splits)
  qed
  with start show ?thesis by blast
qed

definition tiny_api :: mono_api where
  "tiny_api = \<lparr>get_class_namespace = (\<lambda>_. None), get_class_name = (\<lambda>_. chars ''C''),
     get_method_name = (\<lambda>_. chars ''M''), method_get_class = (\<lambda>m. m), object_get_class = Some,
     object_get_size = (\<lambda>_. 24), stack_walk = []\<rparr>"

definition example_library :: library where
  "example_library = \<lparr>lib_module = 0, lib_exports = (\<lambda>_. 4096)\<rparr>"

definition example_profiler :: profiler where
  "example_profiler = new_profiler\<lparr>p_started := True,
     p_worker := Some (register_root 8 8 (start_thread new_worker))\<rparr>"

text \<open>The restarted profiler, an allocation, two passes of the worker's loop, and a collection.\<close>

definition restarted :: profiler where
  "restarted = new_profiler\<lparr>p_started := True, p_worker := Some (start_thread new_worker)\<rparr>"

definition restarted_run :: "memory \<Rightarrow> profiler call" where
  "restarted_run mem =
     call_bind (on_allocation tiny_api 64 5 restarted) (\<lambda>p.
     call_bind (profiler_work tiny_api p) (\<lambda>p.
     call_bind (profiler_work tiny_api p) (\<lambda>p. on_gc mem MONO_GC_EVENT_END p)))"

theorem profiler_starts_iff_resolved_witness:
  "\<exists>p. profiler_start (Some example_library) new_profiler = Returns (True, p) \<and> p_callbacks p"
proof -
  have "\<forall>f\<in>set mono_functions. get_method_by_name example_library (the (mf_name f)) \<noteq> 0"
    by (simp add: example_library_def get_method_by_name_def)
  with profiler_starts_iff_resolved [of "Some example_library"] show ?thesis by auto
qed

theorem restart_loses_roots_witness:
  "\<exists>w. profiler_start None example_profiler = Returns (True, restarted) \<and>
     call_bind (restarted_run (\<lambda>_. Some 64)) (\<lambda>p. Returns (p_worker p)) = Returns (Some w) \<and>
     m_allocations w = [] \<and> map wi_obj (m_work_items w) = [64]"
proof -
  note ev = on_allocation_def on_worker_def restarted_def new_profiler_def start_thread_def new_worker_def
    add_allocation_async_def tiny_api_def enqueue_def profiler_work_def do_work_step_def try_dequeue_def
    process_item_def add_allocation_def report_def
  have "\<exists>pa pb p2 w2. on_allocation tiny_api 64 5 restarted = Returns pa \<and>
      profiler_work tiny_api pa = Returns pb \<and> profiler_work tiny_api pb = Returns p2 \<and>
      p_worker p2 = Some w2 \<and> m_work_items_empty w2 \<and> m_work_items w2 = [] \<and> map fst (m_allocations w2) = [64] \<and> m_roots w2 = []"
    by (simp add: ev um_insert_def)
  then obtain pa pb p2 w2 where steps: "on_allocation tiny_api 64 5 restarted = Returns pa"
      "profiler_work tiny_api pa = Returns pb" "profiler_work tiny_api pb = Returns p2"
    and w2: "p_worker p2 = Some w2" "m_work_items_empty w2" "m_work_items w2 = []" "map fst (m_allocations w2) = [64]"
      "m_roots w2 = []"
    by (elim exE conjE)
  have st: "profiler_start None example_profiler = Returns (True, restarted)"
    by (simp add: profiler_start_def try_restart_profiling_def example_profiler_def on_worker_def
        fresh_worker_def restarted_def p_events_def new_profiler_def stop_thread_def start_thread_def
        register_root_def new_worker_def do_work_exit_def)
  have run: "app_step\<^sup>*\<^sup>* restarted p2"
    using steps by (meson App_alloc App_work converse_rtranclp_into_rtranclp r_into_rtranclp)
  let ?mem = "\<lambda>_. Some 64"
  obtain p3 where gc: "on_gc ?mem MONO_GC_EVENT_END p2 = Returns p3"
    using w2 by (simp add: on_gc_def on_worker_def gc_sync_call_def gc_no_roots)
  have "p_started example_profiler" "p_worker example_profiler = Some (register_root 8 8 (start_thread new_worker))"
    by (simp_all add: example_profiler_def)
  from restart_loses_roots [OF this, of None ?mem] st run gc w2
  have "\<exists>w3. p_worker p3 = Some w3 \<and> m_allocations w3 = [] \<and>
      m_work_items w3 = map (free_item (p_frame_index p2)) (gc_clear (m_allocations w2))"
    by auto
  then obtain w3 where w3: "p_worker p3 = Some w3" "m_allocations w3 = []"
    "m_work_items w3 = map (free_item (p_frame_index p2)) (gc_clear (m_allocations w2))" by blast
  have "map wi_obj (m_work_items w3) = map fst (m_allocations w2)"
    unfolding w3(3) by (simp add: gc_clear_def free_item_def case_prod_beta)
  with w2(4) w3 st steps gc show ?thesis by (simp add: restarted_run_def)
qed

end
