(* ===== verification/Session.thy ===== *)
theory Session
  imports Client_Views Profiler
begin

text \<open>
  A session: the server in the profiled process and the client, joined by a stream that may be
  cut into pieces anywhere (\<open>split_up\<close>). The lemmas connect the encoders, the transport and the
  handlers of the two sides; the root theory states what follows for whole sessions.
\<close>

definition any_split :: "(bytes \<Rightarrow> bytes list) \<Rightarrow> bool" where
  "any_split split_up \<longleftrightarrow> (\<forall>bs. concat (split_up bs) = bs)"

section \<open>Events from the worker to the database\<close>

definition sink_of :: "profiler_event \<Rightarrow> sink_event" where
  "sink_of e = (case pe_type e of
     Ev_alloc \<Rightarrow> Report_alloc (pe_frame e) (pe_addr e) (pe_size e) (pe_obj_type e) (pe_callstack e)
   | Ev_free \<Rightarrow> Report_free (pe_frame e) (pe_addr e) (pe_size e))"

definition payload :: "bytes \<Rightarrow> sink_event \<Rightarrow> bytes \<times> u8 \<times> bytes" where
  "payload padding e = (padding, srv_code (fst (sink_payload e)), snd (sink_payload e))"

lemma sink_reports_write_all:
  "is_connected d \<Longrightarrow> sink_reports padding es d = write_all (map (payload padding) es) d"
proof (induction es arbitrary: d)
  case (Cons e es)
  let ?w = "write_message padding (srv_code (fst (sink_payload e))) (of_nat (length (snd (sink_payload e))))
    (snd (sink_payload e)) d"
  have "sink_report padding e d = ?w" using Cons.prems by (simp add: sink_report_def case_prod_beta)
  moreover have "is_connected d1" if "?w = Some d1" for d1
    using that Cons.prems by (auto simp: write_message_def is_connected_def split: if_splits option.splits)
  ultimately show ?case using Cons.IH by (auto simp: payload_def split: option.splits)
qed simp

lemma sink_payload_nonempty: "0 < length (snd (sink_payload e))"
  by (cases e) (simp_all add: enc_alloc_def enc_free_def enc_references_def enc_ack_def enc_puts length_puts
      cref.fold_enc)

lemma reports_delivered:
  assumes "length padding = 3" "\<forall>e\<in>set es. length (snd (sink_payload e)) < 2 ^ 32" "any_split split_up"
    and "is_connected d" "outbox d = []" "net_running n" "read_pending n = Read_header" "inbox n = []"
  shows "\<exists>d'. sink_reports padding es d = Some d' \<and>
    d' = d\<lparr>outbox := outbox d'\<rparr> \<and>
    receive_all (split_up (outbox d')) n = Some (n\<lparr>m_read_buffer := m_read_buffer n @
      map (\<lambda>e. message_of (srv_code (fst (sink_payload e))) (snd (sink_payload e))) es\<rparr>)"
proof -
  let ?ws = "map (payload padding) es"
  have ws: "\<forall>(padding, type, buf)\<in>set ?ws. length padding = 3 \<and> 0 < length buf \<and> length buf < 2 ^ 32"
    using assms(1,2) sink_payload_nonempty by (auto simp: payload_def)
  have so: "socket_open d" using assms(4) by (simp add: is_connected_def)
  obtain d' where d': "write_all ?ws d = Some d'"
    and all: "\<forall>chunks. concat chunks = outbox d' \<longrightarrow> receive_all chunks n =
      Some (n\<lparr>m_read_buffer := m_read_buffer n @ map (\<lambda>(_, type, buf). message_of type buf) ?ws\<rparr>)"
    using transport_delivers [OF ws so assms(5-8)] by blast
  have "d' = d\<lparr>outbox := outbox d'\<rparr>"
    using d' write_all_outbox [of ?ws d] ws so by (cases d) (auto simp: case_prod_beta)
  moreover have "map (\<lambda>(_, type, buf). message_of type buf) ?ws =
      map (\<lambda>e. message_of (srv_code (fst (sink_payload e))) (snd (sink_payload e))) es"
    by (simp add: payload_def)
  ultimately show ?thesis
    using d' all assms(3) sink_reports_write_all [OF assms(4), of padding es] by (auto simp: any_split_def)
qed

lemma sink_of_message: "message_of (srv_code (fst (sink_payload (sink_of e)))) (snd (sink_payload (sink_of e))) = event_message e"
  by (simp add: sink_of_def event_message_def split: event_kind.splits)

lemma process_end_at_frame:
  assumes "at_frame k f es c" shows "process_end c = Some c"
proof (cases "c_frame_events c")
  case (Cons e xs)
  moreover have "\<forall>e \<in> set (c_frame_events c). pe_frame e = f" "c_prev_frame c = f"
    using assms unfolding at_frame_def by blast+
  ultimately show ?thesis by (simp add: process_end_def try_save_events_def)
qed (simp add: process_end_def)

lemma ready_network: "ready k c \<Longrightarrow> ready k (c\<lparr>c_stop := b, c_network := n\<rparr>)"
proof -
  let ?c = "c\<lparr>c_stop := b, c_network := n\<rparr>"
  have "store_ok k ?c = store_ok k c" "saved ?c = saved c" "stats_map ?c = stats_map c"
    by (rule store_ok_cong; simp)+
  then show "ready k c \<Longrightarrow> ready k ?c" by (simp add: ready_def)
qed

text \<open>A whole session with a fresh client: what it looks like when the client has stopped.\<close>

lemma session_run:
  assumes "well_formed_stream es" "es \<noteq> []" "length es < 2 ^ 63"
    and "\<forall>e\<in>set es. length (snd (sink_payload (sink_of e))) < 2 ^ 32"
    and "length padding = 3" "any_split split_up" "is_connected d" "outbox d = []"
  obtains d' n c where "sink_reports padding (map sink_of es) d = Some d'"
    "receive_all (split_up (outbox d')) (c_network fresh_client) = Some n"
    "client_stop junk (fresh_client\<lparr>c_network := n\<rparr>) =
       Some (c\<lparr>c_thread := False, c_network := net_stop_all (c_network c)\<rparr>)"
    "at_frame 0 (pe_frame (last es)) (map arrived es) c"
proof -
  let ?n0 = "c_network fresh_client"
  have n0: "net_running ?n0" "read_pending ?n0 = Read_header" "inbox ?n0 = []" "m_read_buffer ?n0 = []"
    by (simp_all add: fresh_client_eq new_client_def new_network_def net_running_def
        read_message_header_from_socket_def)
  obtain d' n where d': "sink_reports padding (map sink_of es) d = Some d'"
    and n: "receive_all (split_up (outbox d')) ?n0 = Some n" "m_read_buffer n = map event_message es"
    using reports_delivered [OF assms(5) _ assms(6-8) n0(1-3), of "map sink_of es"] assms(4) n0(4)
    by (auto simp: sink_of_message comp_def)
  let ?c = "fresh_client\<lparr>c_stop := True, c_network := n\<lparr>m_read_buffer := []\<rparr>\<rparr>"
  have "ready (length es) ?c" by (rule ready_network [OF fresh_ready [OF assms(3)]])
  then obtain c where c: "process_all junk (map event_message es) ?c = Some c"
    "at_frame 0 (pe_frame (last es)) (map arrived es) c"
    by (rule stream_run [OF _ assms(1,2)])
  have "c_thread fresh_client" by (simp add: fresh_client_eq)
  then have "client_stop junk (fresh_client\<lparr>c_network := n\<rparr>) =
      Some (c\<lparr>c_thread := False, c_network := net_stop_all (c_network c)\<rparr>)"
    using c(1) process_end_at_frame [OF c(2)] n(2) by (simp add: client_stop_def)
  with that d' n(1) c(2) show ?thesis by blast
qed

section \<open>Requests and answers\<close>

text \<open>The two ends of an established connection, with nothing on the way.\<close>

definition linked :: "client \<Rightarrow> server \<Rightarrow> bool" where
  "linked c s \<longleftrightarrow>
     socket_open (c_network c) \<and> outbox (c_network c) = [] \<and> net_running (c_network c) \<and>
     read_pending (c_network c) = Read_header \<and> inbox (c_network c) = [] \<and> m_read_buffer (c_network c) = [] \<and>
     is_connected (s_network s) \<and> outbox (s_network s) = [] \<and> net_running (s_network s) \<and>
     read_pending (s_network s) = Read_header \<and> inbox (s_network s) = [] \<and> m_read_buffer (s_network s) = [] \<and>
     s_commands_thread s \<and> \<not> s_stop_commands_thread s"

text \<open>What the client has sent reaches the server, which executes one command; what the server
  has sent since reaches the client, which handles all messages.\<close>

definition exchange :: "(bytes \<Rightarrow> bytes list) \<Rightarrow> u64 \<Rightarrow> bytes \<Rightarrow> mono_api \<Rightarrow> memory \<Rightarrow> client \<Rightarrow> server \<Rightarrow>
    (client \<times> server) call" where
  "exchange split_up junk padding api mem c s =
     call_bind (call_of (receive_all (split_up (outbox (c_network c))) (s_network s))) (\<lambda>d.
     call_bind (server_process_message junk padding api mem (s\<lparr>s_network := d\<rparr>)) (\<lambda>s1.
     call_bind (call_of (receive_all (split_up (outbox (s_network s1))) ((c_network c)\<lparr>outbox := []\<rparr>))) (\<lambda>n.
     call_bind (call_of (process_all junk (m_read_buffer n) (c\<lparr>c_network := n\<lparr>m_read_buffer := []\<rparr>\<rparr>))) (\<lambda>c1.
       Returns (c1, s1\<lparr>s_network := (s_network s1)\<lparr>outbox := []\<rparr>\<rparr>)))))"

lemma get_command_last:
  assumes "\<forall>cm\<in>set cs. request_id cm \<noteq> request_id new" "command_type new = type"
  shows "get_command (request_id new) type (cs @ [new]) = Some (Some new, cs)"
  using assms by (induction cs) auto

lemma send_delivered:
  assumes "linked c s" "length padding = 3" "any_split split_up" "0 < length buf" "length buf < 2 ^ 32"
    and "c_network c1 = c_network c"
  shows "\<exists>n. send padding type buf c1 = Some (c1\<lparr>c_network := n\<rparr>) \<and> n\<lparr>outbox := []\<rparr> = c_network c \<and>
    receive_all (split_up (outbox n)) (s_network s) =
      Some ((s_network s)\<lparr>m_read_buffer := [message_of (cmd_code type) buf]\<rparr>)"
proof -
  let ?ws = "[(padding, cmd_code type, buf)]"
  have ws: "\<forall>(padding, type, buf)\<in>set ?ws. length padding = 3 \<and> 0 < length buf \<and> length buf < 2 ^ 32"
    using assms by simp
  have l: "socket_open (c_network c)" "outbox (c_network c) = []" "net_running (s_network s)"
    "read_pending (s_network s) = Read_header" "inbox (s_network s) = []" "m_read_buffer (s_network s) = []"
    using assms(1) by (simp_all add: linked_def)
  obtain n where n: "write_all ?ws (c_network c) = Some n"
    and all: "\<forall>chunks. concat chunks = outbox n \<longrightarrow> receive_all chunks (s_network s) =
      Some ((s_network s)\<lparr>m_read_buffer := m_read_buffer (s_network s) @ map (\<lambda>(_, type, buf). message_of type buf) ?ws\<rparr>)"
    using transport_delivers [OF ws l(1-5)] by blast
  have "n\<lparr>outbox := []\<rparr> = c_network c"
    using n write_all_outbox [of ?ws "c_network c"] ws l(1,2) by (cases "c_network c") (auto simp: case_prod_beta)
  moreover have "send padding type buf c1 = Some (c1\<lparr>c_network := n\<rparr>)"
    using n assms(6) by (simp add: send_def split: option.splits)
  ultimately show ?thesis using all assms(3) l(6) by (intro exI [of _ n]) (simp add: any_split_def)
qed

text \<open>A request whose execution reports one event is answered by the message of that event.\<close>

lemma exchange_answer:
  assumes l: "linked c s" and p: "length padding = 3" "any_split split_up"
    and n: "n\<lparr>outbox := []\<rparr> = c_network c"
      "receive_all (split_up (outbox n)) (s_network s) = Some ((s_network s)\<lparr>m_read_buffer := [msg]\<rparr>)"
    and ex: "execute_command junk api mem msg (s_profiler s) = Returns p'"
      "p_events p' = p_events (s_profiler s) @ [e]" "length (snd (sink_payload e)) < 2 ^ 32"
    and cl: "process_message junk (message_of (srv_code (fst (sink_payload e))) (snd (sink_payload e)))
        (c1\<lparr>c_network := c_network c\<rparr>) = Some c2"
  shows "exchange split_up junk padding api mem (c1\<lparr>c_network := n\<rparr>) s = Returns (c2, s\<lparr>s_profiler := p'\<rparr>)"
proof -
  have ls: "is_connected (s_network s)" "outbox (s_network s) = []" "m_read_buffer (s_network s) = []"
    "s_commands_thread s" "\<not> s_stop_commands_thread s" and lc: "net_running (c_network c)"
    "read_pending (c_network c) = Read_header" "inbox (c_network c) = []" "m_read_buffer (c_network c) = []"
    using l by (simp_all add: linked_def)
  obtain d where d: "sink_reports padding [e] (s_network s) = Some d" "d = (s_network s)\<lparr>outbox := outbox d\<rparr>"
    "receive_all (split_up (outbox d)) (c_network c) = Some ((c_network c)\<lparr>m_read_buffer :=
       [message_of (srv_code (fst (sink_payload e))) (snd (sink_payload e))]\<rparr>)"
    using reports_delivered [OF p(1) _ p(2) ls(1,2) lc(1-3), of "[e]"] ex(3) lc(4) by auto
  have read: "read_message ((s_network s)\<lparr>m_read_buffer := [msg]\<rparr>) = (Some msg, s_network s)"
    using ls(3) by (cases "s_network s") (simp add: read_message_def try_dequeue_def)
  have "server_process_message junk padding api mem (s\<lparr>s_network := (s_network s)\<lparr>m_read_buffer := [msg]\<rparr>\<rparr>) =
      Returns (s\<lparr>s_profiler := p', s_network := d\<rparr>)"
    using ls(4,5) read ex(1,2) d(1) by (simp add: server_process_message_def with_profiler_def)
  moreover have "(s_network s)\<lparr>outbox := []\<rparr> = s_network s" "d\<lparr>outbox := []\<rparr> = s_network s"
    using ls(2) d(2) by (metis network_details.surjective network_details.update_convs(11))+
  moreover have "(c_network c)\<lparr>m_read_buffer := []\<rparr> = c_network c" using lc(4) by (cases "c_network c") simp
  ultimately show ?thesis
    using n d(3) cl by (simp add: exchange_def)
qed

lemma ack_processed:
  assumes "get_command rid type (c_commands c) = Some (Some cm, cs)"
  shows "on_ack type cb (new_reader (enc_ack rid ok)) c =
    Some (True, c\<lparr>c_commands := cs, c_callbacks := c_callbacks c @ [cb ok]\<rparr>)"
proof -
  let ?code = "if ok then 0 else 1 :: u8"
  have e: "enc_ack rid ok = put_uint64 rid @ put_uint8 ?code" by (simp add: enc_ack_def enc_puts)
  have "read_uint64 (reader_at [] (put_uint64 rid @ put_uint8 ?code)) =
      (Ok rid, reader_at (put_uint64 rid) (put_uint8 ?code))"
    by (subst c64.dec_put) (simp_all add: length_puts put_uint8_def)
  moreover have "read_uint8 (reader_at (put_uint64 rid) (put_uint8 ?code @ [])) =
      (Ok ?code, reader_at (put_uint64 rid @ put_uint8 ?code) [])"
    by (subst c8.dec_put) (simp_all add: length_puts put_uint8_def)
  ultimately show ?thesis using assms by (simp add: on_ack_def e new_reader_at)
qed

lemma references_processed:
  assumes "get_command rid CMD_REFERENCES (c_commands c) = Some (Some (command_find_references rid addrs), cs)"
    and "length (enc_references rid refs) < 2 ^ 63"
  shows "on_references junk (new_reader (enc_references rid refs)) c =
    Some (True, c\<lparr>c_commands := cs, c_callbacks := c_callbacks c @ [Cb_references addrs (map shown_reference refs)]\<rparr>)"
proof -
  let ?b = "enc_references rid refs"
  obtain rest where b: "?b = put_uint64 rid @ rest"
    by (simp add: enc_references_def cref.fold_enc enc_puts)
  have r1: "read_uint64 (new_reader ?b) = (Ok rid, reader_at (put_uint64 rid) rest)"
    using assms(2) unfolding b new_reader_at by (subst c64.dec_put) simp_all
  with dec_references_enc [OF assms(2), of junk]
  have "fst (dec_references junk (reader_at (put_uint64 rid) rest)) = Ok (map shown_reference refs)"
    by (auto simp: read_bind_def read_return_def split: prod.splits read_result.splits)
  with r1 assms(1) show ?thesis by (simp add: on_references_def)
qed

definition with_command :: "base_command \<Rightarrow> client \<Rightarrow> client" where
  "with_command cm c = snd (add_command cm (c\<lparr>c_next_request_id := c_next_request_id c + 1\<rparr>))"

lemma with_command_simps [simp]:
  "c_network (with_command cm c) = c_network c" "c_commands (with_command cm c) = c_commands c @ [cm]"
  "c_callbacks (with_command cm c) = c_callbacks c" "c_frame_events (with_command cm c) = c_frame_events c"
  "(with_command cm c)\<lparr>c_network := c_network c\<rparr> = with_command cm c"
  by (simp_all add: with_command_def add_command_def)

text \<open>A request, its execution and its answer, for any command.\<close>

lemma request_answered:
  assumes l: "linked c s" and p: "length padding = 3" "any_split split_up"
    and b: "0 < length buf" "length buf < 2 ^ 32"
    and ex: "execute_command junk api mem (message_of (cmd_code type) buf) (s_profiler s) = Returns p'"
      "p_events p' = p_events (s_profiler s) @ [e]" "length (snd (sink_payload e)) < 2 ^ 32"
    and cl: "process_message junk (message_of (srv_code (fst (sink_payload e))) (snd (sink_payload e)))
        (with_command cm c) = Some ((with_command cm c)\<lparr>c_commands := c_commands c, c_callbacks := c_callbacks c @ [cb]\<rparr>)"
  shows "\<exists>c1 c2 s2. send padding type buf (with_command cm c) = Some c1 \<and>
    exchange split_up junk padding api mem c1 s = Returns (c2, s2) \<and>
    c_callbacks c2 = c_callbacks c @ [cb] \<and> c_commands c2 = c_commands c \<and>
    s_profiler s2 = p' \<and> linked c2 s2"
proof -
  let ?c1 = "with_command cm c"
  let ?c2 = "?c1\<lparr>c_commands := c_commands c, c_callbacks := c_callbacks c @ [cb]\<rparr>"
  obtain n where n: "send padding type buf ?c1 = Some (?c1\<lparr>c_network := n\<rparr>)" "n\<lparr>outbox := []\<rparr> = c_network c"
    "receive_all (split_up (outbox n)) (s_network s) = Some ((s_network s)\<lparr>m_read_buffer := [message_of (cmd_code type) buf]\<rparr>)"
    using send_delivered [OF l p b, of ?c1 type] by (auto simp del: cmd_code.simps)
  have "process_message junk (message_of (srv_code (fst (sink_payload e))) (snd (sink_payload e)))
      (?c1\<lparr>c_network := c_network c\<rparr>) = Some ?c2" using cl by simp
  from exchange_answer [OF l p n(2,3) ex this]
  have "exchange split_up junk padding api mem (?c1\<lparr>c_network := n\<rparr>) s = Returns (?c2, s\<lparr>s_profiler := p'\<rparr>)" .
  moreover have "linked ?c2 (s\<lparr>s_profiler := p'\<rparr>)" using l by (simp add: linked_def)
  ultimately show ?thesis using n(1) by (intro exI conjI) (assumption | simp)+
qed

section \<open>Examples\<close>

definition bytewise :: "bytes \<Rightarrow> bytes list" where
  "bytewise bs = map (\<lambda>b. [b]) bs"

lemma bytewise_split: "any_split bytewise"
proof -
  have "concat (map (\<lambda>b. [b]) bs) = bs" for bs :: bytes by (induction bs) simp_all
  then show ?thesis by (simp add: any_split_def bytewise_def)
qed

definition example_worker :: worker where
  "example_worker = new_worker\<lparr>m_allocations := [(64, \<lparr>ai_size = 24, ai_flags = 1, ai_parents = []\<rparr>)]\<rparr>"

definition example_server :: server where
  "example_server = new_server\<lparr>s_network := listen_sync None new_network,
     s_profiler := new_profiler\<lparr>p_worker := Some example_worker\<rparr>, s_commands_thread := True\<rparr>"

lemma example_linked: "linked fresh_client example_server"
  unfolding fresh_client_eq
  by (simp add: linked_def example_server_def new_server_def listen_sync_def
      on_new_connection_def read_message_header_from_socket_def new_network_def new_client_def net_running_def
      is_connected_def)

lemma fresh_client_empty:
  "c_commands fresh_client = []" "c_frame_events fresh_client = []" "c_callbacks fresh_client = []"
  "c_next_request_id fresh_client = 0"
  unfolding fresh_client_eq by (simp_all add: new_client_def)

end
