(* ===== verification/Profiled_Run.thy ===== *)
theory Profiled_Run
  imports Session
begin

text \<open>
  A profiled application: the callbacks of the runtime, the worker thread and the frame counter,
  in any order. The frames of the reported and of the queued events are in order, because
  every callback stamps its items with the counter and the queue keeps their order.
\<close>

section \<open>Frames of events\<close>

fun ev_frames :: "sink_event \<Rightarrow> u64 list" where
  "ev_frames (Report_alloc frame addr n name stack) = [frame]"
| "ev_frames (Report_free frame addr n) = [frame]"
| "ev_frames _ = []"

definition frames_of :: "sink_event list \<Rightarrow> work_item list \<Rightarrow> u64 list" where
  "frames_of es q = concat (map ev_frames es) @ map wi_frame q"

text \<open>After the reports \<open>E\<close> only frames from \<open>g\<close> up to the current frame \<open>f\<close> follow, in order.\<close>

definition clocked :: "sink_event list \<Rightarrow> u64 \<Rightarrow> worker \<Rightarrow> u64 \<Rightarrow> bool" where
  "clocked E g w f \<longleftrightarrow> g \<le> f \<and> (\<exists>xs. m_reported w = E @ xs \<and> (\<forall>e\<in>set xs. ev_frames e \<noteq> []) \<and>
     sorted (frames_of xs (m_work_items w)) \<and>
     (\<forall>x\<in>set (frames_of xs (m_work_items w)). g \<le> x \<and> x \<le> f))"

lemma clocked_later: "clocked E g w f \<Longrightarrow> f \<le> f' \<Longrightarrow> clocked E g w f'"
  unfolding clocked_def by (meson order.trans)

lemma clocked_queue:
  assumes "clocked E g w f" "m_reported w' = m_reported w" "m_work_items w' = m_work_items w @ q"
    and "\<forall>i\<in>set q. wi_frame i = f"
  shows "clocked E g w' f"
proof -
  obtain xs where xs: "g \<le> f" "m_reported w = E @ xs" "\<forall>e\<in>set xs. ev_frames e \<noteq> []"
    "sorted (frames_of xs (m_work_items w))" "\<forall>x\<in>set (frames_of xs (m_work_items w)). g \<le> x \<and> x \<le> f"
    using assms(1) unfolding clocked_def by blast
  have "map wi_frame q = replicate (length q) f" using assms(4) by (induction q) auto
  then have fr: "frames_of xs (m_work_items w') = frames_of xs (m_work_items w) @ replicate (length q) f"
    by (simp add: frames_of_def assms(3))
  have "sorted (frames_of xs (m_work_items w'))"
    unfolding fr sorted_append using xs(4,5) by (auto simp: sorted_replicate)
  moreover have "\<forall>x\<in>set (frames_of xs (m_work_items w')). g \<le> x \<and> x \<le> f"
    unfolding fr using xs(1,5) by auto
  ultimately show ?thesis using xs(1-3) assms(2) unfolding clocked_def by auto
qed

lemma sorted_middle:
  assumes "sorted (as @ (x :: 'a :: linorder) # bs)"
  shows "sorted (as @ replicate n x @ bs)"
proof -
  have "sorted (replicate n x @ bs)" using assms by (auto simp: sorted_append sorted_replicate)
  moreover have "sorted as" "\<forall>a\<in>set as. \<forall>b\<in>set (replicate n x @ bs). a \<le> b"
    using assms by (auto simp: sorted_append)
  ultimately show ?thesis unfolding sorted_append [of as] by blast
qed

text \<open>The worker takes the first item and reports events of its frame.\<close>

lemma process_item_reports:
  "\<exists>rs. m_reported (process_item api i w) = m_reported w @ rs \<and> m_work_items (process_item api i w) = m_work_items w \<and>
     (\<forall>r\<in>set rs. ev_frames r = [wi_frame i])"
  by (auto simp: process_item_def add_allocation_def report_def Let_def split: option.splits)

lemma clocked_process:
  assumes "clocked E g w f" "m_work_items w = i # q"
  shows "clocked E g (process_item api i (w\<lparr>m_work_items_empty := b, m_work_items := q\<rparr>)) f"
proof -
  let ?w = "process_item api i (w\<lparr>m_work_items_empty := b, m_work_items := q\<rparr>)"
  obtain xs where xs: "g \<le> f" "m_reported w = E @ xs" "\<forall>e\<in>set xs. ev_frames e \<noteq> []"
    "sorted (frames_of xs (i # q))" "\<forall>x\<in>set (frames_of xs (i # q)). g \<le> x \<and> x \<le> f"
    using assms unfolding clocked_def by fastforce
  obtain rs where rs: "m_reported ?w = m_reported w @ rs" "m_work_items ?w = q"
    "\<forall>r\<in>set rs. ev_frames r = [wi_frame i]"
    using process_item_reports [of api i "w\<lparr>m_work_items_empty := b, m_work_items := q\<rparr>"] by auto
  have "concat (map ev_frames rs) = replicate (length rs) (wi_frame i)" using rs(3) by (induction rs) auto
  then have fr: "frames_of (xs @ rs) q = concat (map ev_frames xs) @ replicate (length rs) (wi_frame i) @ map wi_frame q"
    by (simp add: frames_of_def)
  have "sorted (frames_of (xs @ rs) q)"
    unfolding fr using xs(4) by (intro sorted_middle) (simp add: frames_of_def)
  moreover have "\<forall>x\<in>set (frames_of (xs @ rs) q). g \<le> x \<and> x \<le> f"
    unfolding fr using xs(5) by (auto simp: frames_of_def)
  moreover have "m_reported ?w = E @ xs @ rs" using rs(1) xs(2) by simp
  moreover have "\<forall>e\<in>set (xs @ rs). ev_frames e \<noteq> []" using rs(3) xs(3) by auto
  ultimately show ?thesis using xs(1) rs(2) unfolding clocked_def by metis
qed

lemma clocked_work: "clocked E g w f \<Longrightarrow> clocked E g (do_work_step api w) f"
  using clocked_process [of E g w f] clocked_queue [of E g w f _ "[]"]
  by (cases "m_work_items w") (simp_all add: do_work_step_def)

lemma clocked_gc:
  assumes "clocked E g w f" "worker_wf w" "do_gc_sync mem f False w = Some (n, w')"
  shows "clocked E g w' f"
proof -
  obtain w1 where gc: "do_gc_internal mem f False w = Some (n, w1)" and w': "w' = w1\<lparr>m_last_gc_frame := f\<rparr>"
    using assms(3) by (auto simp: do_gc_sync_def)
  have "um_wf (m_allocations w)" using assms(2) by (simp add: worker_wf_def)
  note sw = gc_swept(2) [OF this gc]
  show ?thesis
    by (rule clocked_queue [OF assms(1)]) (auto simp: w' gc_counters(4) [OF gc] sw free_of_def)
qed

section \<open>Runs of the profiler\<close>

text \<open>What happens in a profiled process. Collections begin with an empty queue, and the frame
  counter does not reach the number that means no frame.\<close>

inductive prof_step :: "profiler \<Rightarrow> profiler \<Rightarrow> bool" where
  Prof_alloc: "on_allocation api obj klass p = Returns p' \<Longrightarrow> prof_step p p'"
| Prof_work: "profiler_work api p = Returns p' \<Longrightarrow> prof_step p p'"
| Prof_gc: "on_gc mem e p = Returns p' \<Longrightarrow> p_worker p = Some w \<Longrightarrow> m_work_items w = [] \<Longrightarrow> prof_step p p'"
| Prof_root: "on_root_register start n source p = Returns p' \<Longrightarrow> prof_step p p'"
| Prof_unroot: "on_root_unregister start p = Returns p' \<Longrightarrow> prof_step p p'"
| Prof_frame: "p_frame_index p < 0xFFFFFFFFFFFFFFFE \<Longrightarrow> prof_step p (profiler_on_frame p)"

definition run_ok :: "sink_event list \<Rightarrow> u64 \<Rightarrow> profiler \<Rightarrow> bool" where
  "run_ok E g p \<longleftrightarrow> p_reported p = [] \<and> p_frame_index p < 0xFFFFFFFFFFFFFFFF \<and>
     (\<exists>w. p_worker p = Some w \<and> worker_wf w \<and> stream_ok w \<and> \<not> wt_stop w \<and> clocked E g w (p_frame_index p))"

lemma run_ok_worker:
  assumes "run_ok E g p" "on_worker F p = Returns p'"
    and "\<And>w w'. p_worker p = Some w \<Longrightarrow> worker_wf w \<Longrightarrow> stream_ok w \<Longrightarrow> \<not> wt_stop w \<Longrightarrow> F w = Returns w' \<Longrightarrow>
      clocked E g w (p_frame_index p) \<Longrightarrow>
      clocked E g w' (p_frame_index p) \<and> (\<exists>op. wexec op w = Some w' \<and> quiet op w) \<and> \<not> wt_stop w' \<or> w' = w"
  shows "run_ok E g p'"
proof -
  obtain w where w: "p_worker p = Some w" "worker_wf w" "stream_ok w" "\<not> wt_stop w"
    "clocked E g w (p_frame_index p)" using assms(1) by (auto simp: run_ok_def)
  with assms(2) obtain w' where w': "F w = Returns w'" "p' = p\<lparr>p_worker := Some w'\<rparr>"
    by (cases "F w") (auto simp: on_worker_def)
  from assms(3) [OF w(1-4) w'(1) w(5)] wf_wexec [OF w(2)] stream_wexec [OF w(2,3)] w
  have "worker_wf w' \<and> stream_ok w' \<and> \<not> wt_stop w' \<and> clocked E g w' (p_frame_index p)" by blast
  with assms(1) w'(2) show ?thesis by (simp add: run_ok_def)
qed

lemma work_step_stop: "wt_stop (do_work_step api w) = wt_stop w"
proof -
  have "wt_stop (process_item api i v) = wt_stop v" for i v
    by (simp add: process_item_def add_allocation_def report_def Let_def split: option.split)
  then show ?thesis by (simp add: do_work_step_def Let_def split: option.split)
qed

lemma add_async_facts:
  assumes "add_allocation_async api frame klass obj w = Returns w'"
  obtains i where "m_reported w' = m_reported w" "m_work_items w' = m_work_items w @ [i]"
    "wi_frame i = frame" "wt_stop w' = wt_stop w"
  using assms by (auto simp: add_allocation_async_def Let_def enqueue_def split: if_splits)

lemma run_ok_gc:
  assumes "run_ok E g p" "on_gc mem e p = Returns p'" "p_worker p = Some w" "m_work_items w = []"
  shows "run_ok E g p'"
proof (cases "e = MONO_GC_EVENT_END")
  case True
  then have "on_worker (gc_sync_call mem (p_frame_index p) False) p = Returns p'"
    using assms(2) by (simp add: on_gc_def)
  then show ?thesis
  proof (rule run_ok_worker [OF assms(1)])
    fix w1 w'
    assume w1: "p_worker p = Some w1" "worker_wf w1" "\<not> wt_stop w1" "clocked E g w1 (p_frame_index p)"
      and gc: "gc_sync_call mem (p_frame_index p) False w1 = Returns w'"
    have q: "m_work_items w1 = []" using w1(1) assms(3,4) by simp
    obtain n where n: "do_gc_sync mem (p_frame_index p) False w1 = Some (n, w')" "m_work_items_empty w1"
      using gc by (cases "do_gc_sync mem (p_frame_index p) False w1") (auto simp: gc_sync_call_def split: if_splits)
    then have "wexec (Op_gc mem (p_frame_index p) False) w1 = Some w'" by simp
    moreover have "wt_stop w' = wt_stop w1"
      using n(1) gc_counters(3) by (auto simp: do_gc_sync_def)
    ultimately show "clocked E g w' (p_frame_index p) \<and> (\<exists>op. wexec op w1 = Some w' \<and> quiet op w1) \<and> \<not> wt_stop w' \<or> w' = w1"
      using clocked_gc [OF w1(4,2) n(1)] w1(3) q by (intro disjI1 conjI exI [of _ "Op_gc mem (p_frame_index p) False"]) auto
  qed
next
  case False
  then show ?thesis using assms(1,2) by (simp add: on_gc_def)
qed

lemma run_ok_step: "prof_step p p' \<Longrightarrow> run_ok E g p \<Longrightarrow> run_ok E g p'"
proof (induction rule: prof_step.induct)
  case (Prof_alloc api obj klass p p')
  show ?case
  proof (rule run_ok_worker [OF Prof_alloc(2)])
    show "on_worker (add_allocation_async api (p_frame_index p) klass obj) p = Returns p'"
      using Prof_alloc(1) by (simp add: on_allocation_def)
    fix w w'
    assume a: "\<not> wt_stop w" "add_allocation_async api (p_frame_index p) klass obj w = Returns w'"
      "clocked E g w (p_frame_index p)"
    obtain i where "m_reported w' = m_reported w" "m_work_items w' = m_work_items w @ [i]"
      "wi_frame i = p_frame_index p" "wt_stop w' = wt_stop w" by (rule add_async_facts [OF a(2)])
    with clocked_queue [OF a(3)] a(1,2)
    show "clocked E g w' (p_frame_index p) \<and> (\<exists>op. wexec op w = Some w' \<and> quiet op w) \<and> \<not> wt_stop w' \<or> w' = w"
      by (intro disjI1 conjI exI [of _ "Op_allocation api (p_frame_index p) klass obj"]) auto
  qed
next
  case (Prof_work api p p')
  show ?case
  proof (rule run_ok_worker [OF Prof_work(2) Prof_work(1) [unfolded profiler_work_def]])
    fix w w'
    assume a: "\<not> wt_stop w" "Returns (if wt_thread w then do_work_step api w else w) = Returns w'"
      "clocked E g w (p_frame_index p)"
    have "wt_stop (do_work_step api w) = wt_stop w" by (rule work_step_stop)
    then have stop: "\<not> wt_stop (do_work_step api w)" using a(1) by simp
    show "clocked E g w' (p_frame_index p) \<and> (\<exists>op. wexec op w = Some w' \<and> quiet op w) \<and> \<not> wt_stop w' \<or> w' = w"
    proof (cases "wt_thread w")
      case True
      then have "w' = do_work_step api w" "wexec (Op_work api) w = Some w'" "quiet (Op_work api) w"
        using a(1,2) by simp_all
      then show ?thesis using stop clocked_work [OF a(3), of api] by blast
    qed (use a(2) in simp)
  qed
next
  case (Prof_gc mem e p p' w)
  show ?case by (rule run_ok_gc [OF Prof_gc(4) Prof_gc(1-3)])
next
  case (Prof_root start n source p p')
  show ?case
  proof (cases "source = MONO_ROOT_SOURCE_STACK \<or> source = MONO_ROOT_SOURCE_FINALIZER_QUEUE")
    case False
    then have "on_worker (\<lambda>w. Returns (register_root start n w)) p = Returns p'"
      using Prof_root(1) by (auto simp: on_root_register_def)
    then show ?thesis
    proof (rule run_ok_worker [OF Prof_root(2)])
      fix w w'
      assume a: "\<not> wt_stop w" "Returns (register_root start n w) = Returns w'" "clocked E g w (p_frame_index p)"
      then show "clocked E g w' (p_frame_index p) \<and> (\<exists>op. wexec op w = Some w' \<and> quiet op w) \<and> \<not> wt_stop w' \<or> w' = w"
        using clocked_queue [OF a(3), of w' "[]"]
        by (intro disjI1 conjI exI [of _ "Op_register_root start n"]) (auto simp: register_root_def)
    qed
  qed (use Prof_root in \<open>auto simp: on_root_register_def\<close>)
next
  case (Prof_unroot start p p')
  show ?case
  proof (rule run_ok_worker [OF Prof_unroot(2) Prof_unroot(1) [unfolded on_root_unregister_def]])
    fix w w'
    assume a: "\<not> wt_stop w" "Returns (unregister_root start w) = Returns w'" "clocked E g w (p_frame_index p)"
    then show "clocked E g w' (p_frame_index p) \<and> (\<exists>op. wexec op w = Some w' \<and> quiet op w) \<and> \<not> wt_stop w' \<or> w' = w"
      using clocked_queue [OF a(3), of w' "[]"]
      by (intro disjI1 conjI exI [of _ "Op_unregister_root start"]) (auto simp: unregister_root_def)
  qed
next
  case (Prof_frame p)
  then have "p_frame_index p \<le> p_frame_index p + 1" "p_frame_index p + 1 < 0xFFFFFFFFFFFFFFFF"
    by (simp_all add: word_le_nat_alt word_less_nat_alt unat_word_ariths)
  with Prof_frame show ?case using clocked_later unfolding run_ok_def profiler_on_frame_def by fastforce
qed

interpretation prun: invariant_machine "run_ok E g" prof_step "run_ok E g" for E g
  by unfold_locales (auto intro: run_ok_step)

lemma run_ok_start:
  assumes "profiler_start mono_module new_profiler = Returns (True, p)"
  shows "run_ok [] 0 p"
proof -
  obtain l where l: "mono_module = Some l"
    using assms by (cases mono_module)
      (simp_all add: profiler_start_def try_restart_profiling_def new_profiler_def)
  then obtain fs where "p = (profiler_init (new_profiler\<lparr>p_functions := fs\<rparr>))\<lparr>p_started := True\<rparr>"
    using assms by (cases "init_functions l (p_functions new_profiler)")
      (auto simp: profiler_start_def try_restart_profiling_def new_profiler_def setup_mono_functions_def split: if_splits)
  then have p: "p_reported p = []" "p_frame_index p = 0" "p_worker p = Some (start_thread new_worker)"
    by (simp_all add: profiler_init_def fresh_worker_def install_callbacks_def new_profiler_def p_events_def)
  have "worker_wf new_worker" "stream_ok new_worker"
    using str.init_inv [of new_worker] by (simp_all add: worker_init_def)
  then have "worker_wf (start_thread new_worker)" "stream_ok (start_thread new_worker)"
    using wf_wexec [of new_worker Op_start] stream_wexec [of new_worker Op_start] by simp_all
  then show ?thesis using p
    by (simp add: run_ok_def clocked_def start_thread_def new_worker_def frames_of_def)
qed

lemma run_ok_frame_end:
  assumes "run_ok E g p" "p_worker p = Some w" "m_work_items w = []" "p_frame_index p < 0xFFFFFFFFFFFFFFFE"
  shows "run_ok (m_reported w) (p_frame_index p + 1) (profiler_on_frame p)"
proof -
  have "p_frame_index p + 1 < 0xFFFFFFFFFFFFFFFF"
    using assms(4) by (simp add: word_less_nat_alt unat_word_ariths)
  with assms(1-3) show ?thesis by (simp add: run_ok_def profiler_on_frame_def clocked_def frames_of_def)
qed

section \<open>The reported events as a stream\<close>

fun event_of :: "sink_event \<Rightarrow> profiler_event" where
  "event_of (Report_alloc frame addr n name stack) =
     \<lparr>pe_type = Ev_alloc, pe_frame = frame, pe_addr = addr, pe_size = n, pe_obj_type = name, pe_callstack = stack\<rparr>"
| "event_of (Report_free frame addr n) =
     \<lparr>pe_type = Ev_free, pe_frame = frame, pe_addr = addr, pe_size = n, pe_obj_type = [], pe_callstack = []\<rparr>"
| "event_of _ = undefined"

lemma event_of_frames: "ev_frames e \<noteq> [] \<Longrightarrow> sink_of (event_of e) = e \<and> ev_frames e = [pe_frame (event_of e)]"
  by (cases e) (simp_all add: sink_of_def)

lemma event_of_stream:
  assumes "\<forall>e\<in>set es. ev_frames e \<noteq> []"
  shows "map sink_of (map event_of es) = es" "concat (map ev_frames es) = map pe_frame (map event_of es)"
  using assms by (induction es) (auto dest: event_of_frames)

lemma run_ok_events:
  assumes "run_ok E g p"
  shows "\<exists>w xs. p_worker p = Some w \<and> p_events p = m_reported w \<and> m_reported w = E @ xs \<and>
    (\<forall>e\<in>set xs. ev_frames e \<noteq> []) \<and> sorted (map pe_frame (map event_of xs)) \<and>
    (\<forall>e\<in>set (map event_of xs). g \<le> pe_frame e \<and> pe_frame e \<le> p_frame_index p) \<and>
    p_frame_index p < 0xFFFFFFFFFFFFFFFF \<and> stream_ok w \<and> \<not> wt_stop w"
proof -
  obtain w where w: "p_worker p = Some w" "worker_wf w" "stream_ok w" "\<not> wt_stop w"
    "clocked E g w (p_frame_index p)" "p_reported p = []" "p_frame_index p < 0xFFFFFFFFFFFFFFFF"
    using assms by (auto simp: run_ok_def)
  then obtain xs where xs: "m_reported w = E @ xs" "\<forall>e\<in>set xs. ev_frames e \<noteq> []"
    "sorted (frames_of xs (m_work_items w))"
    "\<forall>x\<in>set (frames_of xs (m_work_items w)). g \<le> x \<and> x \<le> p_frame_index p"
    unfolding clocked_def by blast
  have fr: "frames_of xs (m_work_items w) = map pe_frame (map event_of xs) @ map wi_frame (m_work_items w)"
    unfolding frames_of_def event_of_stream(2) [OF xs(2)] ..
  have "sorted (map pe_frame (map event_of xs))" using xs(3) unfolding fr sorted_append by blast
  moreover have "g \<le> pe_frame e \<and> pe_frame e \<le> p_frame_index p" if "e \<in> set (map event_of xs)" for e
    using xs(4) that unfolding fr by fastforce
  ultimately show ?thesis using w xs(1,2) by (intro exI [of _ w] exI [of _ xs]) (simp add: p_events_def)
qed

end
