(* ===== verification/Client_Types.thy ===== *)
theory Client_Types
  imports Client_Views
begin

text \<open>
  The database as a typed store: every row has the columns of its kind, every id a row names is a
  row of the tables of types and callstacks, and these tables are the caches of the client. The
  invariant is kept by everything a session does, whatever messages arrive.
\<close>

section \<open>Well-typed rows and tables\<close>

definition is_integer :: "sql_value \<Rightarrow> bool" where
  "is_integer v \<longleftrightarrow> (case v of SQL_INTEGER x \<Rightarrow> True | _ \<Rightarrow> False)"

text \<open>A row against the ids of types \<open>T\<close> and of callstacks \<open>S\<close>.\<close>

definition row_typed :: "u64 set \<Rightarrow> u64 set \<Rightarrow> event_row \<Rightarrow> bool" where
  "row_typed T S r \<longleftrightarrow>
     is_integer (er_address r) \<and> is_integer (er_size r) \<and> is_integer (er_frame r) \<and>
     (if er_event_type r = 1
      then (\<exists>i\<in>T. er_type_id r = SQL_INTEGER i) \<and> (\<exists>j\<in>S. er_callstack_id r = SQL_INTEGER j) \<and>
           col_uint64 (er_size r) < 2 ^ 32
      else er_event_type r = 2 \<and> er_type_id r = SQL_NULL \<and> er_callstack_id r = SQL_NULL)"

definition keyed :: "('k \<times> 'v) list \<Rightarrow> bool" where
  "keyed t \<longleftrightarrow> distinct (map fst t) \<and> distinct (map snd t)"

definition db_typed :: "database \<Rightarrow> bool" where
  "db_typed db \<longleftrightarrow> t_created db \<and> t_migrations db = Some [(create_basic_tables, 0)] \<and>
     keyed (t_types db) \<and> keyed (t_callstacks db) \<and> distinct (map sr_frame (t_stats db)) \<and>
     (\<forall>r\<in>set (t_events db). row_typed (fst ` set (t_types db)) (fst ` set (t_callstacks db)) r)"

text \<open>The client against its database.\<close>

definition typed :: "client \<Rightarrow> bool" where
  "typed c \<longleftrightarrow> (\<exists>db. c_db c = Some db \<and> db_typed db \<and>
     t_types db = c_id_to_type c \<and> t_callstacks db = c_id_to_callstacks c) \<and>
     ids_wf (c_type_to_id c) (c_id_to_type c) (c_next_type_id c) \<and>
     ids_wf (c_callstacks_to_id c) (c_id_to_callstacks c) (c_next_callstack_id c)"

text \<open>The ids of a table are numbered from 0 with 64 bits, so the tables must not grow past that.\<close>

definition small :: "client \<Rightarrow> bool" where
  "small c \<longleftrightarrow> length (c_id_to_type c) < 2 ^ 63 \<and> length (c_id_to_callstacks c) < 2 ^ 63"

definition keeps_types :: "client \<Rightarrow> client \<Rightarrow> bool" where
  "keeps_types c c' \<longleftrightarrow> length (c_id_to_type c) \<le> length (c_id_to_type c') \<and>
     length (c_id_to_callstacks c) \<le> length (c_id_to_callstacks c') \<and>
     (typed c \<and> small c' \<longrightarrow> typed c')"

lemma keeps_refl: "keeps_types c c"
  by (simp add: keeps_types_def)

lemma keeps_trans: "keeps_types a b \<Longrightarrow> keeps_types b c \<Longrightarrow> keeps_types a c"
  by (auto simp: keeps_types_def small_def)

lemma keeps_same:
  assumes "c_db c' = c_db c" "c_type_to_id c' = c_type_to_id c" "c_id_to_type c' = c_id_to_type c"
    "c_next_type_id c' = c_next_type_id c" "c_callstacks_to_id c' = c_callstacks_to_id c"
    "c_id_to_callstacks c' = c_id_to_callstacks c" "c_next_callstack_id c' = c_next_callstack_id c"
  shows "keeps_types c c'"
  using assms by (simp add: keeps_types_def typed_def)

lemma row_typed_mono: "row_typed T S r \<Longrightarrow> T \<subseteq> T' \<Longrightarrow> S \<subseteq> S' \<Longrightarrow> row_typed T' S' r"
  by (auto simp: row_typed_def split: if_splits)

section \<open>New names\<close>

lemma ids_fresh:
  assumes "ids_wf a b n" "keyed b" "um_find a t = None" "length b < 2 ^ 63"
  shows "n \<notin> fst ` set b" "t \<notin> snd ` set b" "um_insert n t b = b @ [(n, t)]" "keyed (b @ [(n, t)])"
    "ids_wf (um_insert t n a) (um_insert n t b) (n + 1)"
proof -
  note new = ids_wf_new [OF assms(1,3,4)]
  show n: "n \<notin> fst ` set b" using new(2) by (simp add: um_find_None_iff)
  show t: "t \<notin> snd ` set b"
  proof
    assume "t \<in> snd ` set b"
    then obtain i where "(i, t) \<in> set b" by auto
    then have "um_find b i = Some t" using assms(2) by (simp add: keyed_def)
    then have "um_find a t = Some i" using assms(1) by (simp add: ids_wf_def)
    then show False using assms(3) by simp
  qed
  show "um_insert n t b = b @ [(n, t)]" using new(2) by (simp add: um_insert_def)
  show "keyed (b @ [(n, t)])" using assms(2) n t by (simp add: keyed_def)
  show "ids_wf (um_insert t n a) (um_insert n t b) (n + 1)" by (rule new(1))
qed

lemma length_um_insert: "length m \<le> length (um_insert k v m)"
  by (simp add: um_insert_def)

lemma keeps_type_id:
  assumes "get_or_create_type_id t c = (i, c')"
  shows "keeps_types c c'" "typed c \<and> small c' \<longrightarrow> i \<in> fst ` set (c_id_to_type c')"
proof -
  have "keeps_types c c' \<and> (typed c \<and> small c' \<longrightarrow> i \<in> fst ` set (c_id_to_type c'))"
  proof (cases "um_find (c_type_to_id c) t")
    case (Some j)
    then have "c' = c" "i = j" using assms by (simp_all add: get_or_create_type_id_def)
    moreover have "um_find (c_id_to_type c) j = Some t" if "typed c"
      using that Some by (simp add: typed_def ids_wf_def)
    ultimately show ?thesis using keeps_refl um_find_Some_key by fastforce
  next
    case None
    define c1 where "c1 = c\<lparr>c_next_type_id := c_next_type_id c + 1,
      c_type_to_id := um_insert t (c_next_type_id c) (c_type_to_id c),
      c_id_to_type := um_insert (c_next_type_id c) t (c_id_to_type c)\<rparr>"
    have c': "c' = on_db (insert_type t (c_next_type_id c)) c1" "i = c_next_type_id c"
      using None assms by (auto simp: get_or_create_type_id_def Let_def c1_def)
    have same: "c_id_to_callstacks c' = c_id_to_callstacks c" by (simp add: c' on_db_def c1_def)
    have len: "length (c_id_to_type c) \<le> length (c_id_to_type c')"
      by (simp add: c' on_db_def c1_def length_um_insert)
    have "typed c' \<and> i \<in> fst ` set (c_id_to_type c')" if ok: "typed c" "small c'"
    proof -
      obtain db where db: "c_db c = Some db" "db_typed db" "t_types db = c_id_to_type c"
        "t_callstacks db = c_id_to_callstacks c" using ok(1) by (auto simp: typed_def)
      have "ids_wf (c_type_to_id c) (c_id_to_type c) (c_next_type_id c)" "keyed (c_id_to_type c)"
        "length (c_id_to_type c) < 2 ^ 63"
        using ok db(2,3) len by (auto simp: typed_def db_typed_def small_def)
      note f = ids_fresh [OF this(1,2) None this(3)]
      let ?db = "db\<lparr>t_types := t_types db @ [(c_next_type_id c, t)]\<rparr>"
      have d: "c_db c' = Some ?db" "c_id_to_type c' = c_id_to_type c @ [(c_next_type_id c, t)]"
        using db(1-3) f by (simp_all add: c' on_db_def c1_def insert_type_def db_typed_def)
      moreover have "db_typed ?db"
        using db(2) f(4) unfolding db(3) [symmetric]
        by (auto simp: db_typed_def db(3) elim!: row_typed_mono)
      moreover have "ids_wf (c_type_to_id c') (c_id_to_type c') (c_next_type_id c')"
        "ids_wf (c_callstacks_to_id c') (c_id_to_callstacks c') (c_next_callstack_id c')"
        "i = c_next_type_id c"
        using ok(1) f(5) by (simp_all add: typed_def c' on_db_def c1_def)
      ultimately show ?thesis using db(3,4) same by (auto simp: typed_def)
    qed
    then show ?thesis using len same by (simp add: keeps_types_def)
  qed
  then show "keeps_types c c'" "typed c \<and> small c' \<longrightarrow> i \<in> fst ` set (c_id_to_type c')" by blast+
qed

lemma keeps_callstack_id:
  assumes "get_or_create_callstack_id t c = (i, c')"
  shows "keeps_types c c'" "typed c \<and> small c' \<longrightarrow> i \<in> fst ` set (c_id_to_callstacks c')"
proof -
  have "keeps_types c c' \<and> (typed c \<and> small c' \<longrightarrow> i \<in> fst ` set (c_id_to_callstacks c'))"
  proof (cases "um_find (c_callstacks_to_id c) t")
    case (Some j)
    then have "c' = c" "i = j" using assms by (simp_all add: get_or_create_callstack_id_def)
    moreover have "um_find (c_id_to_callstacks c) j = Some t" if "typed c"
      using that Some by (simp add: typed_def ids_wf_def)
    ultimately show ?thesis using keeps_refl um_find_Some_key by fastforce
  next
    case None
    define c1 where "c1 = c\<lparr>c_next_callstack_id := c_next_callstack_id c + 1,
      c_callstacks_to_id := um_insert t (c_next_callstack_id c) (c_callstacks_to_id c),
      c_id_to_callstacks := um_insert (c_next_callstack_id c) t (c_id_to_callstacks c)\<rparr>"
    have c': "c' = on_db (insert_callstack t (c_next_callstack_id c)) c1" "i = c_next_callstack_id c"
      using None assms by (auto simp: get_or_create_callstack_id_def Let_def c1_def)
    have same: "c_id_to_type c' = c_id_to_type c" by (simp add: c' on_db_def c1_def)
    have len: "length (c_id_to_callstacks c) \<le> length (c_id_to_callstacks c')"
      by (simp add: c' on_db_def c1_def length_um_insert)
    have "typed c' \<and> i \<in> fst ` set (c_id_to_callstacks c')" if ok: "typed c" "small c'"
    proof -
      obtain db where db: "c_db c = Some db" "db_typed db" "t_callstacks db = c_id_to_callstacks c"
        "t_types db = c_id_to_type c" using ok(1) by (auto simp: typed_def)
      have "ids_wf (c_callstacks_to_id c) (c_id_to_callstacks c) (c_next_callstack_id c)" "keyed (c_id_to_callstacks c)"
        "length (c_id_to_callstacks c) < 2 ^ 63"
        using ok db(2,3) len by (auto simp: typed_def db_typed_def small_def)
      note f = ids_fresh [OF this(1,2) None this(3)]
      let ?db = "db\<lparr>t_callstacks := t_callstacks db @ [(c_next_callstack_id c, t)]\<rparr>"
      have d: "c_db c' = Some ?db" "c_id_to_callstacks c' = c_id_to_callstacks c @ [(c_next_callstack_id c, t)]"
        using db(1-3) f by (simp_all add: c' on_db_def c1_def insert_callstack_def db_typed_def)
      moreover have "db_typed ?db"
        using db(2) f(4) unfolding db(3) [symmetric]
        by (auto simp: db_typed_def db(3) elim!: row_typed_mono)
      moreover have "ids_wf (c_callstacks_to_id c') (c_id_to_callstacks c') (c_next_callstack_id c')"
        "ids_wf (c_type_to_id c') (c_id_to_type c') (c_next_type_id c')"
        "i = c_next_callstack_id c"
        using ok(1) f(5) by (simp_all add: typed_def c' on_db_def c1_def)
      ultimately show ?thesis using db(3,4) same by (auto simp: typed_def)
    qed
    then show ?thesis using len same by (simp add: keeps_types_def)
  qed
  then show "keeps_types c c'" "typed c \<and> small c' \<longrightarrow> i \<in> fst ` set (c_id_to_callstacks c')" by blast+
qed

section \<open>Events and frames\<close>

lemma keeps_insert:
  assumes "\<And>db. typed c \<Longrightarrow> c_db c = Some db \<Longrightarrow> db_typed db \<Longrightarrow> db_typed (snd (f db)) \<and>
      t_types (snd (f db)) = t_types db \<and> t_callstacks (snd (f db)) = t_callstacks db"
  shows "keeps_types c (on_db f c)"
  using assms by (auto simp: keeps_types_def typed_def on_db_def)

lemma typed_ids:
  assumes "typed c" "c_db c = Some db"
  shows "db_typed db" "t_types db = c_id_to_type c" "t_callstacks db = c_id_to_callstacks c"
  using assms by (auto simp: typed_def)

lemma col_of_uint64: "col_of (V_ui64 x) = SQL_INTEGER x" "is_integer (col_of (V_ui32 y))"
  by (simp_all add: col_of_def bind_value_def get_if_int32_def get_if_int64_def get_if_uint32_def
      get_if_uint64_def sqlite3_bind_int_def sqlite3_bind_int64_def is_integer_def)

lemma ucast_u32_less: "(ucast (n :: u32) :: u64) < 2 ^ 32"
proof -
  have "unat n < 2 ^ 32" using unsigned_less [of n, where ?'a = nat] by simp
  then have "unat (ucast n :: u64) < 2 ^ 32" by (simp add: unsigned_ucast_eq take_bit_nat_eq_self)
  then show ?thesis by (simp add: word_less_nat_alt)
qed

lemma keeps_alloc_row:
  assumes "typed c \<Longrightarrow> i \<in> fst ` set (c_id_to_type c)" "typed c \<Longrightarrow> j \<in> fst ` set (c_id_to_callstacks c)"
  shows "keeps_types c (on_db (insert_alloc_event frame addr (ucast (n :: u32)) i j) c)"
proof (rule keeps_insert)
  fix db
  assume db: "typed c" "c_db c = Some db" "db_typed db"
  then show "db_typed (snd (insert_alloc_event frame addr (ucast n) i j db)) \<and>
      t_types (snd (insert_alloc_event frame addr (ucast n) i j db)) = t_types db \<and>
      t_callstacks (snd (insert_alloc_event frame addr (ucast n) i j db)) = t_callstacks db"
    using assms(1,2) [OF db(1)] typed_ids(2,3) [OF db(1,2)] ucast_u32_less [of n]
    by (auto simp: insert_alloc_event_def db_typed_def row_typed_def col_of_uint64 is_integer_def
        col_uint64_def get_if_int64_def)
qed

lemma keeps_save_event: "keeps_types c (save_event e c)"
proof (cases "pe_type e")
  case Ev_alloc
  obtain i c1 where t: "get_or_create_type_id (pe_obj_type e) c = (i, c1)" by force
  obtain j c2 where s: "get_or_create_callstack_id (pe_callstack e) c1 = (j, c2)" by force
  have ij: "c_id_to_type c2 = c_id_to_type c1"
    using s by (auto simp: get_or_create_callstack_id_def on_db_def Let_def split: option.splits)
  note T = keeps_type_id [OF t] and S = keeps_callstack_id [OF s]
  have se: "save_event e c = on_db (insert_alloc_event (pe_frame e) (pe_addr e) (ucast (pe_size e)) i j) c2"
    using Ev_alloc t s by (simp add: save_event_def)
  have "keeps_types c (save_event e c)"
    if ok: "typed c" "small (save_event e c)"
  proof -
    have small: "small c2" "small c1"
      using ok(2) S(1) by (auto simp: se small_def on_db_def keeps_types_def)
    then have "typed c1" using T(1) ok(1) by (simp add: keeps_types_def)
    then have "i \<in> fst ` set (c_id_to_type c2)" "j \<in> fst ` set (c_id_to_callstacks c2)"
      using T(2) S(2) small ok(1) ij by simp_all
    then show ?thesis
      unfolding se by (intro keeps_trans [OF keeps_trans [OF T(1) S(1)]] keeps_alloc_row)
  qed
  moreover have "length (c_id_to_type c) \<le> length (c_id_to_type (save_event e c)) \<and>
      length (c_id_to_callstacks c) \<le> length (c_id_to_callstacks (save_event e c))"
    using keeps_trans [OF T(1) S(1)] by (simp add: se on_db_def keeps_types_def)
  ultimately show ?thesis by (auto simp: keeps_types_def)
next
  case Ev_free
  have "keeps_types c (on_db (insert_free_event (pe_frame e) (pe_addr e) (pe_size e)) c)"
    by (rule keeps_insert) (auto simp: insert_free_event_def db_typed_def row_typed_def col_of_uint64
        is_integer_def [of "SQL_INTEGER _"])
  with Ev_free show ?thesis by (simp add: save_event_def)
qed

lemma keeps_fold: "(\<And>x c. keeps_types c (f x c)) \<Longrightarrow> keeps_types c (fold f xs c)"
  by (induction xs arbitrary: c) (auto intro: keeps_refl keeps_trans)

lemma keeps_stats: "keeps_types c (on_db (insert_frame_stats frame allocs frees n) c)"
  by (rule keeps_insert) (auto simp: insert_frame_stats_def db_typed_def distinct_map_filter)

lemma keeps_save_frame:
  assumes "save_frame_events c = Some c'"
  shows "keeps_types c c'"
proof -
  let ?c1 = "fold save_event (c_frame_events c) c"
  let ?c2 = "on_db (insert_frame_stats (c_prev_frame ?c1) (c_frame_allocs ?c1) (c_frame_frees ?c1)
    (c_size_running_total ?c1)) ?c1"
  have "keeps_types ?c2 (?c2\<lparr>c_frame_events := []\<rparr>)" by (rule keeps_same) simp_all
  moreover have "keeps_types c ?c1" by (rule keeps_fold) (rule keeps_save_event)
  ultimately have "keeps_types c (?c2\<lparr>c_frame_events := []\<rparr>)"
    using keeps_stats keeps_trans by blast
  moreover have "c' = c \<or> c' = ?c2\<lparr>c_frame_events := []\<rparr>"
    using assms by (simp add: save_frame_events_def Let_def split: if_splits)
  ultimately show ?thesis using keeps_refl by blast
qed

lemma keeps_try_save:
  assumes "try_save_events frame c = Some c'"
  shows "keeps_types c c'"
proof (cases "frame = c_prev_frame c")
  case True
  then show ?thesis using assms keeps_refl by (simp add: try_save_events_def)
next
  case False
  define c0 where "c0 = (if \<not> c_has_min_frame c then c\<lparr>c_min_frame := frame, c_has_min_frame := True\<rparr> else c)"
  define c2 where "c2 = (if frame > c_max_frame c0 then c0\<lparr>c_max_frame := frame\<rparr> else c0)"
  have "try_save_events frame c = map_option (\<lambda>c3. c3\<lparr>c_prev_frame := frame, c_frame_allocs := 0,
      c_frame_frees := 0\<rparr>) (save_frame_events c2)"
    using False by (simp add: try_save_events_def c2_def c0_def Let_def)
  then obtain c3 where c3: "save_frame_events c2 = Some c3"
    "c' = c3\<lparr>c_prev_frame := frame, c_frame_allocs := 0, c_frame_frees := 0\<rparr>"
    using assms by (cases "save_frame_events c2") auto
  have "keeps_types c c2" by (rule keeps_same) (simp_all add: c2_def c0_def)
  moreover have "keeps_types c3 c'" by (rule keeps_same) (simp_all add: c3(2))
  ultimately show ?thesis using keeps_save_frame [OF c3(1)] keeps_trans by blast
qed

section \<open>Messages and sessions\<close>

lemma keeps_add_event:
  assumes "try_save_events frame c = Some d"
  shows "keeps_types c (add_alloc f a n t s d)" "keeps_types c (add_free f a n d)"
proof -
  have "keeps_types d (add_alloc f a n t s d)" "keeps_types d (add_free f a n d)"
    by (rule keeps_same; simp add: add_alloc_def add_free_def)+
  then show "keeps_types c (add_alloc f a n t s d)" "keeps_types c (add_free f a n d)"
    using keeps_trans [OF keeps_try_save [OF assms]] by blast+
qed

lemma keeps_on_alloc: "on_alloc junk r c = Some c' \<Longrightarrow> keeps_types c c'"
  by (auto simp: on_alloc_def Let_def keeps_refl keeps_add_event split: if_splits read_result.splits)

lemma keeps_on_free: "on_free junk_addr junk_size r c = Some c' \<Longrightarrow> keeps_types c c'"
  by (auto simp: on_free_def keeps_refl keeps_add_event split: read_result.splits)

lemma keeps_on_references: "on_references junk r c = Some (b, c') \<Longrightarrow> keeps_types c c'"
  by (auto simp: on_references_def Let_def keeps_refl split: read_result.splits prod.splits option.splits
      base_command.splits intro!: keeps_same)

lemma keeps_on_ack: "on_ack type cb r c = Some (b, c') \<Longrightarrow> keeps_types c c'"
  by (auto simp: on_ack_def Let_def keeps_refl split: read_result.splits prod.splits option.splits
      intro!: keeps_same)

lemma keeps_limit: "limit_events c = Some c' \<Longrightarrow> keeps_types c c'"
  by (auto simp: limit_events_def keeps_refl keeps_save_frame split: if_splits)

lemma keeps_message:
  assumes "process_message junk msg c = Some c'"
  shows "keeps_types c c'"
proof -
  have "\<exists>d. keeps_types c d \<and> (c' = d \<or> limit_events d = Some c')"
    using assms
    by (auto simp: process_message_def Let_def split: if_splits option.splits prod.splits
        dest: keeps_on_alloc keeps_on_free keeps_on_references keeps_on_ack)
  then show ?thesis using keeps_limit keeps_trans by blast
qed

lemma keeps_process_all: "process_all junk ms c = Some c' \<Longrightarrow> keeps_types c c'"
proof (induction ms arbitrary: c)
  case (Cons m ms)
  then obtain d where "process_message junk m c = Some d" "process_all junk ms d = Some c'"
    by (auto split: option.splits)
  then show ?case using Cons.IH keeps_message keeps_trans by blast
qed (simp add: keeps_refl)

lemma keeps_process_end: "process_end c = Some c' \<Longrightarrow> keeps_types c c'"
  by (auto simp: process_end_def keeps_refl keeps_try_save split: list.splits)

lemma keeps_network: "keeps_types c (c\<lparr>c_network := n\<rparr>)"
  by (rule keeps_same) simp_all

lemma keeps_stop:
  assumes "client_stop junk c = Some c'"
  shows "keeps_types c c'"
proof -
  let ?c1 = "c\<lparr>c_stop := True\<rparr>"
  obtain c3 where c3: "(if c_thread ?c1
      then (case process_all junk (m_read_buffer (c_network ?c1))
               (?c1\<lparr>c_network := (c_network ?c1)\<lparr>m_read_buffer := []\<rparr>\<rparr>) of
              None \<Rightarrow> None | Some c2 \<Rightarrow> process_end c2)
      else Some ?c1) = Some c3" "c' = c3\<lparr>c_thread := False, c_network := net_stop_all (c_network c3)\<rparr>"
    using assms unfolding client_stop_def Let_def by auto
  have "keeps_types c ?c1" by (rule keeps_same) simp_all
  moreover have "keeps_types ?c1 c3"
    using c3(1) keeps_trans [OF keeps_trans [OF keeps_network keeps_process_all] keeps_process_end] keeps_refl
    by (auto split: if_splits option.splits)
  moreover have "keeps_types c3 c'" by (rule keeps_same) (simp_all add: c3(2))
  ultimately show ?thesis using keeps_trans by blast
qed

text \<open>Everything that happens to a client between \<^verbatim>\<open>start\<close> and the end of its session.\<close>

inductive cstep :: "client \<Rightarrow> client \<Rightarrow> bool" where
  receive: "cstep c (c\<lparr>c_network := n\<rparr>)"
| message: "process_message junk msg c = Some c' \<Longrightarrow> cstep c c'"
| references: "find_objects_references padding addrs c = Some c' \<Longrightarrow> cstep c c'"
| pause: "client_pause_app padding c = Some c' \<Longrightarrow> cstep c c'"
| resume: "client_resume_app padding c = Some c' \<Longrightarrow> cstep c c'"
| stop: "client_stop junk c = Some c' \<Longrightarrow> cstep c c'"

lemma keeps_send:
  assumes "send padding type buf (c\<lparr>c_next_request_id := i, c_commands := cs\<rparr>) = Some c'"
  shows "keeps_types c c'"
  using assms by (auto simp: send_def intro!: keeps_same)

lemma keeps_cstep: "cstep c c' \<Longrightarrow> keeps_types c c'"
  by (induction rule: cstep.induct)
    (auto simp: keeps_network keeps_message keeps_stop find_objects_references_def client_pause_app_def
      client_resume_app_def add_command_def intro: keeps_send)

definition session_start :: "client \<Rightarrow> bool" where
  "session_start c \<longleftrightarrow> c = fresh_client"

lemma fresh_typed: "typed fresh_client"
  unfolding fresh_client_eq
  by (simp add: new_client_def typed_def db_typed_def empty_database_def keyed_def ids_wf_def)

interpretation ty: invariant_machine session_start cstep "\<lambda>c. small c \<longrightarrow> typed c"
proof unfold_locales
  show "small s \<longrightarrow> typed s" if "session_start s" for s
    using that fresh_typed by (simp add: session_start_def)
  show "small t \<longrightarrow> typed t" if "small s \<longrightarrow> typed s" "cstep s t" for s t
    using that(1) keeps_cstep [OF that(2)] by (auto simp: keeps_types_def small_def)
qed

text \<open>
  C10. The database of a session is well typed, whatever messages arrive and whatever is asked:
  types and callstacks have unique ids and names, a frame has one row of statistics, a row of an
  allocation has integer columns, a size below \<open>2^32\<close> and names a row of the table of types and
  one of the table of callstacks, and a row of a free names none.
\<close>

theorem database_well_typed:
  assumes "steps cstep fresh_client c" "small c"
  shows "\<exists>db. c_db c = Some db \<and> db_typed db \<and>
    t_types db = c_id_to_type c \<and> t_callstacks db = c_id_to_callstacks c"
  using ty.reachable_inv [of fresh_client c] assms by (auto simp: session_start_def typed_def)

lemma at_frame_small: "at_frame k f es c \<Longrightarrow> small c"
  by (auto simp: at_frame_def store_ok_def small_def)

lemma process_all_steps: "process_all junk ms c = Some c' \<Longrightarrow> steps cstep c c'"
proof (induction ms arbitrary: c)
  case (Cons m ms)
  then obtain d where "process_message junk m c = Some d" "process_all junk ms d = Some c'"
    by (auto split: option.splits)
  then show ?case using Cons.IH steps_trans [OF steps_one [of cstep, OF cstep.message]] by blast
qed (auto intro: steps_refl)

lemma example_session:
  obtains c where "steps cstep fresh_client c" "small c" "saved c @ c_frame_events c = example_stream"
    "c_frame_events c \<noteq> example_stream"
proof -
  obtain c where c: "process_all 0 (map event_message example_stream) fresh_client = Some c"
    "at_frame 0 (pe_frame (last example_stream)) (map arrived example_stream) c"
    by (rule stream_run [OF fresh_ready [OF example_stream_wf(3)] example_stream_wf(1,2)])
  have "map arrived example_stream = example_stream" by (simp add: example_stream_def arrived_def c_str_def)
  moreover have "saved c @ c_frame_events c = map arrived example_stream"
    and f: "\<forall>e\<in>set (c_frame_events c). pe_frame e = pe_frame (last example_stream)"
    using c(2) unfolding at_frame_def by blast+
  ultimately have "saved c @ c_frame_events c = example_stream" by metis
  moreover have "c_frame_events c \<noteq> example_stream"
  proof
    assume "c_frame_events c = example_stream"
    then show False using f by (simp add: example_stream_def)
  qed
  ultimately show ?thesis
    by (intro that [OF process_all_steps [OF c(1)] at_frame_small [OF c(2)]])
qed

theorem database_well_typed_witness:
  "\<exists>c db. steps cstep fresh_client c \<and> c_db c = Some db \<and> db_typed db \<and> t_events db \<noteq> []"
proof -
  obtain c where c: "steps cstep fresh_client c" "small c" "saved c @ c_frame_events c = example_stream"
    "c_frame_events c \<noteq> example_stream" by (rule example_session)
  then have "saved c \<noteq> []" by auto
  then have "rows c \<noteq> []" by (simp add: saved_def)
  with database_well_typed [OF c(1,2)] c(1) show ?thesis by (auto simp: rows_def)
qed

end
