(* ===== verification/Client_Files.thy ===== *)
theory Client_Files
  imports Client_Types
begin

text \<open>
  Traces in files: what a client shows of a trace that it or another client has saved. Loading
  adds the names of the file to the caches and never replaces one, so a client that has seen
  another trace before shows its names.
\<close>

lemma fold_um_insert:
  "distinct (map fst xs) \<Longrightarrow> fst ` set xs \<inter> um_keys m = {} \<Longrightarrow> fold (\<lambda>(k, v). um_insert k v) xs m = m @ xs"
proof (induction xs arbitrary: m)
  case (Cons x xs)
  obtain k v where x: "x = (k, v)" by force
  have "k \<notin> um_keys m" using Cons.prems(2) x by auto
  then have "um_find m k = None" by (simp add: um_find_None_iff)
  then have "um_insert k v m = m @ [(k, v)]" by (simp add: um_insert_def)
  then show ?case using Cons x by auto
qed simp

lemma um_find_fold:
  "um_find (fold (\<lambda>(k, v). um_insert k v) xs m) k =
     (case um_find m k of Some v \<Rightarrow> Some v | None \<Rightarrow> map_of xs k)"
  by (induction xs arbitrary: m) (auto simp: um_find_insert split: option.splits)

lemma um_insert_present: "um_find m k \<noteq> None \<Longrightarrow> um_insert k v m = m"
  by (auto simp: um_insert_def)

lemma fold_um_present: "fst ` set xs \<subseteq> um_keys m \<Longrightarrow> fold (\<lambda>(k, v). um_insert k v) xs m = m"
proof (induction xs)
  case (Cons x xs)
  obtain k v where x: "x = (k, v)" by force
  then have "um_find m k \<noteq> None" using Cons.prems by (simp add: um_find_None_iff del: not_None_eq)
  then show ?case using Cons x by (simp add: um_insert_present)
qed simp

text \<open>The caches after loading, one by one.\<close>

lemma load_fold:
  "fold (\<lambda>(i, t) c. c\<lparr>c_type_to_id := um_insert t i (c_type_to_id c),
       c_id_to_type := um_insert i t (c_id_to_type c)\<rparr>) xs c =
     c\<lparr>c_type_to_id := fold (\<lambda>(t, i). um_insert t i) (map prod.swap xs) (c_type_to_id c),
       c_id_to_type := fold (\<lambda>(i, t). um_insert i t) xs (c_id_to_type c)\<rparr>"
  "fold (\<lambda>(i, t) c. c\<lparr>c_callstacks_to_id := um_insert t i (c_callstacks_to_id c),
       c_id_to_callstacks := um_insert i t (c_id_to_callstacks c)\<rparr>) xs c =
     c\<lparr>c_callstacks_to_id := fold (\<lambda>(t, i). um_insert t i) (map prod.swap xs) (c_callstacks_to_id c),
       c_id_to_callstacks := fold (\<lambda>(i, t). um_insert i t) xs (c_id_to_callstacks c)\<rparr>"
  by (induction xs arbitrary: c) (simp_all add: case_prod_beta)

lemma open_typed:
  assumes "db_typed db" "\<not> c_thread c"
  shows "open_data (Some db) c = (True, c\<lparr>c_db := Some db,
     c_type_to_id := fold (\<lambda>(t, i). um_insert t i) (map prod.swap (t_types db)) (c_type_to_id c),
     c_id_to_type := fold (\<lambda>(i, t). um_insert i t) (t_types db) (c_id_to_type c),
     c_callstacks_to_id := fold (\<lambda>(t, i). um_insert t i) (map prod.swap (t_callstacks db)) (c_callstacks_to_id c),
     c_id_to_callstacks := fold (\<lambda>(i, t). um_insert i t) (t_callstacks db) (c_id_to_callstacks c),
     c_min_frame := fst (select_min_max_frame db), c_max_frame := snd (select_min_max_frame db)\<rparr>)"
proof -
  have "upgrade_database db = (True, db)"
    using assms(1) by (intro upgrade_database_again [where l = "[(create_basic_tables, 0)]"])
      (simp_all add: db_typed_def)
  then show ?thesis
    using assms(2) by (simp add: open_data_def load_types_and_callstacks_def select_types_def
        select_callstacks_def load_fold case_prod_beta Let_def)
qed

section \<open>Saving and opening again\<close>

text \<open>The same client: only the range of frames is read anew.\<close>

lemma save_db_same:
  assumes "typed c" "\<not> c_thread c" "c_db c = Some db"
  shows "save_db True c = (True, c\<lparr>c_min_frame := fst (select_min_max_frame db),
    c_max_frame := snd (select_min_max_frame db)\<rparr>)"
proof -
  note db = typed_ids [OF assms(1,3)]
  have iff: "\<And>t i. um_find (c_type_to_id c) t = Some i \<longleftrightarrow> um_find (c_id_to_type c) i = Some t"
    "\<And>t i. um_find (c_callstacks_to_id c) t = Some i \<longleftrightarrow> um_find (c_id_to_callstacks c) i = Some t"
    using assms(1) by (simp_all add: typed_def ids_wf_def)
  have k: "keyed (c_id_to_type c)" "keyed (c_id_to_callstacks c)" using db by (simp_all add: db_typed_def)
  have "fst ` set (map prod.swap (t_types db)) \<subseteq> um_keys (c_type_to_id c)"
  proof
    fix t assume "t \<in> fst ` set (map prod.swap (t_types db))"
    then obtain i where "(i, t) \<in> set (c_id_to_type c)" using db(2) by auto
    then have "um_find (c_id_to_type c) i = Some t" using k(1) by (simp add: keyed_def)
    then show "t \<in> um_keys (c_type_to_id c)" using iff(1) um_find_Some_key by metis
  qed
  moreover have "fst ` set (map prod.swap (t_callstacks db)) \<subseteq> um_keys (c_callstacks_to_id c)"
  proof
    fix t assume "t \<in> fst ` set (map prod.swap (t_callstacks db))"
    then obtain i where "(i, t) \<in> set (c_id_to_callstacks c)" using db(3) by auto
    then have "um_find (c_id_to_callstacks c) i = Some t" using k(2) by (simp add: keyed_def)
    then show "t \<in> um_keys (c_callstacks_to_id c)" using iff(2) um_find_Some_key by metis
  qed
  ultimately show ?thesis
    using assms(3) open_typed [OF db(1) assms(2)] db(2,3)
    by (simp add: save_db_def fold_um_present)
qed

lemma open_new_caches:
  assumes "db_typed db"
  shows "\<exists>c. open_data (Some db) new_client = (True, c) \<and> c_db c = Some db \<and>
    c_id_to_type c = t_types db \<and> c_id_to_callstacks c = t_callstacks db \<and>
    get_frame_boundaries c = select_min_max_frame db"
proof -
  have "distinct (map fst (t_types db))" "distinct (map fst (t_callstacks db))"
    using assms by (simp_all add: db_typed_def keyed_def)
  then have "fold (\<lambda>(i, t). um_insert i t) (t_types db) [] = t_types db"
    "fold (\<lambda>(i, t). um_insert i t) (t_callstacks db) [] = t_callstacks db"
    by (simp_all add: fold_um_insert)
  moreover have "\<not> c_thread new_client" by (simp add: new_client_def)
  ultimately show ?thesis
    using open_typed [OF assms, of new_client] by (simp add: new_client_def get_frame_boundaries_def)
qed



section \<open>Names of another trace\<close>

text \<open>
  C12. Names of different traces are mixed up: a client that has opened one trace and then opens
  another shows, for every id that both traces use, the name that the first trace gives it. As
  ids count from 0 in every trace, only types of the second trace beyond the number of
  types of the first one keep their names.
\<close>

theorem opened_names_mixed:
  assumes "db_typed db1" "db_typed db2"
  shows "\<exists>c1 c2. open_data (Some db1) new_client = (True, c1) \<and> open_data (Some db2) c1 = (True, c2) \<and>
    c_db c2 = Some db2 \<and>
    (\<forall>i. get_type_name i c2 = (case map_of (t_types db1) i of Some t \<Rightarrow> c_str t
       | None \<Rightarrow> (case map_of (t_types db2) i of Some t \<Rightarrow> c_str t | None \<Rightarrow> [])))"
proof -
  obtain c1 where c1: "open_data (Some db1) new_client = (True, c1)" "c_id_to_type c1 = t_types db1"
    using open_new_caches [OF assms(1)] by blast
  have "\<not> c_thread new_client" by (simp add: new_client_def)
  with open_typed [OF assms(1)] c1(1) have "\<not> c_thread c1" by auto
  note o2 = open_typed [OF assms(2) this]
  show ?thesis
    by (intro exI conjI, rule c1(1), rule o2) (auto simp: get_type_name_def um_find_fold c1(2) split: option.splits)
qed

text \<open>The same happens to a session that starts after a trace was opened: the number for the
  next new type is still 0, and the name of that id stays the one of the trace.\<close>

lemma recorded_name_wrong:
  assumes "db_typed db" "map_of (t_types db) 0 = Some old" "name \<notin> snd ` set (t_types db)"
    and "open_data (Some db) new_client = (True, c1)" "client_start None (Some empty_database) c1 = (ok, c2)"
    and "get_or_create_type_id name c2 = (i, c3)"
  shows "i = 0 \<and> get_type_name i c3 = c_str old"
proof -
  have "\<not> c_thread new_client" by (simp add: new_client_def)
  note o = open_typed [OF assms(1) this]
  have "name \<notin> fst ` set (map prod.swap (t_types db))" using assms(3) by force
  then have "map_of (map prod.swap (t_types db)) name = None" by (simp only: map_of_eq_None_iff not_False_eq_True)
  then have c1: "c_next_type_id c1 = 0" "um_find (c_id_to_type c1) 0 = Some old" "um_find (c_type_to_id c1) name = None"
    using o assms(2,4) by (auto simp: new_client_def um_find_fold)
  have c2: "c_next_type_id c2 = c_next_type_id c1" "c_id_to_type c2 = c_id_to_type c1"
    "c_type_to_id c2 = c_type_to_id c1"
    using assms(5) by (auto simp: client_start_def Let_def split: prod.splits bool.splits if_splits)
  then show ?thesis
    using c1 assms(6) by (auto simp: get_or_create_type_id_def Let_def on_db_def get_type_name_def um_find_insert)
qed

definition trace_of :: "bytes \<Rightarrow> database" where
  "trace_of name = empty_database\<lparr>t_created := True, t_migrations := Some [(create_basic_tables, 0)],
     t_types := [(0, name)]\<rparr>"

theorem opened_names_mixed_witness:
  "\<exists>c1 c2. open_data (Some (trace_of [65])) new_client = (True, c1) \<and>
     open_data (Some (trace_of [66])) c1 = (True, c2) \<and>
     map_of (t_types (trace_of [66])) 0 = Some [66] \<and> get_type_name 0 c2 = [65]"
proof -
  have "db_typed (trace_of n)" for n
    by (simp add: trace_of_def db_typed_def keyed_def empty_database_def)
  from opened_names_mixed [OF this this, of "[65]" "[66]"] show ?thesis
    by (auto simp: trace_of_def c_str_def)
qed

end
