(* ===== verification/End_To_End.thy ===== *)
theory End_To_End
  imports Profiled_Run Client_Files
begin

text \<open>
  From the profiled process to the user interface: the live objects that the client shows for a
  range of frames are the table of the worker at the end of that range.
\<close>

lemma sink_of_arrived: "replay_event (sink_of (arrived e)) M = replay_event (sink_of e) M"
  by (simp add: sink_of_def arrived_def split: event_kind.split)

lemma replay_arrived: "replay (map sink_of (map arrived es)) M = replay (map sink_of es) M"
  by (induction es arbitrary: M) (simp_all add: sink_of_arrived split: option.split)

section \<open>Rows and live objects\<close>

text \<open>If the events of the rows can be replayed, the loop over the rows computes the same objects.\<close>

lemma live_replay:
  assumes "replay (map sink_of (map (row_event c) rs)) Map.empty = Some M"
  shows "M a = map_option (\<lambda>x. ucast (lo_size x)) (um_find (fold live_step rs []) a) \<and>
    (\<forall>x. um_find (fold live_step rs []) a = Some x \<longrightarrow>
       (\<exists>r\<in>set rs. x = row_object r \<and> er_event_type r = 1 \<and> col_uint64 (er_address r) = a))"
  using assms
proof (induction rs arbitrary: M a rule: rev_induct)
  case Nil
  then show ?case by auto
next
  case (snoc r rs)
  let ?e = "sink_of (row_event c r)"
  obtain M1 where M1: "replay (map sink_of (map (row_event c) rs)) Map.empty = Some M1" "replay_event ?e M1 = Some M"
    using snoc.prems by (auto simp: replay_append bind_eq_Some_conv split: option.splits)
  note IH = snoc.IH [OF M1(1)]
  show ?case
  proof (cases "er_event_type r = 1")
    case True
    then have e: "?e = Report_alloc (col_uint64 (er_frame r)) (col_uint64 (er_address r)) (ucast (col_uint64 (er_size r)))
        (pe_obj_type (row_event c r)) (pe_callstack (row_event c r))"
      by (simp add: sink_of_def row_event_def)
    then have "M1 (col_uint64 (er_address r)) = None" "M = M1(col_uint64 (er_address r) \<mapsto> ucast (col_uint64 (er_size r)))"
      using M1(2) by (auto split: if_splits)
    then show ?thesis
      using IH [of a] IH [of "col_uint64 (er_address r)"] True
      by (auto simp: live_step_find row_object_def split: option.splits)
  next
    case False
    then have e: "?e = Report_free (col_uint64 (er_frame r)) (col_uint64 (er_address r)) (ucast (col_uint64 (er_size r)))"
      by (simp add: sink_of_def row_event_def)
    then have "M = M1(col_uint64 (er_address r) := None)" using M1(2) by (auto split: if_splits)
    then show ?thesis using IH [of a] False by (auto simp: live_step_find)
  qed
qed

lemma u64_below: "(x :: u64) \<le> f \<Longrightarrow> f < 2 ^ 31 \<Longrightarrow> unat x < 2 ^ 63"
  by (simp add: word_le_nat_alt word_less_nat_alt)

text \<open>For a bound below \<open>2^31\<close>, which the user interface passes as an \<^verbatim>\<open>int\<close>, the query selects the
  rows up to that frame, in the order of the table when the frames are in order.\<close>

lemma select_events_up_to:
  assumes "f < 2 ^ 31" "sorted (map (\<lambda>r. col_uint64 (er_frame r)) (filter (\<lambda>r. col_uint64 (er_frame r) \<le> f) (t_events db)))"
  shows "select_events 0 (scast (ucast f :: u32)) db = filter (\<lambda>r. col_uint64 (er_frame r) \<le> f) (t_events db)"
proof -
  have "unat f < 2 ^ 31" using assms(1) by (simp add: word_less_nat_alt)
  then have "unat (ucast f :: u32) = unat f"
    by (simp add: unsigned_ucast_eq take_bit_nat_eq_self)
  then have f: "scast (ucast f :: u32) = f"
    using scast_small [of "ucast f"] \<open>unat f < 2 ^ 31\<close> by (simp add: word_unat_eq_iff)
  have in_f: "in_frames 0 f x \<longleftrightarrow> x \<le> f" for x :: u64
  proof -
    have "sint f = int (unat f)" using u64_below [of f f] assms(1) by (intro sint_small) simp
    moreover have "sint x = int (unat x)" if "0 \<le> sint x"
    proof -
      have "sint x < 2 ^ 64" using sint_lt [of x] by simp
      with that have "take_bit 64 (sint x) = sint x" by (rule take_bit_int_eq_self)
      then have "uint x = sint x" using uint_sint [of x] by simp
      then show ?thesis by (metis uint_nat)
    qed
    moreover have "sint x = int (unat x)" if "x \<le> f" using u64_below [OF that assms(1)] by (rule sint_small)
    ultimately show ?thesis by (auto simp: in_frames_def word_le_def)
  qed
  let ?rs = "filter (\<lambda>r. col_uint64 (er_frame r) \<le> f) (t_events db)"
  have "sorted (map (\<lambda>r. sint (col_uint64 (er_frame r))) ?rs)"
  proof -
    have "map (\<lambda>r. sint (col_uint64 (er_frame r))) ?rs = map (\<lambda>x. int (unat x)) (map (\<lambda>r. col_uint64 (er_frame r)) ?rs)"
      using u64_below [OF _ assms(1)] by (auto simp: sint_small)
    moreover have "sorted (map (\<lambda>x. int (unat x)) xs)" if "sorted xs" for xs :: "u64 list"
      using that by (induction xs) (auto simp: word_le_def)
    ultimately show ?thesis using assms(2) by metis
  qed
  then have "sort_key (\<lambda>r. sint (col_uint64 (er_frame r))) ?rs = ?rs" by (rule sort_key_id_if_sorted)
  then show ?thesis by (simp add: select_events_def f in_f)
qed


lemma c_str_again [simp]: "c_str (c_str b) = c_str b"
proof -
  have "takeWhile P (takeWhile P xs) = takeWhile P xs" for P and xs :: bytes
    by (rule takeWhile_eq_all_conv [THEN iffD2]) (auto dest: set_takeWhileD)
  then show ?thesis by (simp add: c_str_def)
qed

section \<open>The client after a session\<close>

text \<open>The live objects of a range that ends before the last frame, against a replay of the events.\<close>

lemma live_objects_replay:
  assumes at: "at_frame 0 F (map arrived es) c" and ty: "typed c"
    and f: "f < F" "f < 2 ^ 31" and so: "sorted (map pe_frame es)"
    and re: "replay (map sink_of (filter (\<lambda>e. pe_frame e \<le> f) es)) Map.empty = Some M"
  shows "(\<lambda>x. (lo_addr x, lo_size x)) ` set (get_live_objects (\<lambda>_. True) 0 (ucast f) c) =
      {(a, ucast n) | a n. M a = Some n}"
    and "x \<in> set (get_live_objects (\<lambda>_. True) 0 (ucast f) c) \<Longrightarrow>
      \<exists>e\<in>set es. pe_type e = Ev_alloc \<and> pe_frame e = lo_frame x \<and> pe_addr e = lo_addr x \<and>
        ucast (pe_size e) = lo_size x \<and> pe_frame e \<le> f \<and>
        get_type_name (lo_type_id x) c = c_str (pe_obj_type e) \<and>
        get_callstack (lo_callstack_id x) c = c_str (pe_callstack e)"
    and "distinct (map lo_addr (get_live_objects (\<lambda>_. True) 0 (ucast f) c))"
proof -
  obtain db where db: "c_db c = Some db" "db_typed db" using ty by (auto simp: typed_def)
  let ?rs = "filter (\<lambda>r. col_uint64 (er_frame r) \<le> f) (t_events db)"
  let ?m = "fold live_step ?rs []"
  let ?L = "get_live_objects (\<lambda>_. True) 0 (ucast f) c"
  have all: "saved c @ c_frame_events c = map arrived es" "\<forall>e\<in>set (c_frame_events c). pe_frame e = F"
    using at unfolding at_frame_def by blast+
  have fr: "pe_frame (row_event c r) = col_uint64 (er_frame r)" for r by (simp add: row_event_def)
  have "filter (\<lambda>e. pe_frame e \<le> f) (c_frame_events c) = []"
    using all(2) f(1) by (auto simp: filter_empty_conv)
  then have "filter (\<lambda>e. pe_frame e \<le> f) (saved c) = filter (\<lambda>e. pe_frame e \<le> f) (map arrived es)"
    unfolding all(1) [symmetric] by simp
  then have ev: "map (row_event c) ?rs = map arrived (filter (\<lambda>e. pe_frame e \<le> f) es)"
    by (simp add: saved_def rows_def db(1) filter_map comp_def fr)
  have "sorted (map pe_frame (map arrived (filter (\<lambda>e. pe_frame e \<le> f) es)))"
    using so by (simp add: comp_def sorted_filter)
  then have "sorted (map (\<lambda>r. col_uint64 (er_frame r)) ?rs)"
    unfolding ev [symmetric] by (simp add: comp_def fr)
  note sel = select_events_up_to [OF f(2) this]
  have L: "?L = map snd ?m" using db(1) by (simp add: get_live_objects_def live_loop_all sel)
  have wf: "um_wf ?m" using live_fold by blast
  have mem: "x \<in> set ?L \<longleftrightarrow> (\<exists>a. um_find ?m a = Some x)" for x
    unfolding L using um_find_iff [OF wf] by force
  have "replay (map sink_of (map (row_event c) ?rs)) Map.empty = Some M"
    unfolding ev replay_arrived by (rule re)
  note lr = live_replay [OF this]
  have typed_rows: "\<forall>r\<in>set ?rs. row_typed (fst ` set (t_types db)) (fst ` set (t_callstacks db)) r"
    using db(2) by (simp add: db_typed_def)
  have size: "ucast (ucast (lo_size x) :: u32) = lo_size x \<and> lo_addr x = a" if found: "um_find ?m a = Some x" for a x
  proof -
    obtain r where r: "r \<in> set ?rs" "x = row_object r" "er_event_type r = 1" "col_uint64 (er_address r) = a"
      using lr [of a] found by auto
    then have "col_uint64 (er_size r) < 2 ^ 32" using typed_rows by (auto simp: row_typed_def)
    then have "unat (col_uint64 (er_size r)) < 2 ^ 32" by (simp add: word_less_nat_alt)
    then have "ucast (ucast (col_uint64 (er_size r)) :: u32) = col_uint64 (er_size r)"
      by (simp add: word_unat_eq_iff unsigned_ucast_eq unsigned_take_bit_eq take_bit_nat_eq_self)
    then show ?thesis using r(2,4) by (simp add: row_object_def)
  qed
  have "map lo_addr ?L = map fst ?m"
    unfolding L map_map using size um_find_iff [OF wf] by (intro map_cong refl) auto
  then show "distinct (map lo_addr ?L)" using wf by (simp only: um_wf_def)
  show "(\<lambda>x. (lo_addr x, lo_size x)) ` set ?L = {(a, ucast n) | a n. M a = Some n}"
  proof (intro set_eqI iffI)
    fix p assume "p \<in> (\<lambda>x. (lo_addr x, lo_size x)) ` set ?L"
    then obtain x a where x: "um_find ?m a = Some x" "p = (lo_addr x, lo_size x)" using mem by auto
    then have "M a = Some (ucast (lo_size x))" using lr [of a] by simp
    then show "p \<in> {(a, ucast n) | a n. M a = Some n}" using size [OF x(1)] x(2) by force
  next
    fix p assume "p \<in> {(a, (ucast n :: u64)) | a n. M a = Some n}"
    then obtain a n where n: "M a = Some n" "p = (a, ucast n)" by blast
    then obtain x where x: "um_find ?m a = Some x" "n = ucast (lo_size x)" using lr [of a] by auto
    then have "x \<in> set ?L" "p = (lo_addr x, lo_size x)" using mem size [OF x(1)] n(2) by auto
    then show "p \<in> (\<lambda>x. (lo_addr x, lo_size x)) ` set ?L" by blast
  qed
  assume "x \<in> set ?L"
  then obtain a where a: "um_find ?m a = Some x" using mem by blast
  then obtain r where r: "r \<in> set ?rs" "x = row_object r" "er_event_type r = 1" using lr [of a] by auto
  then have "row_event c r \<in> set (map arrived (filter (\<lambda>e. pe_frame e \<le> f) es))"
    unfolding ev [symmetric] by simp
  then obtain e where e: "e \<in> set es" "pe_frame e \<le> f" "row_event c r = arrived e" by auto
  have al: "pe_type (arrived e) = Ev_alloc" unfolding e(3) [symmetric] using r(3) by (simp add: row_event_def)
  have "pe_frame (arrived e) = lo_frame x" "pe_addr (arrived e) = lo_addr x" "pe_size (arrived e) = ucast (lo_size x)"
    "c_str (pe_obj_type (arrived e)) = get_type_name (lo_type_id x) c"
    "c_str (pe_callstack (arrived e)) = get_callstack (lo_callstack_id x) c"
    unfolding e(3) [symmetric] using r(2,3)
    by (simp_all add: row_event_def row_object_def get_type_name_def get_callstack_def c_str_def split: option.split)
  then show "\<exists>e\<in>set es. pe_type e = Ev_alloc \<and> pe_frame e = lo_frame x \<and> pe_addr e = lo_addr x \<and>
      ucast (pe_size e) = lo_size x \<and> pe_frame e \<le> f \<and>
      get_type_name (lo_type_id x) c = c_str (pe_obj_type e) \<and>
      get_callstack (lo_callstack_id x) c = c_str (pe_callstack e)"
    using e(1,2) al size [OF a] by (intro bexI [of _ e]) (auto simp: arrived_def split: if_splits)
qed

section \<open>From the worker's table to the list of live objects\<close>

lemma sink_of_alloc:
  "pe_type e = Ev_alloc \<Longrightarrow>
   sink_of e = Report_alloc (pe_frame e) (pe_addr e) (pe_size e) (pe_obj_type e) (pe_callstack e)"
  by (simp add: sink_of_def)

lemma at_frame_end:
  assumes "at_frame k F es c"
  shows "at_frame k F es (c\<lparr>c_thread := b, c_network := n\<rparr>)"
proof -
  let ?c = "c\<lparr>c_thread := b, c_network := n\<rparr>"
  have same: "store_ok k' ?c = store_ok k' c" "saved ?c = saved c" "stats_map ?c = stats_map c" for k'
    by (rule store_ok_cong; simp)+
  have "at_frame k F es ?c = at_frame k F es c" unfolding at_frame_def same by simp
  with assms show ?thesis by simp
qed

lemma payload_data: "msg_data (event_message e) = snd (sink_payload (sink_of e))"
  by (simp add: event_message_def sink_of_def message_of_def split: event_kind.split)

lemma session_steps:
  assumes "client_stop junk (fresh_client\<lparr>c_network := n\<rparr>) = Some c"
  shows "steps cstep fresh_client c"
proof -
  have "cstep fresh_client (fresh_client\<lparr>c_network := n\<rparr>)" by (rule cstep.receive)
  then show ?thesis using steps_more [where step = cstep, OF steps_one cstep.stop [OF assms]] by blast
qed

text \<open>A live object of the client in terms of the report it comes from.\<close>

lemma reported_alloc:
  assumes "\<exists>e\<in>set es. pe_type e = Ev_alloc \<and> pe_frame e = lo_frame x \<and> pe_addr e = lo_addr x \<and>
      ucast (pe_size e) = lo_size x \<and> pe_frame e \<le> f \<and> P (pe_obj_type e) \<and> Q (pe_callstack e)"
    and "map sink_of (filter (\<lambda>e. pe_frame e \<le> f) es) = rs"
  shows "\<exists>name stack. Report_alloc (lo_frame x) (lo_addr x) (ucast (lo_size x)) name stack \<in> set rs \<and> P name \<and> Q stack"
proof -
  obtain e where e: "e \<in> set es" "pe_type e = Ev_alloc" "pe_frame e = lo_frame x" "pe_addr e = lo_addr x"
    "ucast (pe_size e) = lo_size x" "pe_frame e \<le> f" "P (pe_obj_type e)" "Q (pe_callstack e)"
    using assms(1) by blast
  then have "sink_of e \<in> set rs" unfolding assms(2) [symmetric] set_map by (intro imageI) simp
  moreover have "pe_size e = ucast (lo_size x)" unfolding e(5) [symmetric] by (simp add: ucast_scast_back)
  ultimately show ?thesis using e(3,4,7,8) sink_of_alloc [OF e(2)] by auto
qed

text \<open>The events of a run, cut at the end of a frame at which the queue is empty.\<close>

lemma quiet_moment:
  assumes start: "profiler_start mono_module new_profiler = Returns (True, p0)"
    and before: "steps prof_step p0 p1" "p_worker p1 = Some w1" "m_work_items w1 = []"
    and after: "steps prof_step (profiler_on_frame p1) p2" "p_events p2 \<noteq> p_events p1"
    and f31: "p_frame_index p1 < 2 ^ 31"
  obtains es where "map sink_of es = p_events p2" "sorted (map pe_frame es)" "es \<noteq> []"
    "\<forall>e\<in>set es. pe_frame e \<noteq> no_frame" "p_frame_index p1 < pe_frame (last es)"
    "map sink_of (filter (\<lambda>e. pe_frame e \<le> p_frame_index p1) es) = p_events p1"
    "replay (p_events p1) Map.empty = Some (map_of (sizes (m_allocations w1)))"
proof -
  let ?f = "p_frame_index p1"
  have f64: "?f < 0xFFFFFFFFFFFFFFFE" using f31 by (simp add: word_less_nat_alt)
  note init = run_ok_start [OF start]
  have r1: "run_ok [] 0 p1" by (rule prun.reachable_inv [OF init before(1)])
  have "prof_step p1 (profiler_on_frame p1)" by (rule Prof_frame [OF f64])
  then have "steps prof_step p0 p2"
    using steps_trans [OF steps_trans [OF before(1) steps_one [of prof_step]] after(1)] by blast
  then have r2: "run_ok [] 0 p2" by (rule prun.reachable_inv [OF init])
  have r12: "run_ok (m_reported w1) (?f + 1) p2"
    by (rule prun.reachable_inv [OF run_ok_frame_end [OF r1 before(2,3) f64] after(1)])
  obtain v1 xs1 where v1: "p_worker p1 = Some v1" "p_events p1 = m_reported v1" "m_reported v1 = [] @ xs1"
    "\<forall>e\<in>set xs1. ev_frames e \<noteq> []" "\<forall>e\<in>set (map event_of xs1). 0 \<le> pe_frame e \<and> pe_frame e \<le> ?f" "stream_ok v1" "\<not> wt_stop v1"
    using run_ok_events [OF r1] by blast
  then have e1: "p_events p1 = xs1" "m_reported w1 = xs1" "stream_ok w1" "\<not> wt_stop w1"
    using before(2) by simp_all
  obtain v2 :: worker and xs2 where e2: "p_events p2 = m_reported v2" "m_reported v2 = [] @ xs2" "\<forall>e\<in>set xs2. ev_frames e \<noteq> []"
    "sorted (map pe_frame (map event_of xs2))" "\<forall>e\<in>set (map event_of xs2). 0 \<le> pe_frame e \<and> pe_frame e \<le> p_frame_index p2"
    "p_frame_index p2 < 0xFFFFFFFFFFFFFFFF"
    using run_ok_events [OF r2] by blast
  obtain v :: worker and xs where e12: "p_events p2 = m_reported v" "m_reported v = m_reported w1 @ xs"
    "\<forall>e\<in>set (map event_of xs). ?f + 1 \<le> pe_frame e \<and> pe_frame e \<le> p_frame_index p2"
    using run_ok_events [OF r12] by blast
  have xs: "xs \<noteq> []" "xs2 = xs1 @ xs" "p_events p2 = xs2" using after(2) e12(1,2) e1(1,2) e2(1,2) by auto
  have succ: "?f < ?f + 1" using f64 by (simp add: word_less_nat_alt unat_word_ariths)
  have "filter (\<lambda>e. pe_frame e \<le> ?f) (map event_of xs1) = map event_of xs1"
    using v1(5) by (simp add: filter_id_conv)
  moreover have "filter (\<lambda>e. pe_frame e \<le> ?f) (map event_of xs) = []"
    using e12(3) succ by (fastforce simp: filter_empty_conv)
  ultimately have cut: "filter (\<lambda>e. pe_frame e \<le> ?f) (map event_of xs2) = map event_of xs1" by (simp add: xs(2))
  show ?thesis
  proof (rule that [of "map event_of xs2"])
    show "map sink_of (map event_of xs2) = p_events p2" using event_of_stream(1) [OF e2(3)] xs(3) by simp
    show "\<forall>e\<in>set (map event_of xs2). pe_frame e \<noteq> no_frame" using e2(5,6) by (auto simp: no_frame_def)
    show "?f < pe_frame (last (map event_of xs2))"
      using bspec [OF e12(3), of "event_of (last xs)"] xs(1,2) less_le_trans [OF succ] by (simp add: last_map)
    show "map sink_of (filter (\<lambda>e. pe_frame e \<le> ?f) (map event_of xs2)) = p_events p1"
      unfolding cut event_of_stream(1) [OF v1(4)] by (simp add: e1(1))
    show "replay (p_events p1) Map.empty = Some (map_of (sizes (m_allocations w1)))"
      using e1 before(3) by (simp add: stream_ok_def expected_def pending_def)
  qed (use e2(4) xs in auto)
qed


section \<open>A concrete run\<close>

lemma example_started:
  obtains p0 where "profiler_start (Some example_library) new_profiler = Returns (True, p0)"
    "p_worker p0 = Some (start_thread new_worker)" "p_reported p0 = []" "p_frame_index p0 = 0"
proof -
  define names where "names = mono_function_names"
  have names: "mono_functions = map named_func names" by (simp add: mono_functions_def names_def)
  have "\<forall>n\<in>set names. lib_exports example_library (chars n) \<noteq> 0" by (simp add: example_library_def)
  then obtain fs where "init_functions example_library mono_functions = Returns (True, fs)"
    using init_functions_named [of example_library names] unfolding names by auto
  then show ?thesis
    by (intro that [of "(profiler_init (new_profiler\<lparr>p_functions := fs\<rparr>))\<lparr>p_started := True\<rparr>"])
      (simp_all add: profiler_start_def try_restart_profiling_def new_profiler_def setup_mono_functions_def
        profiler_init_def install_callbacks_def fresh_worker_def p_events_def)
qed

text \<open>An allocation and its processing.\<close>

lemma example_alloc:
  assumes "p_worker p = Some w" "wt_thread w" "\<not> m_stop_lock w" "m_work_items_token w" "m_work_items w = []"
    "um_find (m_allocations w) obj = None"
  obtains p' w' where "steps prof_step p p'" "p_worker p' = Some w'" "wt_thread w'" "\<not> m_stop_lock w'"
    "m_work_items_token w'" "m_work_items w' = []" "p_frame_index p' = p_frame_index p" "p_reported p' = p_reported p"
    "m_allocations w' = m_allocations w @ [(obj, \<lparr>ai_size = 24, ai_flags = 0, ai_parents = []\<rparr>)]"
    "m_reported w' = m_reported w @ [Report_alloc (p_frame_index p) obj 24 (chars ''<global>.C'') (chars ''<no stack>'')]"
proof -
  have "\<exists>pa p' w'. on_allocation tiny_api obj klass p = Returns pa \<and> profiler_work tiny_api pa = Returns p' \<and>
      p_worker p' = Some w' \<and> wt_thread w' \<and> \<not> m_stop_lock w' \<and> m_work_items_token w' \<and> m_work_items w' = [] \<and>
      p_frame_index p' = p_frame_index p \<and> p_reported p' = p_reported p \<and>
      m_allocations w' = m_allocations w @ [(obj, \<lparr>ai_size = 24, ai_flags = 0, ai_parents = []\<rparr>)] \<and>
      m_reported w' = m_reported w @ [Report_alloc (p_frame_index p) obj 24 (chars ''<global>.C'') (chars ''<no stack>'')]"
    for klass
    using assms
    by (simp add: on_allocation_def on_worker_def add_allocation_async_def tiny_api_def enqueue_def
        profiler_work_def do_work_step_def process_item_def add_allocation_def report_def um_insert_def
        get_full_class_name_def snprintf_def c_str_def chars_def)
  then show ?thesis using that steps_trans [OF steps_one [of prof_step, OF Prof_alloc] steps_one [of prof_step, OF Prof_work]]
    by metis
qed


end
