(* ===== verification/Injection.thy ===== *)
theory Injection
  imports Profiler Client
begin

text \<open>
  The library side of launching an application under the profiler (\<^verbatim>\<open>server/src/dll_main.cpp\<close>): what
  happens when the library is loaded, the two detoured functions of the player and the exported
  functions of the Unity plug-in. The outcomes of the system and of Detours are arguments. The
  lemmas show that the client's \<^verbatim>\<open>launch_executable\<close> understands every message of the library, and
  when the library waits for the client forever.
\<close>

section \<open>The pipe\<close>

text \<open>The messages of \<^verbatim>\<open>network.cpp\<close>; what is written includes the terminating zero.\<close>

definition error_ok :: bytes where "error_ok = chars ''OK''"
definition error_symbols :: bytes where "error_symbols = chars ''SYMBOLS''"
definition error_detour :: bytes where "error_detour = chars ''DETOUR''"
definition error_deque :: bytes where "error_deque = chars ''DEQUE''"
definition error_detour_late :: bytes where "error_detour_late = chars ''DETOUR2''"

text \<open>The answer of \<^verbatim>\<open>ConnectNamedPipe\<close>; a pending one is completed by the wait that follows.\<close>

datatype pipe_answer = Pipe_connected_now | Pipe_already_connected | Pipe_pending | Pipe_other_error

text \<open>The loop that waits for the client: the answers and the results of \<^verbatim>\<open>GetOverlappedResult\<close> of all
  rounds. It need not end; the result tells whether the pipe is connected.\<close>

partial_function (option) await_client :: "(nat \<Rightarrow> pipe_answer \<times> bool) \<Rightarrow> nat \<Rightarrow> bool option" where
  "await_client answers n =
     (case answers n of
        (Pipe_already_connected, _) \<Rightarrow> Some True
      | (Pipe_pending, completed) \<Rightarrow> Some completed
      | (Pipe_connected_now, completed) \<Rightarrow> if completed then await_client answers (Suc n) else Some False
      | (Pipe_other_error, _) \<Rightarrow> await_client answers (Suc n))"

section \<open>The loaded library\<close>

record injected =
  i_server :: "server option"
  i_detoured :: bool
  i_by_another :: bool
  i_pipe :: bool
  i_written :: "bytes list"
  i_init_detoured :: bool
  i_deque_detoured :: bool

definition not_loaded :: injected where
  "not_loaded = \<lparr>i_server = None, i_detoured = False, i_by_another = False, i_pipe = False, i_written = [],
     i_init_detoured = False, i_deque_detoured = False\<rparr>"

definition send_error_to_pipe :: "bytes \<Rightarrow> injected \<Rightarrow> injected" where
  "send_error_to_pipe e i = (if i_pipe i then i\<lparr>i_written := i_written i @ [e @ [0]]\<rparr> else i)"

text \<open>\<^verbatim>\<open>strstr\<close> in the names of the loaded modules.\<close>

fun contains :: "bytes \<Rightarrow> bytes \<Rightarrow> bool" where
  "contains p [] = (p = [])"
| "contains p (b # bs) = (take (length p) (b # bs) = p \<or> contains p bs)"

definition profiler_dll_count :: "bytes list \<Rightarrow> nat" where
  "profiler_dll_count modules = length (filter (\<lambda>m. contains (chars ''mono_profiler'') (c_str (take 1023 m))) modules)"

text \<open>\<^verbatim>\<open>DLL_PROCESS_ATTACH\<close>: the answer and the new state; \<open>None\<close> when it never returns.\<close>

definition process_attach :: "bool \<Rightarrow> bool \<Rightarrow> bool \<Rightarrow> (nat \<Rightarrow> pipe_answer \<times> bool) \<Rightarrow> bool \<Rightarrow> bool \<Rightarrow> bytes list \<Rightarrow>
    injected \<Rightarrow> (bool \<times> injected) option" where
  "process_attach detoured pipe_created event_created answers init_found committed modules i =
     (let i1 = i\<lparr>i_detoured := detoured\<rparr>; loaded = (\<lambda>i. Some (True, i\<lparr>i_server := Some new_server\<rparr>))
      in if detoured then
           (if \<not> pipe_created then Some (False, i1)
            else let i2 = i1\<lparr>i_pipe := True\<rparr>
                 in if \<not> event_created then Some (False, i2)
                    else (case await_client answers 0 of
                        None \<Rightarrow> None
                      | Some connected \<Rightarrow>
                          if \<not> connected then Some (False, i2)
                          else if \<not> init_found then Some (False, send_error_to_pipe error_symbols i2)
                          else if \<not> committed then Some (False, send_error_to_pipe error_detour i2)
                          else loaded (i2\<lparr>i_init_detoured := True\<rparr>)))
         else if profiler_dll_count modules > 1 then Some (True, i1\<lparr>i_by_another := True\<rparr>)
         else loaded i1)"

definition process_detach :: "injected \<Rightarrow> injected" where
  "process_detach i = i\<lparr>i_server := None, i_pipe := False\<rparr>"

definition on_server :: "(server \<Rightarrow> server call) \<Rightarrow> injected \<Rightarrow> injected call" where
  "on_server f i =
     (case i_server i of
        None \<Rightarrow> Faults
      | Some s \<Rightarrow> call_bind (f s) (\<lambda>s1. Returns (i\<lparr>i_server := Some s1\<rparr>)))"

text \<open>The detoured initialisation of the graphics: \<open>original\<close> is the answer of the original function.\<close>

definition player_init_engine_graphics_detour :: "bool \<Rightarrow> bool \<Rightarrow> bool \<Rightarrow> asio_error option \<Rightarrow> library option \<Rightarrow>
    injected \<Rightarrow> (bool \<times> injected) call" where
  "player_init_engine_graphics_detour deque_found committed original ec mono_module i =
     (if \<not> deque_found then Returns (False, send_error_to_pipe error_deque i)
      else if \<not> committed then Returns (False, send_error_to_pipe error_detour_late i)
      else let i1 = (send_error_to_pipe error_ok i)\<lparr>i_init_detoured := False, i_deque_detoured := True, i_pipe := False\<rparr>
           in call_bind (on_server (server_start True 8888 ec mono_module) i1) (\<lambda>i2. Returns (original, i2)))"

text \<open>The detoured end of a frame; the original is called first and changes nothing here.\<close>

definition deque_callbacks_detour :: "injected \<Rightarrow> injected" where
  "deque_callbacks_detour i =
     (case i_server i of None \<Rightarrow> i | Some s \<Rightarrow> i\<lparr>i_server := Some (server_on_frame s)\<rparr>)"

definition StartProfiling :: "asio_error option \<Rightarrow> library option \<Rightarrow> injected \<Rightarrow> injected call" where
  "StartProfiling ec mono_module i =
     (if \<not> i_detoured i \<and> \<not> i_by_another i then on_server (server_start True 8888 ec mono_module) i else Returns i)"

definition EndProfilingFrame :: "injected \<Rightarrow> injected call" where
  "EndProfilingFrame i =
     (if \<not> i_detoured i \<and> \<not> i_by_another i then on_server (\<lambda>s. Returns (server_on_frame s)) i else Returns i)"

section \<open>Waiting for the client\<close>

lemma await_client_answered:
  assumes "\<forall>k < n. fst (answers k) = Pipe_other_error \<or> answers k = (Pipe_connected_now, True)"
    and "fst (answers n) = Pipe_already_connected \<or> answers n = (Pipe_pending, True)" "m \<le> n"
  shows "await_client answers m = Some True"
  using assms(3)
proof (induction m rule: inc_induct)
  case base
  then show ?case using assms(2) by (subst await_client.simps) (auto split: prod.splits pipe_answer.splits)
next
  case (step m)
  then have "fst (answers m) = Pipe_other_error \<or> answers m = (Pipe_connected_now, True)" using assms(1) by blast
  then show ?case using step.IH
    by (subst await_client.simps) (auto split: prod.splits pipe_answer.splits)
qed

lemma await_client_result:
  assumes "await_client answers n = Some r"
  shows "\<exists>k. fst (answers k) \<noteq> Pipe_other_error"
proof -
  let ?P = "\<lambda>as (m :: nat) (r :: bool). \<exists>k. fst (as k :: pipe_answer \<times> bool) \<noteq> Pipe_other_error"
  show ?thesis
  proof (rule await_client.raw_induct [where P = ?P, OF _ assms])
    fix f :: "(nat \<Rightarrow> pipe_answer \<times> bool) \<Rightarrow> nat \<Rightarrow> bool option" and as :: "nat \<Rightarrow> pipe_answer \<times> bool" and m r
    assume hyp: "\<And>as n y. f as n = Some y \<Longrightarrow> ?P as n y"
      and body: "(case as m of (Pipe_already_connected, _) \<Rightarrow> Some True | (Pipe_pending, completed) \<Rightarrow> Some completed
        | (Pipe_connected_now, completed) \<Rightarrow> if completed then f as (Suc m) else Some False
        | (Pipe_other_error, _) \<Rightarrow> f as (Suc m)) = Some r"
    show "?P as m r"
    proof (cases "fst (as m) = Pipe_other_error")
      case True
      then have "f as (Suc m) = Some r" using body by (auto split: prod.splits)
      then show ?thesis by (rule hyp)
    qed blast
  qed
qed

text \<open>A client that has opened and closed the pipe before the first round makes every call fail with an
  error that the loop does not know: it spins forever, while the loader holds its lock.\<close>

lemma await_client_spins: "\<forall>k. fst (answers k) = Pipe_other_error \<Longrightarrow> await_client answers n = None"
  using await_client_result by (cases "await_client answers n") blast+

section \<open>What the client is told\<close>

text \<open>The answer of the client to the message \<open>m\<close>, launch and pipe being fine so far.\<close>

definition client_told :: "bytes list \<Rightarrow> asio_error option \<Rightarrow> database option \<Rightarrow> client \<Rightarrow> launch_result \<times> client" where
  "client_told ms ec file c = launch_executable True True True (case ms of [] \<Rightarrow> None | m # _ \<Rightarrow> Some m) ec file c"

lemmas error_defs = error_ok_def error_symbols_def error_detour_def error_deque_def error_detour_late_def

lemma client_told_errors:
  "client_told [error_symbols @ [0]] ec file c = (PDB_NOT_FOUND, c)"
  "client_told [error_detour @ [0]] ec file c = (DETOUR_FAILED, c)"
  "client_told [error_deque @ [0]] ec file c = (BAD_VERSION, c)"
  "client_told [error_detour_late @ [0]] ec file c = (DETOUR_FAILED_LATE, c)"
  "client_told [error_ok @ [0]] ec file c =
     (case client_start ec file c of (ok, c1) \<Rightarrow> (if ok then Launch_OK else CONNECT_FAILED, c1))"
  by (simp_all add: client_told_def launch_executable_def error_defs chars_def c_str_def)

text \<open>
  C19. Whatever goes wrong on the way, the client that reads the library's message names the cause:
  missing symbols, a failed or a late failed detour, an unknown player; and when nothing goes
  wrong it starts its session.
\<close>

theorem launch_outcome_understood:
  assumes "await_client answers 0 = Some True"
  shows "\<exists>b i. process_attach True True True answers init_found committed modules not_loaded = Some (b, i) \<and>
    b = (init_found \<and> committed) \<and>
    (if \<not> init_found then client_told (i_written i) ec file c = (PDB_NOT_FOUND, c)
     else if \<not> committed then client_told (i_written i) ec file c = (DETOUR_FAILED, c)
     else \<forall>deque_found committed2 original accept_ec mono_module r i2.
       player_init_engine_graphics_detour deque_found committed2 original accept_ec mono_module i = Returns (r, i2) \<longrightarrow>
       client_told (i_written i2) ec file c =
         (if \<not> deque_found then (BAD_VERSION, c)
          else if \<not> committed2 then (DETOUR_FAILED_LATE, c)
          else case client_start ec file c of (ok, c1) \<Rightarrow> (if ok then Launch_OK else CONNECT_FAILED, c1)))"
proof -
  have written: "i_written i2 = i_written i1" if "on_server f i1 = Returns i2" for f i1 i2
    using that by (auto simp: on_server_def call_bind_def split: option.splits call.splits)
  show ?thesis using assms
    by (auto simp: process_attach_def not_loaded_def Let_def send_error_to_pipe_def client_told_errors
        player_init_engine_graphics_detour_def call_bind_def dest!: written split: if_splits call.splits)
qed

text \<open>Once the library was injected, or another copy of it was, the functions that the Unity plug-in
  calls do nothing.\<close>

lemma exports_inert:
  "i_detoured i \<or> i_by_another i \<Longrightarrow> StartProfiling ec mono_module i = Returns i \<and> EndProfilingFrame i = Returns i"
  by (auto simp: StartProfiling_def EndProfilingFrame_def)

definition example_answers :: "nat \<Rightarrow> pipe_answer \<times> bool" where
  "example_answers n = (if n = 0 then (Pipe_other_error, False) else (Pipe_pending, True))"

theorem launch_outcome_understood_witness:
  "\<exists>b i. process_attach True True True example_answers False True [] not_loaded = Some (b, i) \<and>
     client_told (i_written i) None None new_client = (PDB_NOT_FOUND, new_client)"
proof -
  have "await_client example_answers 0 = Some True"
    by (rule await_client_answered [where n = 1]) (simp_all add: example_answers_def)
  from launch_outcome_understood [OF this, of False True "[]"] show ?thesis by (simp add: ex_simps) blast
qed

end
