(* ===== verification/Graphs.thy ===== *)
theory Graphs
  imports Client_Views
begin

text \<open>
  The data behind the two graphs of the user interface (\<^verbatim>\<open>ui/src/graphs_data.cpp\<close>): the curves
  of the visible frames and the search for the nearest collection, which the option
  \<^emph>\<open>Snap to GC\<close> uses. An index outside a vector is undefined behaviour: the value \<open>None\<close>.
\<close>

section \<open>The visible region\<close>

text \<open>\<^verbatim>\<open>first_visible_frame\<close> and \<^verbatim>\<open>last_visible_frame\<close> are \<^verbatim>\<open>int\<close>s; \<^verbatim>\<open>uint64_t\<close> arithmetic with them
  extends the sign. The three curves and maxima are those of the client's statistics.\<close>

record graphs =
  g_first_visible :: u32
  g_last_visible :: u32
  g_min_frame :: u64
  g_max_frame :: u64
  g_stats :: frame_stats

definition no_stats :: frame_stats where
  "no_stats = \<lparr>fs_allocs = [], fs_frees = [], fs_sizes = [], fs_max_allocs = 0, fs_max_frees = 0, fs_max_size = 0\<rparr>"

definition graphs_clear :: "graphs \<Rightarrow> graphs" where
  "graphs_clear g = \<lparr>g_first_visible = - 1, g_last_visible = - 1, g_min_frame = 0, g_max_frame = 0, g_stats = no_stats\<rparr>"

definition update_boundaries :: "client \<Rightarrow> graphs \<Rightarrow> graphs" where
  "update_boundaries c g = (case get_frame_boundaries c of (lo, hi) \<Rightarrow> g\<lparr>g_min_frame := lo, g_max_frame := hi\<rparr>)"

definition graphs_init :: "client \<Rightarrow> graphs \<Rightarrow> graphs" where
  "graphs_init c g = update_boundaries c g"

definition update_region :: "client \<Rightarrow> u32 \<Rightarrow> u32 \<Rightarrow> graphs \<Rightarrow> graphs" where
  "update_region c from to g =
     g\<lparr>g_first_visible := from, g_last_visible := to, g_stats := get_stats (scast from) (scast to) c\<rparr>"

definition g_first :: "graphs \<Rightarrow> u64" where
  "g_first g = scast (g_first_visible g)"

definition g_last :: "graphs \<Rightarrow> u64" where
  "g_last g = scast (g_last_visible g)"

text \<open>A bar of a histogram: a value and an interval; \<open>None\<close> is the default sample.\<close>

definition bar_at :: "u64 list \<Rightarrow> u64 \<Rightarrow> graphs \<Rightarrow> (u64 \<times> u64 \<times> u64) option" where
  "bar_at xs f g = (if unat f \<ge> length xs then None else Some (xs ! unat f, f + g_first g, f + g_first g + 1))"

definition get_allocations_count :: "u64 \<Rightarrow> graphs \<Rightarrow> (u64 \<times> u64 \<times> u64) option" where
  "get_allocations_count f g = bar_at (fs_allocs (g_stats g)) f g"

definition get_frees_count :: "u64 \<Rightarrow> graphs \<Rightarrow> (u64 \<times> u64 \<times> u64) option" where
  "get_frees_count f g = bar_at (fs_frees (g_stats g)) f g"

definition get_size_point :: "u64 \<Rightarrow> graphs \<Rightarrow> (u64 \<times> u64) option" where
  "get_size_point f g =
     (if unat f \<ge> length (fs_sizes (g_stats g)) then None else Some (f + g_first g, fs_sizes (g_stats g) ! unat f))"

section \<open>The nearest collection\<close>

text \<open>The two loops of \<^verbatim>\<open>get_closest_gc_frame\<close>: where they stop and whether they found a frame with
  frees.\<close>

function scan_back :: "u64 list \<Rightarrow> u64 \<Rightarrow> u64 \<Rightarrow> (u64 \<times> bool) option" where
  "scan_back frees first f =
     (if f > first
      then (if unat (f - first) \<ge> length frees then None
            else if frees ! unat (f - first) > 0 then Some (f, True)
            else scan_back frees first (f - 1))
      else Some (f, False))"
  by pat_completeness auto

lemma unat_pred_less: "f > (a :: u64) \<Longrightarrow> unat (f - 1) < unat f"
  by unat_arith

termination scan_back
  by (relation "measure (\<lambda>(_, _, f). unat f)") (auto simp: unat_pred_less)

function scan_forward :: "u64 list \<Rightarrow> u64 \<Rightarrow> u64 \<Rightarrow> u64 \<Rightarrow> (u64 \<times> bool) option" where
  "scan_forward frees first end_frame f =
     (if f < end_frame
      then (if unat (f - first) \<ge> length frees then None
            else if frees ! unat (f - first) > 0 then Some (f, True)
            else scan_forward frees first end_frame (f + 1))
      else Some (f, False))"
  by pat_completeness auto

lemma unat_succ_closer: "f < (b :: u64) \<Longrightarrow> unat b - unat (f + 1) < unat b - unat f"
  by unat_arith

termination scan_forward
  by (relation "measure (\<lambda>(_, _, b, f). unat b - unat f)") (auto simp: unat_succ_closer)

declare scan_back.simps [simp del] scan_forward.simps [simp del]

definition get_closest_gc_frame :: "u64 \<Rightarrow> graphs \<Rightarrow> u64 option" where
  "get_closest_gc_frame frame g =
     (if frame \<le> g_first g \<or> frame \<ge> g_last g then Some frame
      else case scan_back (fs_frees (g_stats g)) (g_first g) frame of
             None \<Rightarrow> None
           | Some (f1, f1found) \<Rightarrow>
               (case scan_forward (fs_frees (g_stats g)) (g_first g) (g_last g) frame of
                  None \<Rightarrow> None
                | Some (f2, f2found) \<Rightarrow>
                    Some (if \<not> f1found \<and> \<not> f2found then frame
                          else if f1found \<noteq> f2found then (if f1found then f1 else f2)
                          else if frame - f1 > f2 - frame then f2
                          else f1)))"

section \<open>What the loops find\<close>

text \<open>The frames are counted by natural numbers here; \<open>n\<close> is the number of the first visible one.\<close>

definition has_frees :: "u64 list \<Rightarrow> nat \<Rightarrow> nat \<Rightarrow> bool" where
  "has_frees frees n k \<longleftrightarrow> n < k \<and> k - n < length frees \<and> frees ! (k - n) \<noteq> 0"

lemma scan_back_found:
  assumes "unat f < unat first + length frees"
  shows "\<exists>r b. scan_back frees first f = Some (r, b) \<and>
    (if b then unat r \<le> unat f \<and> has_frees frees (unat first) (unat r) \<and>
            (\<forall>k. unat r < k \<and> k \<le> unat f \<longrightarrow> \<not> has_frees frees (unat first) k)
     else (\<forall>k \<le> unat f. \<not> has_frees frees (unat first) k))"
  using assms
proof (induction frees first f rule: scan_back.induct)
  case (1 frees first f)
  show ?case
  proof (cases "f > first")
    case True
    then have idx: "unat (f - first) = unat f - unat first" "unat first < unat f"
      by (simp_all add: unat_sub word_less_nat_alt less_imp_le word_le_nat_alt)
    have pred: "unat (f - 1) = unat f - 1" using True by unat_arith
    have nb: "\<not> length frees \<le> unat (f - first)" using idx 1(2) by simp
    show ?thesis
    proof (cases "frees ! unat (f - first) > 0")
      case hit: True
      have "scan_back frees first f = Some (f, True)" by (subst scan_back.simps) (use True nb hit in simp)
      moreover have "has_frees frees (unat first) (unat f)" using idx nb hit by (simp add: has_frees_def)
      ultimately show ?thesis by (intro exI [of _ f] exI [of _ True]) auto
    next
      case False
      then have no: "\<not> has_frees frees (unat first) (unat f)" using idx by (simp add: has_frees_def word_gt_0)
      have eq: "scan_back frees first f = scan_back frees first (f - 1)"
        by (subst scan_back.simps) (use True nb False in simp)
      have "unat (f - 1) < unat first + length frees" using pred 1(2) by simp
      from 1(1) [OF True nb False this] obtain r b where r: "scan_back frees first (f - 1) = Some (r, b)"
        "if b then unat r \<le> unat f - 1 \<and> has_frees frees (unat first) (unat r) \<and>
            (\<forall>k. unat r < k \<and> k \<le> unat f - 1 \<longrightarrow> \<not> has_frees frees (unat first) k)
         else (\<forall>k \<le> unat f - 1. \<not> has_frees frees (unat first) k)" unfolding pred by blast
      have below: "k \<le> unat f - 1 \<or> k = unat f" if "k \<le> unat f" for k using that by linarith
      have "if b then unat r \<le> unat f \<and> has_frees frees (unat first) (unat r) \<and>
            (\<forall>k. unat r < k \<and> k \<le> unat f \<longrightarrow> \<not> has_frees frees (unat first) k)
         else (\<forall>k \<le> unat f. \<not> has_frees frees (unat first) k)"
      proof (cases b)
        case True
        then have "unat r \<le> unat f" using r(2) idx(2) by auto
        with True show ?thesis using r(2) no below by auto
      next
        case False
        with r(2) no below show ?thesis by auto
      qed
      then show ?thesis unfolding eq r(1) by (intro exI [of _ r] exI [of _ b] conjI refl)
    qed
  next
    case False
    have "scan_back frees first f = Some (f, False)" by (subst scan_back.simps) (use False in simp)
    moreover have "\<not> has_frees frees (unat first) k" if "k \<le> unat f" for k
      using False that by (simp add: has_frees_def word_less_nat_alt)
    ultimately show ?thesis by (intro exI [of _ f] exI [of _ False]) auto
  qed
qed

lemma scan_forward_found:
  assumes "unat first \<le> unat f" "unat end_frame \<le> unat first + length frees"
  shows "\<exists>r b. scan_forward frees first end_frame f = Some (r, b) \<and>
    (if b then unat f \<le> unat r \<and> r < end_frame \<and> (unat first < unat r \<longrightarrow> has_frees frees (unat first) (unat r)) \<and>
            (\<forall>k. unat f \<le> k \<and> k < unat r \<longrightarrow> \<not> has_frees frees (unat first) k)
     else (\<forall>k. unat f \<le> k \<and> k < unat end_frame \<longrightarrow> \<not> has_frees frees (unat first) k))"
  using assms
proof (induction frees first end_frame f rule: scan_forward.induct)
  case (1 frees first end_frame f)
  show ?case
  proof (cases "f < end_frame")
    case True
    have idx: "unat (f - first) = unat f - unat first" using 1(2) by (simp add: unat_sub word_le_nat_alt)
    have lt: "unat f < unat end_frame" using True by (simp add: word_less_nat_alt)
    have succ: "unat (f + 1) = Suc (unat f)" using True by unat_arith
    have nb: "\<not> length frees \<le> unat (f - first)" using idx lt 1(2,3) by simp
    show ?thesis
    proof (cases "frees ! unat (f - first) > 0")
      case hit: True
      have "scan_forward frees first end_frame f = Some (f, True)"
        by (subst scan_forward.simps) (use True nb hit in simp)
      moreover have "unat first < unat f \<longrightarrow> has_frees frees (unat first) (unat f)"
        using idx nb hit by (simp add: has_frees_def word_gt_0)
      ultimately show ?thesis using True by (intro exI [of _ f] exI [of _ True]) auto
    next
      case False
      then have no: "\<not> has_frees frees (unat first) (unat f)" using idx by (simp add: has_frees_def word_gt_0)
      have eq: "scan_forward frees first end_frame f = scan_forward frees first end_frame (f + 1)"
        by (subst scan_forward.simps) (use True nb False in simp)
      have "unat first \<le> unat (f + 1)" using succ 1(2) by simp
      from 1(1) [OF True nb False this 1(3)] obtain r b where
        r: "scan_forward frees first end_frame (f + 1) = Some (r, b)"
        "if b then Suc (unat f) \<le> unat r \<and> r < end_frame \<and> (unat first < unat r \<longrightarrow> has_frees frees (unat first) (unat r)) \<and>
            (\<forall>k. Suc (unat f) \<le> k \<and> k < unat r \<longrightarrow> \<not> has_frees frees (unat first) k)
         else (\<forall>k. Suc (unat f) \<le> k \<and> k < unat end_frame \<longrightarrow> \<not> has_frees frees (unat first) k)"
        unfolding succ by blast
      have above: "Suc (unat f) \<le> k \<or> k = unat f" if "unat f \<le> k" for k using that by linarith
      have "if b then unat f \<le> unat r \<and> r < end_frame \<and> (unat first < unat r \<longrightarrow> has_frees frees (unat first) (unat r)) \<and>
            (\<forall>k. unat f \<le> k \<and> k < unat r \<longrightarrow> \<not> has_frees frees (unat first) k)
         else (\<forall>k. unat f \<le> k \<and> k < unat end_frame \<longrightarrow> \<not> has_frees frees (unat first) k)"
      proof (cases b)
        case True
        with r(2) no above show ?thesis by auto
      next
        case False
        with r(2) no above show ?thesis by auto
      qed
      then show ?thesis unfolding eq r(1) by (intro exI [of _ r] exI [of _ b] conjI refl)
    qed
  next
    case False
    have "scan_forward frees first end_frame f = Some (f, False)"
      by (subst scan_forward.simps) (use False in simp)
    moreover have "unat end_frame \<le> unat f" using False by (simp add: word_less_nat_alt)
    ultimately show ?thesis by (intro exI [of _ f] exI [of _ False]) auto
  qed
qed

text \<open>Between the visible bounds the answer is the nearest frame with frees, the earlier one of two.\<close>

definition nearest_with_frees :: "u64 list \<Rightarrow> nat \<Rightarrow> nat \<Rightarrow> nat \<Rightarrow> nat \<Rightarrow> bool" where
  "nearest_with_frees frees n m k r \<longleftrightarrow>
     (if \<exists>j. j < m \<and> has_frees frees n j
      then r < m \<and> has_frees frees n r \<and> (\<forall>j < m. has_frees frees n j \<longrightarrow> \<bar>int k - int r\<bar> \<le> \<bar>int k - int j\<bar>)
      else r = k)"

lemma nearest_two:
  assumes bwd: "if b1 then r1 \<le> k \<and> has_frees frees n r1 \<and> (\<forall>j. r1 < j \<and> j \<le> k \<longrightarrow> \<not> has_frees frees n j)
      else (\<forall>j \<le> k. \<not> has_frees frees n j)"
    and fwd: "if b2 then k \<le> r2 \<and> r2 < m \<and> has_frees frees n r2 \<and> (\<forall>j. k \<le> j \<and> j < r2 \<longrightarrow> \<not> has_frees frees n j)
      else (\<forall>j. k \<le> j \<and> j < m \<longrightarrow> \<not> has_frees frees n j)"
    and "k < m"
  shows "nearest_with_frees frees n m k
    (if \<not> b1 \<and> \<not> b2 then k else if b1 \<noteq> b2 then (if b1 then r1 else r2) else if k - r1 > r2 - k then r2 else r1)"
proof -
  have low: "j \<le> r1" if b1 "j \<le> k" "has_frees frees n j" for j using bwd that by (auto simp: not_le [symmetric])
  have high: "r2 \<le> j" if b2 "k \<le> j" "has_frees frees n j" for j using fwd that by (auto simp: not_le [symmetric])
  have side: "j \<le> k \<or> k \<le> j" for j :: nat by linarith
  consider "\<not> b1" "\<not> b2" | b1 "\<not> b2" | "\<not> b1" b2 | b1 b2 by blast
  then show ?thesis
  proof cases
    case 1
    have "\<not> (j < m \<and> has_frees frees n j)" for j using bwd fwd 1 side [of j] by auto
    with 1 show ?thesis by (auto simp: nearest_with_frees_def)
  next
    case 2
    have r: "r1 < m" "r1 \<le> k" "has_frees frees n r1" using bwd 2 \<open>k < m\<close> by auto
    have "\<bar>int k - int r1\<bar> \<le> \<bar>int k - int j\<bar>" if "j < m" "has_frees frees n j" for j
      using low [OF 2(1) _ that(2)] fwd 2 that side [of j] r(2) by auto
    with r 2 show ?thesis unfolding nearest_with_frees_def by auto
  next
    case 3
    have r: "r2 < m" "k \<le> r2" "has_frees frees n r2" using fwd 3 by auto
    have "\<bar>int k - int r2\<bar> \<le> \<bar>int k - int j\<bar>" if "j < m" "has_frees frees n j" for j
      using high [OF 3(2) _ that(2)] bwd 3 that side [of j] r(2) by auto
    with r 3 show ?thesis unfolding nearest_with_frees_def by auto
  next
    case 4
    have r: "r1 < m" "r1 \<le> k" "has_frees frees n r1" "r2 < m" "k \<le> r2" "has_frees frees n r2"
      using bwd fwd 4 \<open>k < m\<close> by auto
    let ?r = "if k - r1 > r2 - k then r2 else r1"
    have "\<bar>int k - int ?r\<bar> \<le> \<bar>int k - int j\<bar>" if "j < m" "has_frees frees n j" for j
      using low [OF 4(1) _ that(2)] high [OF 4(2) _ that(2)] side [of j] r(2,5) by auto
    moreover have "?r < m" "has_frees frees n ?r" using r by auto
    moreover have "\<exists>j. j < m \<and> has_frees frees n j" using r by blast
    ultimately show ?thesis using 4 unfolding nearest_with_frees_def by simp
  qed
qed

lemma closest_found:
  assumes "g_first g < f" "f < g_last g" "unat (g_last g) \<le> unat (g_first g) + length (fs_frees (g_stats g))"
  shows "\<exists>r. get_closest_gc_frame f g = Some r \<and>
    nearest_with_frees (fs_frees (g_stats g)) (unat (g_first g)) (unat (g_last g)) (unat f) (unat r)"
proof -
  let ?fr = "fs_frees (g_stats g)"
  have n: "unat (g_first g) < unat f" "unat f < unat (g_last g)" using assms by (simp_all add: word_less_nat_alt)
  have "unat f < unat (g_first g) + length ?fr" using n assms(3) by simp
  from scan_back_found [OF this] obtain r1 b1 where s1: "scan_back ?fr (g_first g) f = Some (r1, b1)"
    and c1: "if b1 then unat r1 \<le> unat f \<and> has_frees ?fr (unat (g_first g)) (unat r1) \<and>
            (\<forall>k. unat r1 < k \<and> k \<le> unat f \<longrightarrow> \<not> has_frees ?fr (unat (g_first g)) k)
     else (\<forall>k \<le> unat f. \<not> has_frees ?fr (unat (g_first g)) k)" by blast
  have "unat (g_first g) \<le> unat f" using n by simp
  from scan_forward_found [OF this assms(3)] obtain r2 b2 where s2: "scan_forward ?fr (g_first g) (g_last g) f = Some (r2, b2)"
    and c2: "if b2 then unat f \<le> unat r2 \<and> r2 < g_last g \<and> (unat (g_first g) < unat r2 \<longrightarrow> has_frees ?fr (unat (g_first g)) (unat r2)) \<and>
            (\<forall>k. unat f \<le> k \<and> k < unat r2 \<longrightarrow> \<not> has_frees ?fr (unat (g_first g)) k)
     else (\<forall>k. unat f \<le> k \<and> k < unat (g_last g) \<longrightarrow> \<not> has_frees ?fr (unat (g_first g)) k)" by blast
  have c2': "if b2 then unat f \<le> unat r2 \<and> unat r2 < unat (g_last g) \<and> has_frees ?fr (unat (g_first g)) (unat r2) \<and>
            (\<forall>k. unat f \<le> k \<and> k < unat r2 \<longrightarrow> \<not> has_frees ?fr (unat (g_first g)) k)
     else (\<forall>k. unat f \<le> k \<and> k < unat (g_last g) \<longrightarrow> \<not> has_frees ?fr (unat (g_first g)) k)"
    using c2 n by (simp add: word_less_nat_alt split: if_splits)
  let ?r = "if \<not> b1 \<and> \<not> b2 then f else if b1 \<noteq> b2 then (if b1 then r1 else r2) else if f - r1 > r2 - f then r2 else r1"
  have get: "get_closest_gc_frame f g = Some ?r"
  proof -
    have "\<not> (f \<le> g_first g \<or> f \<ge> g_last g)" using assms(1,2) by (auto simp: not_le)
    then show ?thesis unfolding get_closest_gc_frame_def s1 s2 by (simp only: if_False option.case prod.case)
  qed
  have "unat ?r = (if \<not> b1 \<and> \<not> b2 then unat f else if b1 \<noteq> b2 then (if b1 then unat r1 else unat r2)
      else if unat f - unat r1 > unat r2 - unat f then unat r2 else unat r1)"
  proof (cases "b1 \<and> b2")
    case True
    then have "unat (f - r1) = unat f - unat r1" "unat (r2 - f) = unat r2 - unat f"
      using c1 c2' by (simp_all add: unat_sub word_le_nat_alt)
    with True show ?thesis by (simp add: word_less_nat_alt)
  qed auto
  with get nearest_two [OF c1 c2' n(2)] show ?thesis by (intro exI [of _ ?r]) simp
qed

section \<open>Snapping a selection\<close>

lemma has_frees_curve:
  "has_frees (map h [n..<Suc hi]) n j \<longleftrightarrow> n < j \<and> j \<le> hi \<and> h j \<noteq> 0"
  by (auto simp: has_frees_def simp del: upt_Suc)

text \<open>What the loops read after a region has become visible.\<close>

lemma region_frees:
  assumes "c_db c = Some db" "stats_ok db" "unat from < 2 ^ 31" "unat to < 2 ^ 31"
    and "select_stats (scast from) (scast to) db \<noteq> []" and "\<forall>r\<in>set (t_stats db). sr_frame r \<le> c_max_frame c"
  shows "fs_frees (g_stats (update_region c from to g)) =
      map (frees_at db) [unat from..<Suc (min (unat to) (unat (c_max_frame c)))]"
    and "unat from \<le> min (unat to) (unat (c_max_frame c))"
proof -
  have small: "unat (scast from :: u64) < 2 ^ 63" "unat (scast to :: u64) < 2 ^ 63"
    using assms(3,4) by (simp_all add: scast_small)
  note c = get_stats_curves [OF assms(1,2) small assms(5,6)]
  show "fs_frees (g_stats (update_region c from to g)) =
      map (frees_at db) [unat from..<Suc (min (unat to) (unat (c_max_frame c)))]"
    using c(1) assms(3,4) by (simp add: curves_def update_region_def scast_small)
  show "unat from \<le> min (unat to) (unat (c_max_frame c))" using c(3) assms(3,4) by (simp add: scast_small)
qed

text \<open>
  C18. In a visible region of recorded frames, snapping a frame inside it yields the nearest frame in
  which objects were freed, the earlier one of two equally near, and the frame itself when there is
  none.
\<close>

theorem snap_to_gc_exact:
  assumes "c_db c = Some db" "stats_ok db" "unat from < 2 ^ 31" "unat to < 2 ^ 31"
    and "select_stats (scast from) (scast to) db \<noteq> []" and "\<forall>r\<in>set (t_stats db). sr_frame r \<le> c_max_frame c"
    and "unat to \<le> Suc (unat (c_max_frame c))" "unat from < unat f" "unat f < unat to"
  shows "\<exists>r. get_closest_gc_frame f (update_region c from to g) = Some r \<and>
    (if \<exists>j. unat from < j \<and> j < unat to \<and> frees_at db j \<noteq> 0
     then unat from < unat r \<and> unat r < unat to \<and> frees_at db (unat r) \<noteq> 0 \<and>
       (\<forall>j. unat from < j \<and> j < unat to \<and> frees_at db j \<noteq> 0 \<longrightarrow> \<bar>int (unat f) - int (unat r)\<bar> \<le> \<bar>int (unat f) - int j\<bar>)
     else r = f)"
proof -
  let ?g = "update_region c from to g" and ?hi = "min (unat to) (unat (c_max_frame c))"
  note fr = region_frees(1) [OF assms(1-6), where g = g] region_frees(2) [OF assms(1-6)]
  have ends: "unat (g_first ?g) = unat from" "unat (g_last ?g) = unat to"
    using assms(3,4) by (simp_all add: g_first_def g_last_def update_region_def scast_small)
  have "g_first ?g < f" "f < g_last ?g" "unat (g_last ?g) \<le> unat (g_first ?g) + length (fs_frees (g_stats ?g))"
    using assms(7-9) fr(2) ends by (simp_all add: word_less_nat_alt fr(1) del: upt_Suc)
  from closest_found [OF this] obtain r where r: "get_closest_gc_frame f ?g = Some r"
    and n: "nearest_with_frees (map (frees_at db) [unat from..<Suc ?hi]) (unat from) (unat to) (unat f) (unat r)"
    unfolding fr(1) ends by blast
  have h: "j < unat to \<and> has_frees (map (frees_at db) [unat from..<Suc ?hi]) (unat from) j \<longleftrightarrow>
      unat from < j \<and> j < unat to \<and> frees_at db j \<noteq> 0" for j
    using assms(7) unfolding has_frees_curve by auto
  have "if \<exists>j. unat from < j \<and> j < unat to \<and> frees_at db j \<noteq> 0
     then unat from < unat r \<and> unat r < unat to \<and> frees_at db (unat r) \<noteq> 0 \<and>
       (\<forall>j. unat from < j \<and> j < unat to \<and> frees_at db j \<noteq> 0 \<longrightarrow> \<bar>int (unat f) - int (unat r)\<bar> \<le> \<bar>int (unat f) - int j\<bar>)
     else r = f"
  proof (cases "\<exists>j. unat from < j \<and> j < unat to \<and> frees_at db j \<noteq> 0")
    case True
    then have "unat r < unat to \<and> has_frees (map (frees_at db) [unat from..<Suc ?hi]) (unat from) (unat r) \<and>
        (\<forall>j < unat to. has_frees (map (frees_at db) [unat from..<Suc ?hi]) (unat from) j \<longrightarrow>
          \<bar>int (unat f) - int (unat r)\<bar> \<le> \<bar>int (unat f) - int j\<bar>)"
      using n unfolding nearest_with_frees_def h by simp
    then have "unat from < unat r \<and> unat r < unat to \<and> frees_at db (unat r) \<noteq> 0 \<and>
       (\<forall>j. unat from < j \<and> j < unat to \<and> frees_at db j \<noteq> 0 \<longrightarrow> \<bar>int (unat f) - int (unat r)\<bar> \<le> \<bar>int (unat f) - int j\<bar>)"
      using h by blast
    then show ?thesis unfolding if_P [OF True] .
  next
    case False
    from n have "unat r = unat f" unfolding nearest_with_frees_def h if_not_P [OF False] .
    then show ?thesis unfolding if_not_P [OF False] by (simp add: word_unat_eq_iff)
  qed
  with r show ?thesis by blast
qed

text \<open>A frame behind the last recorded one makes the loops read past the end of the vector.\<close>

theorem snap_reads_past_end:
  assumes "c_db c = Some db" "stats_ok db" "unat from < 2 ^ 31" "unat to < 2 ^ 31"
    and "select_stats (scast from) (scast to) db \<noteq> []" and "\<forall>r\<in>set (t_stats db). sr_frame r \<le> c_max_frame c"
    and "c_max_frame c < f" "unat f < unat to"
  shows "get_closest_gc_frame f (update_region c from to g) = None"
proof -
  let ?g = "update_region c from to g"
  note fr = region_frees(1) [OF assms(1-6), where g = g] region_frees(2) [OF assms(1-6)]
  have ends: "unat (g_first ?g) = unat from" "unat (g_last ?g) = unat to"
    using assms(3,4) by (simp_all add: g_first_def g_last_def update_region_def scast_small)
  have f: "unat (c_max_frame c) < unat f" using assms(7) by (simp add: word_less_nat_alt)
  then have lt: "g_first ?g < f" "f < g_last ?g" using fr(2) assms(8) ends by (simp_all add: word_less_nat_alt)
  have "unat (f - g_first ?g) = unat f - unat from" using lt(1) ends by (simp add: unat_sub less_imp_le)
  then have "length (fs_frees (g_stats ?g)) \<le> unat (f - g_first ?g)" using f fr(2) by (simp add: fr(1) del: upt_Suc)
  then have "scan_back (fs_frees (g_stats ?g)) (g_first ?g) f = None" using lt(1) by (subst scan_back.simps) simp
  moreover have "\<not> (f \<le> g_first ?g \<or> f \<ge> g_last ?g)" using lt by (auto simp: not_le)
  ultimately show ?thesis unfolding get_closest_gc_frame_def by (simp only: if_False option.case)
qed

definition example_graphs :: graphs where
  "example_graphs = \<lparr>g_first_visible = 0, g_last_visible = 0, g_min_frame = 0, g_max_frame = 0, g_stats = no_stats\<rparr>"

theorem snap_to_gc_exact_witness:
  "\<exists>r. get_closest_gc_frame 5 (update_region example_viewer 2 8 example_graphs) = Some r \<and> frees_at example_stats (unat r) \<noteq> 0"
proof -
  have db: "c_db example_viewer = Some example_stats" by (simp add: example_viewer_def)
  have ok: "stats_ok example_stats" by (simp add: stats_ok_def example_stats_def)
  have rows: "select_stats (scast (2 :: u32)) (scast (8 :: u32)) example_stats \<noteq> []"
    by (simp add: select_stats_def example_stats_def in_frames_def)
  have top: "\<forall>r\<in>set (t_stats example_stats). sr_frame r \<le> c_max_frame example_viewer"
    by (simp add: example_stats_def example_viewer_def)
  have "2 < (3 :: nat) \<and> (3 :: nat) < 8 \<and> frees_at example_stats 3 \<noteq> 0" by (simp add: frees_at_def example_stats_def)
  then have "\<exists>j. unat (2 :: u32) < j \<and> j < unat (8 :: u32) \<and> frees_at example_stats j \<noteq> 0" by auto
  with snap_to_gc_exact [OF db ok _ _ rows top, of 5 example_graphs] show ?thesis
    by (simp add: example_viewer_def) blast
qed

end
