(* ===== verification/Grouping.thy ===== *)
theory Grouping
  imports Prelude "HOL-Library.List_Lexorder"
begin

text \<open>
  What the models of the user interface share: grouping a list of objects by a key in the order of
  first occurrence (\<^verbatim>\<open>std::find_if\<close> over the groups, \<^verbatim>\<open>push_back\<close> when there is none), sorting
  by a comparer, and a grid of cells.
\<close>

section \<open>The first match of a list\<close>

text \<open>\<^verbatim>\<open>std::find_if\<close>: the position of the first element that satisfies a predicate.\<close>

fun find_index :: "('a \<Rightarrow> bool) \<Rightarrow> 'a list \<Rightarrow> nat option" where
  "find_index P [] = None"
| "find_index P (x # xs) = (if P x then Some 0 else map_option Suc (find_index P xs))"

lemma find_index_None: "find_index P xs = None \<longleftrightarrow> (\<forall>x \<in> set xs. \<not> P x)"
  by (induction xs) auto

lemma find_index_SomeD:
  "find_index P xs = Some i \<Longrightarrow> i < length xs \<and> P (xs ! i) \<and> (\<forall>j < i. \<not> P (xs ! j))"
proof (induction xs arbitrary: i)
  case (Cons x xs)
  show ?case
  proof (cases "P x")
    case False
    with Cons.prems obtain k where k: "find_index P xs = Some k" "i = Suc k" by auto
    then show ?thesis using Cons.IH [OF k(1)] False by (auto simp: nth_Cons' less_Suc_eq_0_disj)
  qed (use Cons.prems in auto)
qed simp

lemma find_index_map: "find_index P (map f xs) = find_index (\<lambda>x. P (f x)) xs"
  by (induction xs) auto

lemma find_index_snoc:
  "find_index P (xs @ [x]) =
     (case find_index P xs of Some i \<Rightarrow> Some i | None \<Rightarrow> if P x then Some (length xs) else None)"
  by (induction xs) (auto split: option.splits)

lemma find_unique:
  assumes "x \<in> set xs" "P x" "\<And>y. y \<in> set xs \<Longrightarrow> P y \<Longrightarrow> y = x"
  shows "find P xs = Some x"
proof (cases "find P xs")
  case None
  then show ?thesis using assms(1,2) by (simp add: find_None_iff)
next
  case (Some y)
  then have "y \<in> set xs" "P y" by (auto simp: find_Some_iff)
  then have "y = x" by (rule assms(3))
  then show ?thesis using Some by (rule subst)
qed

section \<open>Distinct keys in the order of first occurrence\<close>

definition firsts :: "'a list \<Rightarrow> 'a list" where
  "firsts xs = rev (remdups (rev xs))"

lemma firsts_Nil [simp]: "firsts [] = []"
  by (simp add: firsts_def)

lemma firsts_snoc: "firsts (xs @ [x]) = (if x \<in> set xs then firsts xs else firsts xs @ [x])"
  by (simp add: firsts_def)

lemma set_firsts [simp]: "set (firsts xs) = set xs"
  by (simp add: firsts_def)

lemma distinct_firsts [simp]: "distinct (firsts xs)"
  by (simp add: firsts_def)

section \<open>Grouping\<close>

text \<open>
  The interface of a group: what it is identified by, how the first object makes it and how a
  further one extends it. If \<open>summary k\<close> describes the group of the objects with the key \<open>k\<close>, adding
  the objects one by one gives the summaries of the classes of equal keys.
\<close>

definition upsert :: "('g \<Rightarrow> 'k) \<Rightarrow> ('x \<Rightarrow> 'k) \<Rightarrow> ('x \<Rightarrow> 'g) \<Rightarrow> ('x \<Rightarrow> 'g \<Rightarrow> 'g) \<Rightarrow> 'x \<Rightarrow> 'g list \<Rightarrow> 'g list" where
  "upsert gkey key mk upd x gs =
     (case find_index (\<lambda>g. gkey g = key x) gs of
        None \<Rightarrow> gs @ [mk x]
      | Some i \<Rightarrow> gs[i := upd x (gs ! i)])"

definition groups :: "('x \<Rightarrow> 'k) \<Rightarrow> ('k \<Rightarrow> 'x list \<Rightarrow> 'g) \<Rightarrow> 'x list \<Rightarrow> 'g list" where
  "groups key summary xs = map (\<lambda>k. summary k (filter (\<lambda>x. key x = k) xs)) (firsts (map key xs))"

lemma groups_Nil [simp]: "groups key summary [] = []"
  by (simp add: groups_def)

lemma set_groups: "set (groups key summary xs) = (\<lambda>k. summary k (filter (\<lambda>x. key x = k) xs)) ` key ` set xs"
  by (simp add: groups_def)

locale grouping =
  fixes gkey :: "'g \<Rightarrow> 'k" and key :: "'x \<Rightarrow> 'k" and mk :: "'x \<Rightarrow> 'g" and upd :: "'x \<Rightarrow> 'g \<Rightarrow> 'g"
    and summary :: "'k \<Rightarrow> 'x list \<Rightarrow> 'g"
  assumes gkey_summary: "gkey (summary k xs) = k"
    and mk_summary: "mk x = summary (key x) [x]"
    and upd_summary: "xs \<noteq> [] \<Longrightarrow> \<forall>y \<in> set xs. key y = key x \<Longrightarrow>
      upd x (summary (key x) xs) = summary (key x) (xs @ [x])"
begin

lemma gkeys_groups: "map gkey (groups key summary xs) = firsts (map key xs)"
  by (simp add: groups_def comp_def gkey_summary)

lemma upsert_groups: "upsert gkey key mk upd x (groups key summary xs) = groups key summary (xs @ [x])"
proof (cases "find_index (\<lambda>g. gkey g = key x) (groups key summary xs)")
  case None
  have "key x \<notin> set (map gkey (groups key summary xs))" using None by (auto simp: find_index_None)
  then have new: "key x \<notin> set (map key xs)" by (simp add: gkeys_groups)
  have "key y \<noteq> key x" if "y \<in> set xs" for y using new that by (metis image_eqI list.set_map)
  then have no: "filter (\<lambda>y. key y = key x) xs = []" by (simp add: filter_empty_conv)
  have "(\<lambda>k. summary k (filter (\<lambda>y. key y = k) (xs @ [x]))) k = summary k (filter (\<lambda>y. key y = k) xs)"
    if "k \<in> set (firsts (map key xs))" for k
    using that new by auto
  then have "map (\<lambda>k. summary k (filter (\<lambda>y. key y = k) (xs @ [x]))) (firsts (map key xs)) = groups key summary xs"
    unfolding groups_def by (intro map_cong refl)
  then show ?thesis using None new no by (simp add: upsert_def groups_def firsts_snoc mk_summary)
next
  case (Some i)
  let ?ks = "firsts (map key xs)"
  from find_index_SomeD [OF Some] have len: "i < length ?ks" and g: "gkey (groups key summary xs ! i) = key x"
    by (auto simp: groups_def)
  from g len have ki: "?ks ! i = key x" by (simp add: groups_def gkey_summary)
  then have old: "key x \<in> key ` set xs" using nth_mem [OF len] by simp
  then have ne: "filter (\<lambda>y. key y = key x) xs \<noteq> []" by (auto simp: filter_empty_conv)
  have "(groups key summary xs)[i := upd x (groups key summary xs ! i)] = groups key summary (xs @ [x])"
  proof (rule nth_equalityI)
    fix j
    assume "j < length ((groups key summary xs)[i := upd x (groups key summary xs ! i)])"
    then have j: "j < length ?ks" by (simp add: groups_def)
    show "(groups key summary xs)[i := upd x (groups key summary xs ! i)] ! j = groups key summary (xs @ [x]) ! j"
    proof (cases "j = i")
      case True
      then show ?thesis using len ki old upd_summary [OF ne] by (simp add: groups_def firsts_snoc)
    next
      case False
      then have "?ks ! j \<noteq> key x" using nth_eq_iff_index_eq [OF distinct_firsts j len] ki by metis
      then show ?thesis using False j old by (auto simp: groups_def firsts_snoc)
    qed
  qed (use old in \<open>simp add: groups_def firsts_snoc\<close>)
  then show ?thesis using Some by (simp add: upsert_def)
qed

lemma fold_upsert: "fold (upsert gkey key mk upd) ys (groups key summary xs) = groups key summary (xs @ ys)"
  by (induction ys arbitrary: xs) (simp_all add: upsert_groups)

lemma fold_upsert_Nil: "fold (upsert gkey key mk upd) xs [] = groups key summary xs"
  using fold_upsert [of xs "[]"] by simp

end

text \<open>
  The same step with a hash table that remembers the position of every group in the vector: a missing
  group is appended empty, and in both cases the group at the remembered position is extended.
\<close>

definition upsert_indexed :: "('x \<Rightarrow> 'k) \<Rightarrow> ('k \<Rightarrow> 'g) \<Rightarrow> ('x \<Rightarrow> 'g \<Rightarrow> 'g) \<Rightarrow> 'x \<Rightarrow>
    'g list \<times> ('k, nat) umap \<Rightarrow> 'g list \<times> ('k, nat) umap" where
  "upsert_indexed key new upd x st =
     (let (gs, indices) = st;
          (gs1, indices1) = (case um_find indices (key x) of
              Some _ \<Rightarrow> (gs, indices)
            | None \<Rightarrow> (gs @ [new (key x)], um_insert (key x) (length gs) indices));
          i = the (um_find indices1 (key x))
      in (gs1[i := upd x (gs1 ! i)], indices1))"

definition indexed :: "('g \<Rightarrow> 'k) \<Rightarrow> 'g list \<times> ('k, nat) umap \<Rightarrow> bool" where
  "indexed gkey st \<longleftrightarrow> (\<forall>k. um_find (snd st) k = find_index (\<lambda>g. gkey g = k) (fst st))"

lemma find_index_update:
  assumes "gkey (f (gs ! i)) = gkey (gs ! i)"
  shows "find_index (\<lambda>g. gkey g = k) (gs[i := f (gs ! i)]) = find_index (\<lambda>g. gkey g = k) gs"
proof -
  have "map gkey (gs[i := f (gs ! i)]) = map gkey gs"
    by (cases "i < length gs") (simp_all add: map_update assms list_update_same_conv list_update_beyond)
  then have "find_index (\<lambda>x. x = k) (map gkey (gs[i := f (gs ! i)])) = find_index (\<lambda>x. x = k) (map gkey gs)"
    by simp
  then show ?thesis by (simp only: find_index_map)
qed

locale indexed_groups =
  fixes gkey :: "'g \<Rightarrow> 'k" and key :: "'x \<Rightarrow> 'k" and new :: "'k \<Rightarrow> 'g" and upd :: "'x \<Rightarrow> 'g \<Rightarrow> 'g"
  assumes gkey_new: "gkey (new k) = k" and gkey_upd: "gkey (upd x g) = gkey g"
begin

lemma upsert_indexed_step:
  assumes "indexed gkey st"
  shows "fst (upsert_indexed key new upd x st) = upsert gkey key (\<lambda>x. upd x (new (key x))) upd x (fst st) \<and>
    indexed gkey (upsert_indexed key new upd x st)"
proof (cases "um_find (snd st) (key x)")
  case None
  have "find_index (\<lambda>g. gkey g = key x) (fst st) = None" using None assms by (simp add: indexed_def)
  moreover have "indexed gkey (fst st @ [new (key x)], um_insert (key x) (length (fst st)) (snd st))"
    using assms None by (auto simp: indexed_def um_find_insert find_index_snoc gkey_new split: option.splits)
  ultimately show ?thesis using None
    by (auto simp: upsert_indexed_def upsert_def um_find_insert indexed_def find_index_snoc gkey_new gkey_upd case_prod_beta)
next
  case (Some i)
  then show ?thesis using assms
    by (auto simp: upsert_indexed_def upsert_def indexed_def find_index_update gkey_upd case_prod_beta)
qed

lemma fold_upsert_indexed: "indexed gkey st \<Longrightarrow>
    fst (fold (upsert_indexed key new upd) xs st) = fold (upsert gkey key (\<lambda>x. upd x (new (key x))) upd) xs (fst st)"
  by (induction xs arbitrary: st) (simp_all add: upsert_indexed_step)

lemma fold_upsert_indexed_Nil:
  "fst (fold (upsert_indexed key new upd) xs ([], [])) = fold (upsert gkey key (\<lambda>x. upd x (new (key x))) upd) xs []"
  by (subst fold_upsert_indexed) (simp_all add: indexed_def)

end

section \<open>Sorting\<close>

text \<open>
  \<^verbatim>\<open>std::sort\<close> with a comparer. The order of equivalent elements is left open by C++; what is
  stated of the result is that it is a rearrangement in which no element is less than an earlier one.
\<close>

fun insert_by :: "('a \<Rightarrow> 'a \<Rightarrow> bool) \<Rightarrow> 'a \<Rightarrow> 'a list \<Rightarrow> 'a list" where
  "insert_by lt x [] = [x]"
| "insert_by lt x (y # ys) = (if lt y x then y # insert_by lt x ys else x # y # ys)"

fun sort_by :: "('a \<Rightarrow> 'a \<Rightarrow> bool) \<Rightarrow> 'a list \<Rightarrow> 'a list" where
  "sort_by lt [] = []"
| "sort_by lt (x # xs) = insert_by lt x (sort_by lt xs)"

definition in_order :: "('a \<Rightarrow> 'a \<Rightarrow> bool) \<Rightarrow> 'a list \<Rightarrow> bool" where
  "in_order lt xs \<longleftrightarrow> sorted_wrt (\<lambda>x y. \<not> lt y x) xs"

lemma mset_insert_by [simp]: "mset (insert_by lt x xs) = add_mset x (mset xs)"
  by (induction xs) auto

lemma mset_sort_by [simp]: "mset (sort_by lt xs) = mset xs"
  by (induction xs) auto

lemma set_sort_by [simp]: "set (sort_by lt xs) = set xs"
  by (rule mset_eq_setD) simp

lemma length_sort_by [simp]: "length (sort_by lt xs) = length xs"
  by (rule mset_eq_length) simp

text \<open>What \<^verbatim>\<open>std::sort\<close> requires of a comparer: a strict weak order.\<close>

locale comparer =
  fixes lt :: "'a \<Rightarrow> 'a \<Rightarrow> bool"
  assumes asym: "lt x y \<Longrightarrow> \<not> lt y x"
    and neg_trans: "\<not> lt y x \<Longrightarrow> \<not> lt z y \<Longrightarrow> \<not> lt z x"
begin

lemma set_insert_by: "set (insert_by lt x xs) = insert x (set xs)"
  by (induction xs) auto

lemma in_order_insert: "in_order lt xs \<Longrightarrow> in_order lt (insert_by lt x xs)"
  by (induction xs) (auto simp: in_order_def set_insert_by dest: asym neg_trans)

lemma in_order_sort: "in_order lt (sort_by lt xs)"
  by (induction xs) (simp_all add: in_order_insert, simp add: in_order_def)

end

text \<open>Comparing by a key, upwards or downwards, is such an order.\<close>

definition ascending :: "('a \<Rightarrow> 'k::linorder) \<Rightarrow> 'a \<Rightarrow> 'a \<Rightarrow> bool" where
  "ascending key x y \<longleftrightarrow> key x < key y"

definition descending :: "('a \<Rightarrow> 'k::linorder) \<Rightarrow> 'a \<Rightarrow> 'a \<Rightarrow> bool" where
  "descending key x y \<longleftrightarrow> key x > key y"

interpretation ascending: comparer "ascending key"
  by unfold_locales (auto simp: ascending_def)

interpretation descending: comparer "descending key"
  by unfold_locales (auto simp: descending_def)

lemma in_order_descending: "in_order (descending key) xs \<longleftrightarrow> sorted_wrt (\<lambda>x y. key x \<ge> key y) xs"
  by (simp add: in_order_def descending_def not_less)

lemma in_order_ascending: "in_order (ascending key) xs \<longleftrightarrow> sorted_wrt (\<lambda>x y. key x \<le> key y) xs"
  by (simp add: in_order_def ascending_def not_less)

end
