(* ===== verification/Live_Views.thy ===== *)
theory Live_Views
  imports Complex_Main Client_Views Grouping
begin

text \<open>
  The lists of the user interface: live objects grouped by type and by call stack
  (\<^verbatim>\<open>ui/src/live_objects_data.cpp\<close>) and the results of a search for addresses
  (\<^verbatim>\<open>ui/src/search_results_data.cpp\<close>). A table model keeps rows; the signals it emits and the
  layout of the widgets are left out.
\<close>

section \<open>Cells of a table\<close>

text \<open>A \<^verbatim>\<open>QVariant\<close> as far as the models fill it, and the roles they answer.\<close>

datatype qvariant = Q_invalid | Q_ulonglong u64 | Q_string bytes

datatype qrole = Display_role | User_role nat | Other_role

text \<open>Decimal digits, as the formats \<^verbatim>\<open>%I64u\<close> and \<^verbatim>\<open>std::to_string\<close> print them.\<close>

fun decimal :: "nat \<Rightarrow> bytes" where
  "decimal n = (if n < 10 then [of_nat (48 + n)] else decimal (n div 10) @ [of_nat (48 + n mod 10)])"

text \<open>Printing a floating point number with two decimals is Qt's: the parameter \<open>fixed2\<close>; the
  argument is the value of the \<^verbatim>\<open>double\<close>, and dividing it by a power of two is exact.\<close>

definition size_to_string :: "(rat \<Rightarrow> bytes) \<Rightarrow> rat \<Rightarrow> bytes" where
  "size_to_string fixed2 v =
     (if v < 1024 then decimal (nat \<lfloor>v\<rfloor>) @ chars ''b''
      else if v < 1024 * 1024 then fixed2 (v / 1024) @ chars ''Kb''
      else fixed2 (v / 1024 / 1024) @ chars ''Mb'')"

text \<open>What the models need of Qt and of the conversion from \<^verbatim>\<open>uint64_t\<close> to \<^verbatim>\<open>double\<close>.\<close>

record qt_text =
  qt_double :: "u64 \<Rightarrow> rat"
  qt_fixed2 :: "rat \<Rightarrow> bytes"

definition size_cell :: "qt_text \<Rightarrow> u64 \<Rightarrow> qvariant" where
  "size_cell qt z = Q_string (size_to_string (qt_fixed2 qt) (qt_double qt z))"

text \<open>The guard all models share: the row at an index with a valid row and column.\<close>

definition row_at :: "'r list \<Rightarrow> int \<Rightarrow> int \<Rightarrow> 'r option" where
  "row_at rws row col =
     (if row < 0 \<or> row \<ge> int (length rws) then None
      else if col < 0 \<or> col \<ge> 3 then None
      else Some (rws ! nat row))"

definition header_text :: "bytes list \<Rightarrow> bool \<Rightarrow> qrole \<Rightarrow> int \<Rightarrow> qvariant" where
  "header_text titles horizontal role column =
     (if \<not> horizontal \<or> role \<noteq> Display_role then Q_invalid
      else if 0 \<le> column \<and> column < int (length titles) then Q_string (titles ! nat column)
      else Q_invalid)"

definition by_order :: "bool \<Rightarrow> ('r \<Rightarrow> 'k::linorder) \<Rightarrow> 'r \<Rightarrow> 'r \<Rightarrow> bool" where
  "by_order asc key = (if asc then ascending key else descending key)"

interpretation by_order: comparer "by_order asc key"
  by unfold_locales (auto simp: by_order_def ascending_def descending_def split: if_splits)

section \<open>Grouping the live objects\<close>

record callstack_data =
  cd_callstack :: u64
  cd_count :: u64
  cd_size :: u64
  cd_addresses :: "u64 list"

record type_data =
  td_type :: u64
  td_count :: u64
  td_size :: u64
  td_callstacks :: "callstack_data list"

definition new_callstack :: "live_object \<Rightarrow> callstack_data" where
  "new_callstack ob = \<lparr>cd_callstack = lo_callstack_id ob, cd_count = 1, cd_size = lo_size ob, cd_addresses = [lo_addr ob]\<rparr>"

definition add_to_callstack :: "live_object \<Rightarrow> callstack_data \<Rightarrow> callstack_data" where
  "add_to_callstack ob g = g\<lparr>cd_count := cd_count g + 1, cd_size := cd_size g + lo_size ob,
     cd_addresses := cd_addresses g @ [lo_addr ob]\<rparr>"

text \<open>The part of the loop body that works on \<^verbatim>\<open>types[type_index]\<close>.\<close>

definition add_to_type :: "live_object \<Rightarrow> type_data \<Rightarrow> type_data" where
  "add_to_type ob t = t\<lparr>td_count := td_count t + 1, td_size := td_size t + lo_size ob,
     td_callstacks := upsert cd_callstack lo_callstack_id new_callstack add_to_callstack ob (td_callstacks t)\<rparr>"

definition new_type :: "u64 \<Rightarrow> type_data" where
  "new_type type_id = \<lparr>td_type = type_id, td_count = 0, td_size = 0, td_callstacks = []\<rparr>"

text \<open>The loop body: the hash table \<^verbatim>\<open>type_indices\<close> gives the position of the type in the vector.\<close>

definition group_object :: "live_object \<Rightarrow> type_data list \<times> (u64, nat) umap \<Rightarrow> type_data list \<times> (u64, nat) umap" where
  "group_object = upsert_indexed lo_type_id new_type add_to_type"

text \<open>\<^verbatim>\<open>live_objects_data::update\<close>; \<open>None\<close> stands for the null pointer before \<^verbatim>\<open>init\<close>. The frames are
  \<^verbatim>\<open>uint64_t\<close> here and \<^verbatim>\<open>int\<close> in the query.\<close>

definition live_objects_update :: "client option \<Rightarrow> (nat \<Rightarrow> bool) \<Rightarrow> u64 \<Rightarrow> u64 \<Rightarrow> type_data list \<Rightarrow> type_data list" where
  "live_objects_update data progress from_frame to_frame types =
     (case data of
        None \<Rightarrow> types
      | Some c \<Rightarrow> fst (fold group_object (get_live_objects progress (ucast from_frame) (ucast to_frame) c) ([], [])))"

definition export_to_csv :: "client \<Rightarrow> type_data list \<Rightarrow> bytes" where
  "export_to_csv c types =
     chars ''Type;Count;Size'' @ [10] @
     concat (map (\<lambda>t. [34] @ get_type_name (td_type t) c @ [34] @ chars '';'' @ decimal (unat (td_count t)) @
       chars '';'' @ decimal (unat (td_size t)) @ [10]) types)"

section \<open>The table of types\<close>

record type_row =
  tw_type :: u64
  tw_count :: u64
  tw_size :: u64

record by_type_model =
  bt_rows :: "type_row list"
  bt_total_size :: u64

definition by_type_rowCount :: "by_type_model \<Rightarrow> nat" where
  "by_type_rowCount m = length (bt_rows m)"

definition by_type_data :: "qt_text \<Rightarrow> client \<Rightarrow> by_type_model \<Rightarrow> int \<Rightarrow> int \<Rightarrow> qrole \<Rightarrow> qvariant" where
  "by_type_data qt c m row col role =
     (if role \<notin> {Display_role, User_role 0, User_role 1} then Q_invalid
      else case row_at (bt_rows m) row col of
             None \<Rightarrow> Q_invalid
           | Some r \<Rightarrow>
               if role = User_role 0 then Q_ulonglong (tw_type r)
               else if role = User_role 1 then Q_ulonglong (tw_size r)
               else if col = 0 then Q_string (get_type_name (tw_type r) c)
               else if col = 1 then Q_ulonglong (tw_count r)
               else size_cell qt (tw_size r))"

definition by_type_headerData :: "bool \<Rightarrow> qrole \<Rightarrow> int \<Rightarrow> qvariant" where
  "by_type_headerData horizontal role column =
     header_text [chars ''Type'', chars ''Count'', chars ''Size''] horizontal role column"

definition by_type_sort :: "client \<Rightarrow> int \<Rightarrow> bool \<Rightarrow> by_type_model \<Rightarrow> by_type_model" where
  "by_type_sort c column asc m =
     (if column = 0 then m\<lparr>bt_rows := sort_by (by_order asc (\<lambda>r. get_type_name (tw_type r) c)) (bt_rows m)\<rparr>
      else if column = 1 then m\<lparr>bt_rows := sort_by (by_order asc tw_count) (bt_rows m)\<rparr>
      else if column = 2 then m\<lparr>bt_rows := sort_by (by_order asc tw_size) (bt_rows m)\<rparr>
      else m)"

definition by_type_clear :: "by_type_model \<Rightarrow> by_type_model" where
  "by_type_clear m = m\<lparr>bt_total_size := 0, bt_rows := []\<rparr>"

definition by_type_push :: "type_data \<Rightarrow> by_type_model \<Rightarrow> by_type_model" where
  "by_type_push t m = m\<lparr>bt_rows := bt_rows m @ [\<lparr>tw_type = td_type t, tw_count = td_count t, tw_size = td_size t\<rparr>],
     bt_total_size := bt_total_size m + td_size t\<rparr>"

definition by_type_update :: "client \<Rightarrow> type_data list option \<Rightarrow> by_type_model \<Rightarrow> by_type_model" where
  "by_type_update c data m =
     (let m1 = by_type_clear m
      in case data of
           None \<Rightarrow> m1
         | Some types \<Rightarrow> if types = [] then m1 else by_type_sort c 2 False (fold by_type_push types m1))"

definition find_type :: "u64 \<Rightarrow> by_type_model \<Rightarrow> nat option" where
  "find_type type m = find_index (\<lambda>r. tw_type r = type) (bt_rows m)"

section \<open>The table of call stacks of a type\<close>

record stacks_model =
  sm_rows :: "callstack_data list"

definition stacks_rowCount :: "stacks_model \<Rightarrow> nat" where
  "stacks_rowCount m = length (sm_rows m)"

definition stacks_data :: "qt_text \<Rightarrow> client \<Rightarrow> stacks_model \<Rightarrow> int \<Rightarrow> int \<Rightarrow> qrole \<Rightarrow> qvariant" where
  "stacks_data qt c m row col role =
     (if role \<notin> {Display_role, User_role 0} then Q_invalid
      else case row_at (sm_rows m) row col of
             None \<Rightarrow> Q_invalid
           | Some r \<Rightarrow>
               if role = User_role 0 then Q_ulonglong (cd_callstack r)
               else if col = 0 then Q_string (get_callstack (cd_callstack r) c)
               else if col = 1 then Q_ulonglong (cd_count r)
               else size_cell qt (cd_size r))"

definition stacks_headerData :: "bool \<Rightarrow> qrole \<Rightarrow> int \<Rightarrow> qvariant" where
  "stacks_headerData horizontal role column =
     header_text [chars ''Callstack'', chars ''Count'', chars ''Size''] horizontal role column"

definition stacks_sort :: "client \<Rightarrow> int \<Rightarrow> bool \<Rightarrow> stacks_model \<Rightarrow> stacks_model" where
  "stacks_sort c column asc m =
     (if column = 0 then m\<lparr>sm_rows := sort_by (by_order asc (\<lambda>r. get_callstack (cd_callstack r) c)) (sm_rows m)\<rparr>
      else if column = 1 then m\<lparr>sm_rows := sort_by (by_order asc cd_count) (sm_rows m)\<rparr>
      else if column = 2 then m\<lparr>sm_rows := sort_by (by_order asc cd_size) (sm_rows m)\<rparr>
      else m)"

definition stacks_clear :: "stacks_model \<Rightarrow> stacks_model" where
  "stacks_clear m = m\<lparr>sm_rows := []\<rparr>"

definition stacks_update :: "client \<Rightarrow> type_data list \<Rightarrow> u64 \<Rightarrow> stacks_model \<Rightarrow> stacks_model" where
  "stacks_update c types type m =
     (let m1 = stacks_clear m
      in case find (\<lambda>t. td_type t = type) types of
           None \<Rightarrow> m1
         | Some t \<Rightarrow> if td_callstacks t = [] then m1
                    else stacks_sort c 2 False (m1\<lparr>sm_rows := td_callstacks t\<rparr>))"

definition find_callstack :: "u64 \<Rightarrow> stacks_model \<Rightarrow> nat option" where
  "find_callstack callstack m = find_index (\<lambda>r. cd_callstack r = callstack) (sm_rows m)"

definition stacks_get_addresses :: "stacks_model \<Rightarrow> int \<Rightarrow> int \<Rightarrow> u64 list option" where
  "stacks_get_addresses m row col = map_option cd_addresses (row_at (sm_rows m) row col)"

section \<open>Search results\<close>

record search_callstack =
  sc_callstack :: u64
  sc_addresses :: "u64 list"

record search_type =
  st_type :: u64
  st_callstacks :: "search_callstack list"

text \<open>An address that the search found: its type and call stack.\<close>

type_synonym found = "u64 \<times> u64"

definition new_search_callstack :: "found \<Rightarrow> search_callstack" where
  "new_search_callstack f = \<lparr>sc_callstack = snd f, sc_addresses = []\<rparr>"

definition add_search_callstack :: "found \<Rightarrow> search_callstack \<Rightarrow> search_callstack" where
  "add_search_callstack f g = g\<lparr>sc_addresses := sc_addresses g @ [snd f]\<rparr>"

definition add_search_type :: "found \<Rightarrow> search_type \<Rightarrow> search_type" where
  "add_search_type f t = t\<lparr>st_callstacks :=
     upsert sc_callstack snd new_search_callstack add_search_callstack f (st_callstacks t)\<rparr>"

definition new_search_type :: "u64 \<Rightarrow> search_type" where
  "new_search_type type_id = \<lparr>st_type = type_id, st_callstacks = []\<rparr>"

text \<open>The identifiers keep their initial value, the largest one, when the query finds nothing.\<close>

definition found_at :: "client \<Rightarrow> u64 \<Rightarrow> found" where
  "found_at c addr = (case get_allocation_type_and_stack addr c of Some f \<Rightarrow> f | None \<Rightarrow> (- 1, - 1))"

definition search_address :: "client \<Rightarrow> u64 \<Rightarrow> search_type list \<times> (u64, nat) umap \<Rightarrow> search_type list \<times> (u64, nat) umap" where
  "search_address c addr st =
     (if fst (found_at c addr) = - 1 then st
      else upsert_indexed fst new_search_type add_search_type (found_at c addr) st)"

definition search_address_list :: "client option \<Rightarrow> u64 list \<Rightarrow> search_type list \<Rightarrow> search_type list" where
  "search_address_list data addresses types =
     (case data of None \<Rightarrow> types | Some c \<Rightarrow> fst (fold (search_address c) addresses ([], [])))"

text \<open>The two tables of results: the first keeps types, the second call stacks and, by its
  declaration, their addresses.\<close>

record search_types_model =
  xt_rows :: "u64 list"

definition search_types_data :: "client \<Rightarrow> search_types_model \<Rightarrow> int \<Rightarrow> int \<Rightarrow> qrole \<Rightarrow> qvariant" where
  "search_types_data c m row col role =
     (if role \<notin> {Display_role, User_role 0} then Q_invalid
      else case row_at (xt_rows m) row col of
             None \<Rightarrow> Q_invalid
           | Some t \<Rightarrow> if role = User_role 0 then Q_ulonglong t
                      else if col = 0 then Q_string (get_type_name t c) else Q_invalid)"

definition search_types_sort :: "client \<Rightarrow> int \<Rightarrow> bool \<Rightarrow> search_types_model \<Rightarrow> search_types_model" where
  "search_types_sort c column asc m =
     (if column = 0 then m\<lparr>xt_rows := sort_by (by_order asc (\<lambda>t. get_type_name t c)) (xt_rows m)\<rparr> else m)"

definition search_types_clear :: "search_types_model \<Rightarrow> search_types_model" where
  "search_types_clear m = m\<lparr>xt_rows := []\<rparr>"

definition search_types_update :: "client \<Rightarrow> search_type list option \<Rightarrow> search_types_model \<Rightarrow> search_types_model" where
  "search_types_update c data m =
     (let m1 = search_types_clear m
      in case data of
           None \<Rightarrow> m1
         | Some types \<Rightarrow> if types = [] then m1
             else search_types_sort c 2 False (m1\<lparr>xt_rows := map st_type types\<rparr>))"

record search_stacks_model =
  xs_rows :: "search_callstack list"

definition search_stacks_data :: "client \<Rightarrow> search_stacks_model \<Rightarrow> int \<Rightarrow> int \<Rightarrow> qrole \<Rightarrow> qvariant" where
  "search_stacks_data c m row col role =
     (if role \<notin> {Display_role, User_role 0} then Q_invalid
      else case row_at (xs_rows m) row col of
             None \<Rightarrow> Q_invalid
           | Some r \<Rightarrow> if role = User_role 0 then Q_ulonglong (sc_callstack r)
                      else if col = 0 then Q_string (get_callstack (sc_callstack r) c) else Q_invalid)"

definition search_stacks_sort :: "client \<Rightarrow> int \<Rightarrow> bool \<Rightarrow> search_stacks_model \<Rightarrow> search_stacks_model" where
  "search_stacks_sort c column asc m =
     (if column = 0 then m\<lparr>xs_rows := sort_by (by_order asc (\<lambda>r. get_callstack (sc_callstack r) c)) (xs_rows m)\<rparr> else m)"

definition search_stacks_clear :: "search_stacks_model \<Rightarrow> search_stacks_model" where
  "search_stacks_clear m = m\<lparr>xs_rows := []\<rparr>"

definition search_stacks_update :: "client \<Rightarrow> search_type list \<Rightarrow> u64 \<Rightarrow> search_stacks_model \<Rightarrow> search_stacks_model" where
  "search_stacks_update c types type m =
     (let m1 = search_stacks_clear m
      in case find (\<lambda>t. st_type t = type) types of
           None \<Rightarrow> m1
         | Some t \<Rightarrow> if st_callstacks t = [] then m1
             else search_stacks_sort c 2 False
               (m1\<lparr>xs_rows := map (\<lambda>g. \<lparr>sc_callstack = sc_callstack g, sc_addresses = []\<rparr>) (st_callstacks t)\<rparr>))"

definition search_stacks_get_addresses :: "search_stacks_model \<Rightarrow> int \<Rightarrow> int \<Rightarrow> u64 list option" where
  "search_stacks_get_addresses m row col = map_option sc_addresses (row_at (xs_rows m) row col)"

section \<open>What the groups hold\<close>

definition callstack_summary :: "u64 \<Rightarrow> live_object list \<Rightarrow> callstack_data" where
  "callstack_summary s obs = \<lparr>cd_callstack = s, cd_count = of_nat (length obs), cd_size = sum_list (map lo_size obs),
     cd_addresses = map lo_addr obs\<rparr>"

definition type_summary :: "u64 \<Rightarrow> live_object list \<Rightarrow> type_data" where
  "type_summary t obs = \<lparr>td_type = t, td_count = of_nat (length obs), td_size = sum_list (map lo_size obs),
     td_callstacks = groups lo_callstack_id callstack_summary obs\<rparr>"

interpretation by_stack: grouping cd_callstack lo_callstack_id new_callstack add_to_callstack callstack_summary
  by unfold_locales (simp_all add: callstack_summary_def new_callstack_def add_to_callstack_def)

lemma add_to_type_summary: "add_to_type ob (type_summary t obs) = type_summary t (obs @ [ob])"
  by (simp add: add_to_type_def type_summary_def by_stack.upsert_groups)

lemma new_type_summary: "new_type t = type_summary t []"
  by (simp add: new_type_def type_summary_def)

interpretation by_type: grouping td_type lo_type_id "\<lambda>ob. add_to_type ob (new_type (lo_type_id ob))" add_to_type type_summary
  by unfold_locales (simp add: type_summary_def, simp_all add: new_type_summary add_to_type_summary)

interpretation type_index: indexed_groups td_type lo_type_id new_type add_to_type
  by unfold_locales (simp_all add: new_type_def add_to_type_def)

text \<open>
  Grouping the live objects of a range of frames through the table of positions gives, for every
  type in the order of first occurrence, the number and the total size of its objects, and for
  every call stack of the type the number, the total size and the addresses of the objects
  allocated there.
\<close>

lemma update_groups:
  "live_objects_update (Some c) progress a b types =
     groups lo_type_id type_summary (get_live_objects progress (ucast a) (ucast b) c)"
  by (simp add: live_objects_update_def group_object_def type_index.fold_upsert_indexed_Nil by_type.fold_upsert_Nil)

lemma sum_upsert:
  fixes f :: "'g \<Rightarrow> 'a::comm_monoid_add"
  assumes "\<And>x. f (mk x) = h x" "\<And>x g. f (upd x g) = f g + h x"
  shows "sum_list (map f (upsert gkey key mk upd x gs)) = sum_list (map f gs) + h x"
  unfolding upsert_def
  by (induction gs) (auto simp: assms ac_simps split: option.splits)

lemma sum_groups:
  "sum_list (map td_size (groups lo_type_id type_summary obs)) = sum_list (map lo_size obs)"
proof -
  let ?up = "upsert td_type lo_type_id (\<lambda>ob. add_to_type ob (new_type (lo_type_id ob))) add_to_type"
  have "sum_list (map td_size (fold ?up obs gs)) = sum_list (map td_size gs) + sum_list (map lo_size obs)" for gs
    by (induction obs arbitrary: gs)
      (simp_all add: sum_upsert [where h = lo_size and f = td_size] add_to_type_def new_type_def ac_simps)
  from this [of "[]"] show ?thesis by (simp add: by_type.fold_upsert_Nil)
qed

definition type_row_of :: "type_data \<Rightarrow> type_row" where
  "type_row_of t = \<lparr>tw_type = td_type t, tw_count = td_count t, tw_size = td_size t\<rparr>"

lemma fold_by_type_push:
  "fold by_type_push ts m = m\<lparr>bt_rows := bt_rows m @ map type_row_of ts,
     bt_total_size := bt_total_size m + sum_list (map td_size ts)\<rparr>"
  by (induction ts arbitrary: m) (simp_all add: by_type_push_def type_row_of_def ac_simps)

lemma by_type_update_rows:
  "bt_rows (by_type_update c (Some ts) m) = sort_by (by_order False tw_size) (map type_row_of ts)"
  "bt_total_size (by_type_update c (Some ts) m) = sum_list (map td_size ts)"
  by (simp_all add: by_type_update_def by_type_clear_def by_type_sort_def fold_by_type_push Let_def)

text \<open>
  C16. The table of types shows one row per type of the live objects of the range, with their number
  and total size, largest first, and the total under the table is the size of all live objects.
\<close>

theorem type_table_exact:
  "let obs = get_live_objects progress (ucast a) (ucast b) c;
       m = by_type_update c (Some (live_objects_update (Some c) progress a b types)) m0
   in set (bt_rows m) = {\<lparr>tw_type = t, tw_count = of_nat (length (filter (\<lambda>ob. lo_type_id ob = t) obs)),
        tw_size = sum_list (map lo_size (filter (\<lambda>ob. lo_type_id ob = t) obs))\<rparr> | t. t \<in> lo_type_id ` set obs} \<and>
    distinct (map tw_type (bt_rows m)) \<and>
    sorted_wrt (\<lambda>x y. tw_size x \<ge> tw_size y) (bt_rows m) \<and>
    bt_total_size m = sum_list (map lo_size obs)"
  unfolding Let_def
proof (intro conjI)
  define obs where "obs = get_live_objects progress (ucast a) (ucast b) c"
  define m where "m = by_type_update c (Some (live_objects_update (Some c) progress a b types)) m0"
  let ?g = "groups lo_type_id type_summary obs"
  have r: "bt_rows m = sort_by (by_order False tw_size) (map type_row_of ?g)"
    by (simp add: m_def obs_def update_groups by_type_update_rows)
  show "set (bt_rows m) = {\<lparr>tw_type = t, tw_count = of_nat (length (filter (\<lambda>ob. lo_type_id ob = t) obs)),
        tw_size = sum_list (map lo_size (filter (\<lambda>ob. lo_type_id ob = t) obs))\<rparr> | t. t \<in> lo_type_id ` set obs}"
    by (auto simp: r set_groups type_row_of_def type_summary_def image_iff)
  have "mset (map tw_type (bt_rows m)) = mset (map tw_type (map type_row_of ?g))"
    unfolding mset_map r by simp
  moreover have "map tw_type (map type_row_of ?g) = firsts (map lo_type_id obs)"
    using by_type.gkeys_groups [of obs] by (simp add: comp_def type_row_of_def)
  ultimately show "distinct (map tw_type (bt_rows m))" by (metis distinct_firsts mset_eq_imp_distinct_iff)
  show "sorted_wrt (\<lambda>x y. tw_size x \<ge> tw_size y) (bt_rows m)"
    using by_order.in_order_sort [of False tw_size "map type_row_of ?g"]
    by (simp add: r by_order_def in_order_descending)
  show "bt_total_size m = sum_list (map lo_size obs)"
    by (simp add: m_def obs_def update_groups by_type_update_rows sum_groups)
qed

section \<open>The table of call stacks\<close>

text \<open>
  Choosing a type that occurs among the live objects lists its call stacks, each with exactly
  the addresses of the live objects of that type allocated there, the largest first.
\<close>

theorem stack_table_exact:
  assumes "t \<in> lo_type_id ` set (get_live_objects progress (ucast a) (ucast b) c)"
  shows "mset (sm_rows (stacks_update c (live_objects_update (Some c) progress a b types) t m0)) =
      mset (groups lo_callstack_id callstack_summary (filter (\<lambda>ob. lo_type_id ob = t)
        (get_live_objects progress (ucast a) (ucast b) c))) \<and>
    sorted_wrt (\<lambda>x y. cd_size x \<ge> cd_size y)
      (sm_rows (stacks_update c (live_objects_update (Some c) progress a b types) t m0))"
proof -
  let ?obs = "get_live_objects progress (ucast a) (ucast b) c"
  let ?g = "groups lo_type_id type_summary ?obs"
  let ?t = "type_summary t (filter (\<lambda>ob. lo_type_id ob = t) ?obs)"
  have "find (\<lambda>x. td_type x = t) ?g = Some ?t"
    using assms by (intro find_unique) (auto simp: set_groups type_summary_def)
  then have "stacks_update c ?g t m0 = stacks_sort c 2 False (m0\<lparr>sm_rows := td_callstacks ?t\<rparr>)"
    by (auto simp: stacks_update_def stacks_clear_def stacks_sort_def Let_def)
  then have r: "sm_rows (stacks_update c (live_objects_update (Some c) progress a b types) t m0) =
      sort_by (by_order False cd_size) (td_callstacks ?t)"
    by (simp add: update_groups stacks_sort_def)
  then show ?thesis using by_order.in_order_sort [of False cd_size "td_callstacks ?t"]
    by (simp add: by_order_def in_order_descending) (simp add: type_summary_def)
qed

section \<open>The addresses of search results\<close>

definition search_callstack_summary :: "u64 \<Rightarrow> found list \<Rightarrow> search_callstack" where
  "search_callstack_summary s fs = \<lparr>sc_callstack = s, sc_addresses = replicate (length fs - 1) s\<rparr>"

definition search_type_summary :: "u64 \<Rightarrow> found list \<Rightarrow> search_type" where
  "search_type_summary t fs = \<lparr>st_type = t, st_callstacks = groups snd search_callstack_summary fs\<rparr>"

interpretation found_by_stack: grouping sc_callstack snd new_search_callstack add_search_callstack search_callstack_summary
  by unfold_locales (auto simp: search_callstack_summary_def new_search_callstack_def add_search_callstack_def
      replicate_append_same Suc_diff_Suc simp flip: replicate_Suc)

lemma add_search_type_summary: "add_search_type f (search_type_summary t fs) = search_type_summary t (fs @ [f])"
  by (simp add: add_search_type_def search_type_summary_def found_by_stack.upsert_groups)

lemma new_search_type_summary: "new_search_type t = search_type_summary t []"
  by (simp add: new_search_type_def search_type_summary_def)

interpretation found_by_type: grouping st_type fst "\<lambda>f. add_search_type f (new_search_type (fst f))" add_search_type search_type_summary
  by unfold_locales (simp add: search_type_summary_def, simp_all add: new_search_type_summary add_search_type_summary)

interpretation found_index: indexed_groups st_type fst new_search_type add_search_type
  by unfold_locales (simp_all add: new_search_type_def add_search_type_def)

lemma search_addresses_fold:
  "fold (search_address c) addrs st =
     fold (upsert_indexed fst new_search_type add_search_type) (filter (\<lambda>f. fst f \<noteq> - 1) (map (found_at c) addrs)) st"
  by (induction addrs arbitrary: st) (simp_all add: search_address_def)

text \<open>
  A search groups the found addresses by type and call stack, but the list of addresses kept for
  a call stack holds no address: it repeats the identifier of the call stack, once less than the
  number of addresses found there.
\<close>

theorem search_addresses_lost:
  "search_address_list (Some c) addrs types =
     groups fst search_type_summary (filter (\<lambda>f. fst f \<noteq> - 1) (map (found_at c) addrs))"
  by (simp add: search_address_list_def search_addresses_fold found_index.fold_upsert_indexed_Nil
      found_by_type.fold_upsert_Nil)

end
