(* ===== verification/References_Tree.thy ===== *)
theory References_Tree
  imports Live_Views
begin

text \<open>
  The tree of referrers that the user interface shows for a list of objects
  (\<^verbatim>\<open>ui/src/object_references_model.cpp\<close>): objects with the same type share a node, and a node gets
  its children one level ahead of what is visible. A \<^verbatim>\<open>QModelIndex\<close>, in the code a pointer to a node,
  is the path of rows from the roots to the node; the parent pointers follow from it. The
  lemmas show that a visible node always shows exactly the referrers of its objects.
\<close>

section \<open>The model\<close>

datatype tree_node = Tree_node (was_expanded: bool) (node_addresses: "u64 list") (node_type: bytes)
  (node_children: "tree_node list")

record references_tree =
  m_references :: "(u64, object_references) umap"
  m_tree_roots :: "tree_node list"

definition empty_tree :: references_tree where
  "empty_tree = \<lparr>m_references = [], m_tree_roots = []\<rparr>"

text \<open>\<^verbatim>\<open>add_node\<close> at depth 1: find the child with the type or append one, without going deeper.\<close>

definition new_leaf :: "object_references \<Rightarrow> tree_node" where
  "new_leaf r = Tree_node False [or_addr r] (or_type r) []"

definition add_address :: "object_references \<Rightarrow> tree_node \<Rightarrow> tree_node" where
  "add_address r n = Tree_node (was_expanded n) (node_addresses n @ [or_addr r]) (node_type n) (node_children n)"

definition add_leaf :: "object_references \<Rightarrow> tree_node list \<Rightarrow> tree_node list" where
  "add_leaf = upsert node_type or_type new_leaf add_address"

text \<open>The loops over \<^verbatim>\<open>ref.parents\<close>: parents that were not reported are skipped.\<close>

definition add_parents :: "(u64, object_references) umap \<Rightarrow> object_references \<Rightarrow> tree_node \<Rightarrow> tree_node" where
  "add_parents refs r n =
     (case n of Tree_node e as t cs \<Rightarrow>
        Tree_node e as t (fold (\<lambda>p cs. case um_find refs p of None \<Rightarrow> cs | Some q \<Rightarrow> add_leaf q cs) (or_parents r) cs))"

text \<open>\<^verbatim>\<open>add_node\<close> at depth 0, for the roots: the referrers become children of the new or found node.\<close>

definition add_root :: "(u64, object_references) umap \<Rightarrow> object_references \<Rightarrow> tree_node list \<Rightarrow> tree_node list" where
  "add_root refs = upsert node_type or_type (\<lambda>r. add_parents refs r (new_leaf r)) (\<lambda>r n. add_parents refs r (add_address r n))"

definition tree_clear :: "references_tree \<Rightarrow> references_tree" where
  "tree_clear m = m\<lparr>m_tree_roots := []\<rparr>"

definition tree_update :: "u64 list \<Rightarrow> object_references list \<Rightarrow> references_tree \<Rightarrow> references_tree" where
  "tree_update addresses references m =
     (let refs = fold (\<lambda>r. um_insert (or_addr r) r) references (m_references m)
      in \<lparr>m_references = refs,
          m_tree_roots = fold (\<lambda>root rs. case um_find refs root of None \<Rightarrow> rs | Some r \<Rightarrow> add_root refs r rs) addresses []\<rparr>)"

text \<open>\<^verbatim>\<open>expand\<close>: every child that was not expanded itself gets the referrers of all its objects.\<close>

definition grow_child :: "(u64, object_references) umap \<Rightarrow> tree_node \<Rightarrow> tree_node" where
  "grow_child refs child =
     (if was_expanded child then child
      else fold (\<lambda>a n. case um_find refs a of None \<Rightarrow> n | Some r \<Rightarrow> add_parents refs r n) (node_addresses child) child)"

definition expand_node :: "(u64, object_references) umap \<Rightarrow> tree_node \<Rightarrow> tree_node" where
  "expand_node refs n =
     (if was_expanded n then n
      else Tree_node True (node_addresses n) (node_type n) (map (grow_child refs) (node_children n)))"

text \<open>The node a path leads to, and a change of it in place.\<close>

fun node_at :: "nat list \<Rightarrow> tree_node list \<Rightarrow> tree_node option" where
  "node_at [] ns = None"
| "node_at [i] ns = (if i < length ns then Some (ns ! i) else None)"
| "node_at (i # j # p) ns = (if i < length ns then node_at (j # p) (node_children (ns ! i)) else None)"

definition set_children :: "tree_node list \<Rightarrow> tree_node \<Rightarrow> tree_node" where
  "set_children cs n = Tree_node (was_expanded n) (node_addresses n) (node_type n) cs"

fun change_at :: "(tree_node \<Rightarrow> tree_node) \<Rightarrow> nat list \<Rightarrow> tree_node list \<Rightarrow> tree_node list" where
  "change_at f [] ns = ns"
| "change_at f [i] ns = (if i < length ns then ns[i := f (ns ! i)] else ns)"
| "change_at f (i # j # p) ns =
     (if i < length ns then ns[i := set_children (change_at f (j # p) (node_children (ns ! i))) (ns ! i)] else ns)"

definition tree_expand :: "nat list \<Rightarrow> references_tree \<Rightarrow> references_tree" where
  "tree_expand p m = m\<lparr>m_tree_roots := change_at (expand_node (m_references m)) p (m_tree_roots m)\<rparr>"

text \<open>The queries of the view. The invalid index is the empty path.\<close>

definition tree_children :: "nat list \<Rightarrow> references_tree \<Rightarrow> tree_node list" where
  "tree_children p m = (case node_at p (m_tree_roots m) of Some n \<Rightarrow> node_children n | None \<Rightarrow> m_tree_roots m)"

definition tree_index :: "int \<Rightarrow> nat list \<Rightarrow> references_tree \<Rightarrow> nat list" where
  "tree_index row p m =
     (if row < 0 \<or> row \<ge> int (length (tree_children p m)) then [] else p @ [nat row])"

text \<open>\<^verbatim>\<open>parent\<close> looks for the row of the parent by its type among the parent's siblings.\<close>

definition tree_parent :: "nat list \<Rightarrow> references_tree \<Rightarrow> nat list" where
  "tree_parent p m =
     (case node_at (butlast p) (m_tree_roots m) of
        None \<Rightarrow> []
      | Some n \<Rightarrow>
          (case find_index (\<lambda>x. node_type x = node_type n) (tree_children (butlast (butlast p)) m) of
             None \<Rightarrow> []
           | Some i \<Rightarrow> butlast (butlast p) @ [i]))"

definition tree_rowCount :: "nat list \<Rightarrow> references_tree \<Rightarrow> nat" where
  "tree_rowCount p m = length (tree_children p m)"

definition tree_data :: "nat list \<Rightarrow> qrole \<Rightarrow> references_tree \<Rightarrow> qvariant option" where
  "tree_data p role m =
     (case node_at p (m_tree_roots m) of
        None \<Rightarrow> None
      | Some n \<Rightarrow> Some (if role \<noteq> Display_role then Q_invalid
          else Q_string (c_str (node_type n @ chars '' ('' @ decimal (length (node_addresses n)) @ chars '')''))))"

definition tree_get_addresses :: "nat list \<Rightarrow> references_tree \<Rightarrow> u64 list option" where
  "tree_get_addresses p m = map_option node_addresses (node_at p (m_tree_roots m))"

section \<open>What a node should show\<close>

text \<open>The reported referrers of an object, and of a list of addresses.\<close>

definition reported_parents :: "(u64, object_references) umap \<Rightarrow> object_references \<Rightarrow> object_references list" where
  "reported_parents refs r = List.map_filter (um_find refs) (or_parents r)"

definition referrers :: "(u64, object_references) umap \<Rightarrow> u64 list \<Rightarrow> object_references list" where
  "referrers refs as = concat (map (reported_parents refs) (List.map_filter (um_find refs) as))"

definition leaf_summary :: "bytes \<Rightarrow> object_references list \<Rightarrow> tree_node" where
  "leaf_summary t rs = Tree_node False (map or_addr rs) t []"

definition leaves :: "object_references list \<Rightarrow> tree_node list" where
  "leaves rs = groups or_type leaf_summary rs"

definition label :: "tree_node \<Rightarrow> bytes \<times> u64 list" where
  "label n = (node_type n, node_addresses n)"

definition labels :: "object_references list \<Rightarrow> (bytes \<times> u64 list) list" where
  "labels rs = groups or_type (\<lambda>t qs. (t, map or_addr qs)) rs"

text \<open>A node whose parent is expanded (or that is a root) shows all referrers of its objects; any other
  node shows nothing yet.\<close>

fun node_ok :: "(u64, object_references) umap \<Rightarrow> bool \<Rightarrow> tree_node \<Rightarrow> bool" where
  "node_ok refs shown (Tree_node e as t cs) =
     (if shown then map label cs = labels (referrers refs as) \<and> (\<forall>c \<in> set cs. node_ok refs e c)
      else cs = [] \<and> \<not> e)"

fun visible :: "nat list \<Rightarrow> tree_node list \<Rightarrow> bool" where
  "visible [] ns = False"
| "visible [i] ns = (i < length ns)"
| "visible (i # j # p) ns = (i < length ns \<and> was_expanded (ns ! i) \<and> visible (j # p) (node_children (ns ! i)))"

interpretation leaf: grouping node_type or_type new_leaf add_address leaf_summary
  by unfold_locales (simp_all add: leaf_summary_def new_leaf_def add_address_def)

lemma map_label_leaves: "map label (leaves rs) = labels rs"
  by (simp add: leaves_def labels_def groups_def label_def leaf_summary_def comp_def)

lemma leaves_not_ready: "c \<in> set (leaves rs) \<Longrightarrow> node_ok refs False c"
  by (auto simp: leaves_def set_groups leaf_summary_def)

lemma add_leaf_leaves: "add_leaf r (leaves rs) = leaves (rs @ [r])"
  by (simp add: add_leaf_def leaves_def leaf.upsert_groups)

lemma fold_add_leaf:
  "fold (\<lambda>p cs. case um_find refs p of None \<Rightarrow> cs | Some q \<Rightarrow> add_leaf q cs) ps (leaves rs) =
     leaves (rs @ List.map_filter (um_find refs) ps)"
  by (induction ps arbitrary: rs) (auto simp: map_filter_simps add_leaf_leaves split: option.splits)

lemma add_parents_leaves:
  "add_parents refs r (Tree_node e as t (leaves rs)) = Tree_node e as t (leaves (rs @ reported_parents refs r))"
  by (simp add: add_parents_def fold_add_leaf reported_parents_def)

section \<open>The roots\<close>

definition root_summary :: "(u64, object_references) umap \<Rightarrow> bytes \<Rightarrow> object_references list \<Rightarrow> tree_node" where
  "root_summary refs t rs = Tree_node False (map or_addr rs) t (leaves (concat (map (reported_parents refs) rs)))"

lemma leaves_Nil: "leaves [] = []"
  by (simp add: leaves_def)

interpretation root: grouping node_type or_type "\<lambda>r. add_parents refs r (new_leaf r)"
    "\<lambda>r n. add_parents refs r (add_address r n)" "root_summary refs"
proof unfold_locales
  show "node_type (root_summary refs k xs) = k" for k xs by (simp add: root_summary_def)
  show "add_parents refs x (new_leaf x) = root_summary refs (or_type x) [x]" for x
    using add_parents_leaves [of refs x False "[or_addr x]" "or_type x" "[]"]
    by (simp add: root_summary_def new_leaf_def leaves_Nil)
  show "add_parents refs x (add_address x (root_summary refs (or_type x) xs)) = root_summary refs (or_type x) (xs @ [x])" for x xs
    by (simp add: root_summary_def add_address_def add_parents_leaves)
qed

lemma fold_add_root:
  "fold (\<lambda>a rs. case um_find refs a of None \<Rightarrow> rs | Some r \<Rightarrow> add_root refs r rs) as (groups or_type (root_summary refs) qs) =
     groups or_type (root_summary refs) (qs @ List.map_filter (um_find refs) as)"
  by (induction as arbitrary: qs)
    (auto simp: map_filter_simps add_root_def root.upsert_groups split: option.splits)

text \<open>Every entry of the table is stored under the address of its object.\<close>

definition keyed :: "(u64, object_references) umap \<Rightarrow> bool" where
  "keyed refs \<longleftrightarrow> (\<forall>a r. um_find refs a = Some r \<longrightarrow> or_addr r = a)"

lemma keyed_insert: "keyed refs \<Longrightarrow> keyed (um_insert (or_addr r) r refs)"
  by (auto simp: keyed_def um_find_insert)

lemma keyed_fold: "keyed refs \<Longrightarrow> keyed (fold (\<lambda>r. um_insert (or_addr r) r) rs refs)"
  by (induction rs arbitrary: refs) (auto intro: keyed_insert)

lemma referrers_found:
  assumes "keyed refs" "\<forall>r \<in> set rs. um_find refs (or_addr r) = Some r"
  shows "referrers refs (map or_addr rs) = concat (map (reported_parents refs) rs)"
  using assms(2) by (induction rs) (auto simp: referrers_def map_filter_simps)

lemma root_ok:
  assumes "keyed refs" "\<forall>r \<in> set rs. um_find refs (or_addr r) = Some r"
  shows "node_ok refs True (root_summary refs t rs)"
  using leaves_not_ready by (auto simp: root_summary_def map_label_leaves referrers_found [OF assms])

definition tree_ok :: "references_tree \<Rightarrow> bool" where
  "tree_ok m \<longleftrightarrow> keyed (m_references m) \<and> (\<forall>n \<in> set (m_tree_roots m). node_ok (m_references m) True n)"

lemma found_keyed:
  assumes "keyed refs" "r \<in> set (List.map_filter (um_find refs) as)"
  shows "um_find refs (or_addr r) = Some r"
proof -
  from assms(2) obtain a where "um_find refs a = Some r" by (auto simp: map_filter_def split: option.splits)
  with assms(1) show ?thesis by (simp add: keyed_def)
qed

lemma tree_update_ok:
  assumes "tree_ok m"
  shows "tree_ok (tree_update as rs m)"
proof -
  define refs where "refs = fold (\<lambda>r. um_insert (or_addr r) r) rs (m_references m)"
  have k: "keyed refs" using assms keyed_fold by (simp add: tree_ok_def refs_def)
  define qs where "qs = List.map_filter (um_find refs) as"
  have found: "um_find refs (or_addr r) = Some r" if "r \<in> set qs" for r
    using that unfolding qs_def by (rule found_keyed [OF k])
  have "node_ok refs True n" if "n \<in> set (groups or_type (root_summary refs) qs)" for n
  proof -
    from that obtain t where "n = root_summary refs t (filter (\<lambda>r. or_type r = t) qs)" by (auto simp: set_groups)
    then show ?thesis using root_ok [OF k] found by simp
  qed
  moreover have "tree_update as rs m = \<lparr>m_references = refs, m_tree_roots = groups or_type (root_summary refs) qs\<rparr>"
    using fold_add_root [where qs = "[]" and refs = refs and as = as] by (simp add: tree_update_def refs_def [symmetric] qs_def)
  ultimately show ?thesis using k by (simp add: tree_ok_def)
qed

section \<open>Expanding\<close>

lemma label_add_parents [simp]: "label (add_parents refs r n) = label n"
  by (cases n) (simp add: add_parents_def label_def)

lemma was_expanded_add_parents [simp]: "was_expanded (add_parents refs r n) = was_expanded n"
  by (cases n) (simp add: add_parents_def)

lemma label_grow: "label (grow_child refs n) = label n"
proof -
  have "label (fold (\<lambda>a n. case um_find refs a of None \<Rightarrow> n | Some r \<Rightarrow> add_parents refs r n) as m) = label m" for as m
    by (induction as arbitrary: m) (auto split: option.splits)
  then show ?thesis by (simp add: grow_child_def)
qed

lemma fold_grow:
  "fold (\<lambda>a n. case um_find refs a of None \<Rightarrow> n | Some r \<Rightarrow> add_parents refs r n) as (Tree_node e bs t (leaves rs)) =
     Tree_node e bs t (leaves (rs @ referrers refs as))"
  by (induction as arbitrary: rs)
    (auto simp: referrers_def map_filter_simps add_parents_leaves split: option.splits)

lemma grow_child_ok:
  assumes "node_ok refs False n"
  shows "node_ok refs True (grow_child refs n)"
proof -
  obtain as t where n: "n = Tree_node False as t []" using assms by (cases n) auto
  show ?thesis using fold_grow [where rs = "[]" and refs = refs and as = as and bs = as and e = False and t = t] leaves_not_ready
    by (auto simp: n grow_child_def leaves_Nil map_label_leaves)
qed

lemma label_expand: "label (expand_node refs n) = label n"
  by (simp add: expand_node_def label_def)

lemma expand_node_ok: "node_ok refs True n \<Longrightarrow> node_ok refs True (expand_node refs n)"
  by (cases n) (auto simp: expand_node_def label_grow comp_def grow_child_ok)

lemma map_label_change: "(\<And>n. label (f n) = label n) \<Longrightarrow> map label (change_at f p ns) = map label ns"
  by (induction f p ns rule: change_at.induct)
    (simp_all add: map_update list_update_same_conv, simp add: set_children_def label_def list_update_same_conv map_update)

lemma change_at_ok:
  assumes "\<And>n. label (f n) = label n" "\<And>n. node_ok refs True n \<Longrightarrow> node_ok refs True (f n)"
  shows "\<forall>n \<in> set ns. node_ok refs True n \<Longrightarrow> visible p ns \<Longrightarrow> \<forall>n \<in> set (change_at f p ns). node_ok refs True n"
proof (induction p ns rule: visible.induct)
  case (2 i ns)
  then show ?case using assms(2) by (auto dest: set_update_subset_insert [THEN subsetD])
next
  case (3 i j p ns)
  let ?n = "ns ! i" and ?c = "set_children (change_at f (j # p) (node_children (ns ! i))) (ns ! i)"
  have i: "i < length ns" "was_expanded ?n" "visible (j # p) (node_children ?n)" using 3 by simp_all
  then have n: "node_ok refs True ?n" using 3 by simp
  then have "\<forall>c \<in> set (node_children ?n). node_ok refs True c" using i(2) by (cases ?n) auto
  then have "\<forall>c \<in> set (change_at f (j # p) (node_children ?n)). node_ok refs True c" using 3 i by simp
  moreover have "map label (change_at f (j # p) (node_children ?n)) = map label (node_children ?n)"
    by (rule map_label_change [OF assms(1)])
  ultimately have "node_ok refs True ?c" using n i(2) by (cases ?n) (simp add: set_children_def)
  then show ?case using 3 i(1) by (auto dest: set_update_subset_insert [THEN subsetD])
qed simp

lemma tree_expand_ok:
  assumes "tree_ok m" "visible p (m_tree_roots m)"
  shows "tree_ok (tree_expand p m)"
proof -
  have "\<forall>n \<in> set (m_tree_roots m). node_ok (m_references m) True n" using assms(1) by (simp add: tree_ok_def)
  from change_at_ok [OF label_expand expand_node_ok this assms(2)] show ?thesis
    using assms(1) by (simp add: tree_ok_def tree_expand_def)
qed

lemma visible_ok: "\<forall>n \<in> set ns. node_ok refs True n \<Longrightarrow> visible p ns \<Longrightarrow> \<exists>n. node_at p ns = Some n \<and> node_ok refs True n"
proof (induction p ns rule: visible.induct)
  case (3 i j p ns)
  then have "\<forall>c \<in> set (node_children (ns ! i)). node_ok refs True c" by (cases "ns ! i") (auto dest!: nth_mem [of i ns])
  with 3 show ?case by simp
qed simp_all

section \<open>The view as a machine\<close>

text \<open>A new answer arrives, or the user expands a node that can be seen.\<close>

inductive view_step :: "references_tree \<Rightarrow> references_tree \<Rightarrow> bool" where
  View_update: "view_step m (tree_update as rs m)"
| View_expand: "visible p (m_tree_roots m) \<Longrightarrow> view_step m (tree_expand p m)"

inductive_cases view_stepE: "view_step m m'"

interpretation view: invariant_machine "\<lambda>m. m = empty_tree" view_step tree_ok
  by unfold_locales (simp add: tree_ok_def empty_tree_def keyed_def, auto elim!: view_stepE intro: tree_update_ok tree_expand_ok)

text \<open>
  C17. However answers arrive and nodes are expanded, every node that can be seen shows as its
  children exactly the reported referrers of its objects, one child per type with all the addresses.
\<close>

theorem references_tree_exact:
  assumes "steps view_step empty_tree m" "visible p (m_tree_roots m)"
  shows "\<exists>n. node_at p (m_tree_roots m) = Some n \<and>
    map label (node_children n) = labels (referrers (m_references m) (node_addresses n))"
proof -
  have "tree_ok m" using view.reachable_inv assms(1) by blast
  then obtain n where "node_at p (m_tree_roots m) = Some n" "node_ok (m_references m) True n"
    using visible_ok assms(2) unfolding tree_ok_def by blast
  then show ?thesis by (cases n) auto
qed

text \<open>
  Answers are never forgotten: an object that an earlier request has reported keeps its old
  referrers, whatever a later answer says of it.
\<close>

theorem references_tree_stale:
  assumes "um_find (m_references m) a = Some r"
  shows "um_find (m_references (tree_update as rs m)) a = Some r"
proof -
  have "um_find (fold (\<lambda>r. um_insert (or_addr r) r) rs refs) a = Some r" if "um_find refs a = Some r" for refs
    using that by (induction rs arbitrary: refs) (simp_all add: um.lookup_ins_stable)
  with assms show ?thesis by (simp add: tree_update_def Let_def)
qed

section \<open>A concrete tree\<close>

text \<open>Object 1 is referred to by 4 and 5, object 4 by 7; 4 and 5 have the same type.\<close>

definition example_refs :: "object_references list" where
  "example_refs = [\<lparr>or_addr = 1, or_type = [65], or_parents = [4, 5]\<rparr>, \<lparr>or_addr = 4, or_type = [66], or_parents = [7]\<rparr>,
     \<lparr>or_addr = 5, or_type = [66], or_parents = []\<rparr>, \<lparr>or_addr = 7, or_type = [67], or_parents = []\<rparr>]"

lemma example_tree:
  "m_tree_roots (tree_expand [0] (tree_update [1] example_refs empty_tree)) =
     [Tree_node True [1] [65] [Tree_node False [4, 5] [66] [Tree_node False [7] [67] []]]]"
  by code_simp

theorem references_tree_exact_witness:
  "\<exists>m n. steps view_step empty_tree m \<and> node_at [0, 0] (m_tree_roots m) = Some n \<and>
     map label (node_children n) = labels (referrers (m_references m) (node_addresses n)) \<and> node_addresses n = [4, 5]"
proof -
  let ?start = "tree_update [1] example_refs empty_tree"
  let ?m = "tree_expand [0] ?start"
  have "visible [0] (m_tree_roots ?start)" by code_simp
  then have "view_step ?start ?m" by (rule View_expand)
  then have run: "steps view_step empty_tree ?m"
    by (rule steps_more [where step = view_step, OF steps_one [where step = view_step, OF View_update]])
  have v: "visible [0, 0] (m_tree_roots ?m)"
    and at: "node_at [0, 0] (m_tree_roots ?m) = Some (Tree_node False [4, 5] [66] [Tree_node False [7] [67] []])"
    unfolding example_tree by simp_all
  from references_tree_exact [OF run v] obtain n where n: "node_at [0, 0] (m_tree_roots ?m) = Some n"
    "map label (node_children n) = labels (referrers (m_references ?m) (node_addresses n))" by blast
  moreover have "node_addresses n = [4, 5]" using n(1) at by simp
  ultimately show ?thesis using run by blast
qed

theorem references_tree_stale_witness:
  "um_find (m_references (tree_update [1] [\<lparr>or_addr = 1, or_type = [65], or_parents = []\<rparr>]
      (tree_update [1] example_refs empty_tree))) 1 = Some \<lparr>or_addr = 1, or_type = [65], or_parents = [4, 5]\<rparr>"
  by (rule references_tree_stale) code_simp

end
