(* ===== verification/Main_Window.thy ===== *)
theory Main_Window
  imports Graphs References_Tree
begin

text \<open>
  The main window of the user interface (\<^verbatim>\<open>ui/src/main_window.cpp\<close>) with its two dialogs: which
  files exist and which of them hold the session, what a session start, an opened trace, a
  selection and an answer change in the data behind the views. The answers of the user and the
  outcomes of the file system and the network are arguments; widgets, menus and drawing are left out.
\<close>

section \<open>Recently used settings\<close>

text \<open>\<^verbatim>\<open>QSettings\<close> keeps named arrays of entries; an array that was never written is empty.\<close>

type_synonym 'e settings = "bytes \<Rightarrow> 'e list"

record run_entry =
  re_path :: bytes
  re_args :: bytes
  re_port :: bytes
  re_mode :: bytes
  re_time :: int

record connect_entry =
  ce_ip :: bytes
  ce_port :: bytes
  ce_time :: int

text \<open>\<^verbatim>\<open>MAX_PREV_RUN_SETTINGS\<close> and \<^verbatim>\<open>MAX_PREV_CONNECT_SETTINGS\<close>.\<close>

definition max_prev_settings :: nat where
  "max_prev_settings = 10"

definition trim_run_settings :: "run_entry list \<Rightarrow> run_entry list" where
  "trim_run_settings es = take max_prev_settings (sort_by (descending re_time) es)"

definition trim_connect_settings :: "connect_entry list \<Rightarrow> connect_entry list" where
  "trim_connect_settings es = take max_prev_settings (sort_by (descending ce_time) es)"

text \<open>The constructors of the dialogs: the remembered entries.\<close>

definition new_run_dialog :: "run_entry settings \<Rightarrow> run_entry list" where
  "new_run_dialog s = trim_run_settings (s (chars ''run/applications''))"

definition new_connect_dialog :: "connect_entry settings \<Rightarrow> connect_entry list \<times> bytes list" where
  "new_connect_dialog s =
     (let read = s (chars ''connect/ips''); es = trim_connect_settings read
      in (es, map ce_ip es @ (if chars ''127.0.0.1'' \<in> set (map ce_ip read) then [] else [chars ''127.0.0.1''])))"

datatype dialog_outcome = Accepted | Rejected | Still_open

text \<open>\<^verbatim>\<open>accept\<close>: \<open>ok_pressed\<close> is the answer to the error box, which closes the dialog; \<open>runs\<close> tells that the
  file exists and is executable, \<open>port_number\<close> is the value of the port text.\<close>

definition run_accept :: "bool \<Rightarrow> bool \<Rightarrow> nat \<Rightarrow> bytes \<Rightarrow> bytes \<Rightarrow> bytes \<Rightarrow> bool \<Rightarrow> int \<Rightarrow>
    run_entry list \<Rightarrow> run_entry settings \<Rightarrow> dialog_outcome \<times> run_entry list \<times> run_entry settings" where
  "run_accept ok_pressed runs port_number path args port mono_mode now es s =
     (if \<not> runs \<or> port_number = 0 then (if ok_pressed then Rejected else Still_open, es, s)
      else
        let mode = (if mono_mode then chars ''mono'' else chars ''il2cpp'');
            es1 = (case find_index (\<lambda>e. re_path e = path) es of
                Some i \<Rightarrow> es[i := (es ! i)\<lparr>re_time := now, re_args := args, re_port := port, re_mode := mode\<rparr>]
              | None \<Rightarrow> es @ [\<lparr>re_path = path, re_args = args, re_port = port, re_mode = mode, re_time = now\<rparr>]);
            es2 = trim_run_settings es1
        in (Accepted, es2, s(chars ''run/applications'' := es2)))"

definition connect_accept :: "bool \<Rightarrow> nat \<Rightarrow> bytes \<Rightarrow> bytes \<Rightarrow> int \<Rightarrow> connect_entry list \<Rightarrow>
    connect_entry settings \<Rightarrow> dialog_outcome \<times> connect_entry list \<times> connect_entry settings" where
  "connect_accept ok_pressed port_number ip port now es s =
     (if ip = [] \<or> port_number = 0 then (if ok_pressed then Rejected else Still_open, es, s)
      else
        let es1 = (case find_index (\<lambda>e. ce_ip e = ip) es of
                Some i \<Rightarrow> es[i := (es ! i)\<lparr>ce_time := now\<rparr>]
              | None \<Rightarrow> es @ [\<lparr>ce_ip = ip, ce_port = port, ce_time = now\<rparr>]);
            es2 = trim_connect_settings es1
        in (Accepted, es2, s(chars ''run/connect'' := es2)))"

text \<open>Choosing a remembered entry fills the other fields.\<close>

definition on_path_selected :: "bytes \<Rightarrow> run_entry list \<Rightarrow> (bytes \<times> bytes \<times> bool) option" where
  "on_path_selected path es =
     (if path = [] then None
      else map_option (\<lambda>e. (re_args e, re_port e, re_mode e \<noteq> chars ''il2cpp'')) (find (\<lambda>e. re_path e = path) es))"

definition on_ip_selected :: "bytes \<Rightarrow> connect_entry list \<Rightarrow> bytes option" where
  "on_ip_selected ip es = (if ip = [] then None else map_option ce_port (find (\<lambda>e. ce_ip e = ip) es))"

section \<open>The window\<close>

text \<open>\<open>w_files\<close> are the names of the files that exist; \<open>w_inited\<close> tells that the models of the views have
  their pointer to the client.\<close>

record window =
  w_client :: client
  w_graphs :: graphs
  w_db_file :: bytes
  w_temporary :: bool
  w_files :: "bytes set"
  w_inited :: bool
  w_pos :: u32
  w_zoom :: rat
  w_timer :: bool
  w_types :: "type_data list"
  w_by_type :: by_type_model
  w_stacks :: stacks_model
  w_tree :: references_tree
  w_search :: "search_type list"
  w_search_types :: search_types_model
  w_search_stacks :: search_stacks_model

datatype answer = Yes | No | Cancel

definition on_save_data :: "bytes \<Rightarrow> bool \<Rightarrow> window \<Rightarrow> window" where
  "on_save_data file_name copied w =
     (if file_name = [] then w
      else case save_db copied (w_client w) of
             (ok, c) \<Rightarrow>
               let w1 = w\<lparr>w_client := c, w_files := (if copied \<and> is_data_open (w_client w)
                              then insert file_name (w_files w) else w_files w)\<rparr>
               in if ok then w1\<lparr>w_db_file := file_name, w_temporary := False\<rparr> else w1)"

definition try_save_unsaved_data :: "answer \<Rightarrow> bytes \<Rightarrow> bool \<Rightarrow> window \<Rightarrow> bool \<times> window" where
  "try_save_unsaved_data res file_name copied w =
     (if \<not> w_temporary w \<or> \<not> is_data_open (w_client w) then (True, w)
      else case res of
             Yes \<Rightarrow> (True, on_save_data file_name copied w)
           | No \<Rightarrow> (True, w)
           | Cancel \<Rightarrow> (False, w))"

text \<open>\<open>frames_shown\<close> is what the width of the graph divided by a zoom gives. The lower bound of the
  zoom is the \<^verbatim>\<open>float\<close> 0.02.\<close>

definition min_zoom :: rat where
  "min_zoom = 5368709 / 268435456"

definition clamp_zoom :: "rat \<Rightarrow> rat" where
  "clamp_zoom z = (if z \<le> min_zoom then min_zoom else if z > 10 then 10 else z)"

definition truncate_int :: "rat \<Rightarrow> u32" where
  "truncate_int x = word_of_int (if x < 0 then \<lceil>x\<rceil> else \<lfloor>x\<rfloor>)"

definition set_zoom :: "(rat \<Rightarrow> rat) \<Rightarrow> rat \<Rightarrow> window \<Rightarrow> window" where
  "set_zoom frames_shown new_zoom w =
     (let z = clamp_zoom new_zoom; pos2 = truncate_int (of_int (sint (w_pos w)) + frames_shown z)
      in w\<lparr>w_zoom := z, w_graphs := update_region (w_client w) (w_pos w) pos2 (w_graphs w)\<rparr>)"

definition on_allocations_scrolled :: "(rat \<Rightarrow> rat) \<Rightarrow> u32 \<Rightarrow> window \<Rightarrow> window" where
  "on_allocations_scrolled frames_shown value w = set_zoom frames_shown (w_zoom w) (w\<lparr>w_pos := value\<rparr>)"

text \<open>\<open>None\<close> is a failed assertion in \<^verbatim>\<open>close_db\<close>.\<close>

definition reset_graphs :: "window \<Rightarrow> window" where
  "reset_graphs w = w\<lparr>w_graphs := update_boundaries (w_client w) (graphs_clear (w_graphs w))\<rparr>"

definition on_open_data :: "(rat \<Rightarrow> rat) \<Rightarrow> answer \<Rightarrow> bytes \<Rightarrow> bool \<Rightarrow> bytes \<Rightarrow> database option \<Rightarrow> window \<Rightarrow> window option" where
  "on_open_data frames_shown res save_name copied file_name file w =
     (case try_save_unsaved_data res save_name copied w of
        (False, w1) \<Rightarrow> Some w1
      | (True, w1) \<Rightarrow>
          (case close_db (w_client w1) of
             None \<Rightarrow> None
           | Some c \<Rightarrow>
               if file_name = [] then Some (w1\<lparr>w_client := c\<rparr>)
               else (case open_data file c of
                  (False, c1) \<Rightarrow> Some (w1\<lparr>w_client := c1\<rparr>)
                | (True, c1) \<Rightarrow> Some (set_zoom frames_shown 1
                    ((reset_graphs (w1\<lparr>w_client := c1, w_temporary := False\<rparr>))\<lparr>w_inited := True\<rparr>)))))"

definition remove_file :: "bytes \<Rightarrow> window \<Rightarrow> window" where
  "remove_file f w = w\<lparr>w_files := w_files w - {f}\<rparr>"

text \<open>\<^verbatim>\<open>onStartProfiling\<close>: \<open>tmp\<close> is the name \<^verbatim>\<open>std::tmpnam\<close> returns; starting removes an existing file of that
  name and creates it when the database can be opened.\<close>

definition on_start_profiling :: "(rat \<Rightarrow> rat) \<Rightarrow> answer \<Rightarrow> bytes \<Rightarrow> bool \<Rightarrow> bool \<Rightarrow> bytes \<Rightarrow>
    asio_error option \<Rightarrow> database option \<Rightarrow> window \<Rightarrow> window option" where
  "on_start_profiling frames_shown res save_name copied dlg_ok tmp ec file w =
     (case try_save_unsaved_data res save_name copied w of
        (False, w1) \<Rightarrow> Some w1
      | (True, w1) \<Rightarrow>
          if \<not> dlg_ok then Some w1
          else
            let w2 = reset_graphs w1
            in (case close_db (w_client w2) of
                  None \<Rightarrow> None
                | Some c \<Rightarrow>
                    let w3 = w2\<lparr>w_client := c\<rparr>;
                        w4 = (if w_db_file w3 \<noteq> [] \<and> w_db_file w3 \<in> w_files w3 then remove_file (w_db_file w3) w3 else w3);
                        w5 = w4\<lparr>w_db_file := tmp\<rparr>;
                        (ok, c1) = client_start ec file c;
                        w6 = w5\<lparr>w_client := c1, w_files :=
                          (if fst (net_connect ec (c_network c)) then (if file \<noteq> None then insert tmp else id) (w_files w5 - {tmp})
                           else w_files w5)\<rparr>
                    in if \<not> ok then Some w6
                       else Some ((set_zoom frames_shown 1 (w6\<lparr>w_temporary := True, w_inited := True\<rparr>))\<lparr>w_timer := True\<rparr>)))"

text \<open>\<^verbatim>\<open>onRunUnityApp\<close>: the database has no name and lives in memory and a file that SQLite owns.\<close>

definition on_run_unity_app :: "(rat \<Rightarrow> rat) \<Rightarrow> answer \<Rightarrow> bytes \<Rightarrow> bool \<Rightarrow> bool \<Rightarrow> (client \<Rightarrow> launch_result \<times> client) \<Rightarrow>
    window \<Rightarrow> window option" where
  "on_run_unity_app frames_shown res save_name copied dlg_ok launch w =
     (case try_save_unsaved_data res save_name copied w of
        (False, w1) \<Rightarrow> Some w1
      | (True, w1) \<Rightarrow>
          if \<not> dlg_ok then Some w1
          else
            let w2 = reset_graphs w1
            in (case close_db (w_client w2) of
                  None \<Rightarrow> None
                | Some c \<Rightarrow>
                    let w3 = w2\<lparr>w_client := c, w_db_file := []\<rparr>;
                        (result, c1) = launch c;
                        w4 = w3\<lparr>w_client := c1\<rparr>
                    in if result \<noteq> Launch_OK then Some w4
                       else Some ((set_zoom frames_shown 1 (w4\<lparr>w_temporary := True, w_inited := True\<rparr>))\<lparr>w_timer := True\<rparr>)))"

text \<open>The error box of a failed launch.\<close>

fun launch_error :: "launch_result \<Rightarrow> bytes" where
  "launch_error Launch_OK = chars ''Unknown error''"
| "launch_error DETOUR_CREATE_WITH_DLL_FAILED = chars ''Failed to launch target executable with profiler DLL. Profiler DLL is missing or the executable is protected somehow. mono_profiler_server.dll should be placed in the same folder where mono_profiler_ui.exe resided''"
| "launch_error DETOUR_PIPE_TIMEOUT = chars ''Failed to establish named pipe connection to profiler''"
| "launch_error DETOUR_PIPE_FAILED = chars ''Pipe failed to enter message mode''"
| "launch_error DETOUR_PIPE_READ_FAILED = chars ''Failed to read error code from named pipe''"
| "launch_error PDB_NOT_FOUND = chars ''Unable to find necessary symbols. Probably PDB file is missing. Place PDB file for UnityPlayer.dll into the same folder where the target executable file resides''"
| "launch_error DETOUR_FAILED = chars ''Failed to detour target executable''"
| "launch_error BAD_VERSION = chars ''Failed to find necessary symbols. It is possible that the target application uses unsupported Unity version''"
| "launch_error DETOUR_FAILED_LATE = chars ''Failed to detour target executable in player_init_engine_graphics_detour. This shouldn't really happen''"
| "launch_error CONNECT_FAILED = chars ''Failed to connect to profiler server. Prossibly app failed to start in time''"

definition on_stop_profiling :: "u64 \<Rightarrow> window \<Rightarrow> window option" where
  "on_stop_profiling junk w = map_option (\<lambda>c. w\<lparr>w_timer := False, w_client := c\<rparr>) (client_stop junk (w_client w))"

text \<open>The constructor; \<open>test\<close> is what a file \<^verbatim>\<open>test.fr\<close> in the working directory holds, if there is one.\<close>

definition new_window :: "graphs \<Rightarrow> (u64 list \<times> object_references list) option \<Rightarrow> bytes set \<Rightarrow> window" where
  "new_window g test files =
     \<lparr>w_client = new_client, w_graphs = graphs_init new_client g, w_db_file = [], w_temporary = False, w_files = files,
      w_inited = False, w_pos = 0, w_zoom = 1, w_timer = False, w_types = [],
      w_by_type = \<lparr>bt_rows = [], bt_total_size = 0\<rparr>, w_stacks = \<lparr>sm_rows = []\<rparr>,
      w_tree = (case test of None \<Rightarrow> empty_tree | Some (addresses, refs) \<Rightarrow> tree_update addresses refs empty_tree),
      w_search = [], w_search_types = \<lparr>xt_rows = []\<rparr>, w_search_stacks = \<lparr>xs_rows = []\<rparr>\<rparr>"

text \<open>The timer: \<open>auto_pos\<close> is the scroll position that shows the last frame at the right edge, computed
  from the width of the canvas; \<open>moved\<close> tells that the scroll bar was elsewhere, so that it
  signals the change.\<close>

definition timer_event :: "(rat \<Rightarrow> rat) \<Rightarrow> u32 \<Rightarrow> bool \<Rightarrow> u64 \<Rightarrow> window \<Rightarrow> window option" where
  "timer_event frames_shown auto_pos moved junk w =
     (if \<not> is_connected (c_network (w_client w)) \<and> \<not> is_connecting (c_network (w_client w))
      then on_stop_profiling junk w
      else
        let can_see_edge = g_last (w_graphs w) \<ge> g_max_frame (w_graphs w);
            g = update_boundaries (w_client w) (w_graphs w);
            w1 = w\<lparr>w_graphs := g\<rparr>
        in Some (if can_see_edge \<and> g_last g < g_max_frame g
                 then (if moved then on_allocations_scrolled frames_shown auto_pos w1 else w1\<lparr>w_pos := auto_pos\<rparr>)
                 else if g_last g \<ge> g_max_frame g \<or> g_last g = 0
                 then w1\<lparr>w_graphs := update_region (w_client w1) (g_first_visible g) (g_last_visible g) g\<rparr>
                 else w1))"

definition on_close_event :: "answer \<Rightarrow> bytes \<Rightarrow> bool \<Rightarrow> window \<Rightarrow> bool \<times> window" where
  "on_close_event res save_name copied w = try_save_unsaved_data res save_name copied w"

text \<open>The destructor; what is left is the client and the files.\<close>

definition window_destroy :: "u64 \<Rightarrow> window \<Rightarrow> window option" where
  "window_destroy junk w =
     (case client_stop junk (w_client w) of
        None \<Rightarrow> None
      | Some c \<Rightarrow>
          (case close_db c of
             None \<Rightarrow> None
           | Some c1 \<Rightarrow>
               let w1 = w\<lparr>w_client := c1\<rparr> in Some (if w_temporary w1 then remove_file (w_db_file w1) w1 else w1)))"

section \<open>Selections and answers\<close>

text \<open>The pointer of the models to the client data, null before the first session.\<close>

definition view_data :: "window \<Rightarrow> client option" where
  "view_data w = (if w_inited w then Some (w_client w) else None)"

definition calculate_live_objects :: "(nat \<Rightarrow> bool) \<Rightarrow> u32 \<Rightarrow> u32 \<Rightarrow> window \<Rightarrow> window" where
  "calculate_live_objects progress from_frame to_frame w =
     (let types = live_objects_update (view_data w) progress (scast from_frame) (scast to_frame) (w_types w);
          m = by_type_update (w_client w) (if w_inited w then Some types else None) (w_by_type w)
      in w\<lparr>w_types := types, w_by_type := by_type_sort (w_client w) 2 False m, w_stacks := stacks_clear (w_stacks w)\<rparr>)"

text \<open>The frames of a selection from \<open>left\<close> to \<open>right\<close> on the axis, snapped to collections if asked.\<close>

definition picked_frames :: "bool \<Rightarrow> rat \<Rightarrow> rat \<Rightarrow> graphs \<Rightarrow> (u32 \<times> u32) option" where
  "picked_frames snap left right g =
     (if snap
      then (case (get_closest_gc_frame (word_of_int \<lfloor>left\<rfloor>) g, get_closest_gc_frame (word_of_int \<lceil>right\<rceil>) g) of
              (Some x1, Some x2) \<Rightarrow> Some (ucast x1, ucast (x2 + 1) - 1)
            | _ \<Rightarrow> None)
      else Some (word_of_int \<lfloor>left\<rfloor>, word_of_int (\<lceil>right\<rceil> - 1)))"

definition on_picker_changed :: "(nat \<Rightarrow> bool) \<Rightarrow> bool \<Rightarrow> rat \<Rightarrow> rat \<Rightarrow> window \<Rightarrow> window option" where
  "on_picker_changed progress snap left right w =
     map_option (\<lambda>(a, b). calculate_live_objects progress a b w) (picked_frames snap left right (w_graphs w))"

text \<open>\<^verbatim>\<open>findObjectsReferences\<close> sends the request; its callback hands the answer to the tree.\<close>

definition window_find_references :: "bytes \<Rightarrow> u64 list \<Rightarrow> window \<Rightarrow> window option" where
  "window_find_references padding addresses w =
     map_option (\<lambda>c. w\<lparr>w_client := c\<rparr>) (find_objects_references padding addresses (w_client w))"

definition on_references_found :: "u64 list \<Rightarrow> object_references list \<Rightarrow> window \<Rightarrow> window" where
  "on_references_found addresses result w = w\<lparr>w_tree := tree_update addresses result (w_tree w)\<rparr>"

definition on_callstack_menu_action :: "bytes \<Rightarrow> int \<Rightarrow> int \<Rightarrow> window \<Rightarrow> window option" where
  "on_callstack_menu_action padding row col w =
     (case stacks_get_addresses (w_stacks w) row col of
        None \<Rightarrow> Some w
      | Some addresses \<Rightarrow> window_find_references padding addresses w)"

definition on_references_menu_action :: "nat list \<Rightarrow> window \<Rightarrow> window" where
  "on_references_menu_action p w =
     (case tree_get_addresses p (w_tree w) of
        None \<Rightarrow> w
      | Some addresses \<Rightarrow>
          let types = search_address_list (view_data w) addresses (w_search w)
          in w\<lparr>w_search := types,
               w_search_types := search_types_update (w_client w) (if w_inited w then Some types else None) (w_search_types w),
               w_search_stacks := search_stacks_clear (w_search_stacks w)\<rparr>)"

definition on_reference_expanded :: "nat list \<Rightarrow> window \<Rightarrow> window" where
  "on_reference_expanded p w = w\<lparr>w_tree := tree_expand p (w_tree w)\<rparr>"

definition on_pause_app :: "bytes \<Rightarrow> bool \<Rightarrow> window \<Rightarrow> window option" where
  "on_pause_app padding pause w =
     map_option (\<lambda>c. w\<lparr>w_client := c\<rparr>)
       (if pause then client_pause_app padding (w_client w) else client_resume_app padding (w_client w))"

text \<open>\<^verbatim>\<open>toInt\<close> of a cell, converted back to \<^verbatim>\<open>uint64_t\<close>: the identifier goes through an \<^verbatim>\<open>int\<close>. The row is
  that of the table behind the filter.\<close>

definition cell_to_int :: "qvariant \<Rightarrow> u64" where
  "cell_to_int v = (case v of Q_ulonglong t \<Rightarrow> scast (ucast t :: u32) | _ \<Rightarrow> 0)"

definition on_live_object_type_selected :: "qt_text \<Rightarrow> int option \<Rightarrow> window \<Rightarrow> window" where
  "on_live_object_type_selected qt current w =
     (case current of
        None \<Rightarrow> w
      | Some row \<Rightarrow>
          let type_id = cell_to_int (by_type_data qt (w_client w) (w_by_type w) row 0 (User_role 0))
          in w\<lparr>w_stacks := stacks_sort (w_client w) 2 False (stacks_update (w_client w) (w_types w) type_id (w_stacks w))\<rparr>)"

definition on_search_type_selected :: "int option \<Rightarrow> window \<Rightarrow> window" where
  "on_search_type_selected current w =
     (case current of
        None \<Rightarrow> w
      | Some row \<Rightarrow>
          let type_id = cell_to_int (search_types_data (w_client w) (w_search_types w) row 0 (User_role 0))
          in w\<lparr>w_search_stacks := search_stacks_sort (w_client w) 2 False
               (search_stacks_update (w_client w) (w_search w) type_id (w_search_stacks w))\<rparr>)"

text \<open>The label under the table of types: the selected rows are rows of the filtered view, but their
  numbers are looked up in the unfiltered table.\<close>

definition selected_size :: "qt_text \<Rightarrow> client \<Rightarrow> nat list \<Rightarrow> by_type_model \<Rightarrow> u64" where
  "selected_size qt c view_rows m =
     sum_list (map (\<lambda>i. case by_type_data qt c m (int i) 0 (User_role 1) of Q_ulonglong z \<Rightarrow> z | _ \<Rightarrow> 0) view_rows)"

section \<open>What happens to a saved trace\<close>

lemma save_db_True: "save_db copied c = (True, c') \<Longrightarrow> copied \<and> is_data_open c"
  by (auto simp: save_db_def is_data_open_def split: option.splits if_splits)

lemma saved_state:
  assumes "save_db copied (w_client w) = (True, c)" "f \<noteq> []"
  shows "on_save_data f copied w =
    w\<lparr>w_client := c, w_files := insert f (w_files w), w_db_file := f, w_temporary := False\<rparr>"
  using assms save_db_True [OF assms(1)] by (simp add: on_save_data_def)

text \<open>A trace is safe as long as it is not the file that the window regards as temporary.\<close>

definition trace_safe :: "bytes \<Rightarrow> window \<Rightarrow> bool" where
  "trace_safe f w \<longleftrightarrow> f \<noteq> [] \<and> f \<in> w_files w \<and> \<not> (w_temporary w \<and> w_db_file w = f)"

lemma safe_set_zoom [simp]: "trace_safe f (set_zoom frames_shown z w) = trace_safe f w"
  by (simp add: trace_safe_def set_zoom_def Let_def)

lemma safe_fields [simp]:
  "trace_safe f (w\<lparr>w_client := c\<rparr>) = trace_safe f w"
  "trace_safe f (w\<lparr>w_timer := t\<rparr>) = trace_safe f w"
  "trace_safe f (w\<lparr>w_inited := t\<rparr>) = trace_safe f w"
  "trace_safe f (reset_graphs w) = trace_safe f w"
  by (simp_all add: trace_safe_def reset_graphs_def)

lemma safe_save: "trace_safe f w \<Longrightarrow> trace_safe f (on_save_data g copied w)"
  by (auto simp: trace_safe_def on_save_data_def Let_def split: prod.splits)

lemma safe_try_save: "trace_safe f w \<Longrightarrow> try_save_unsaved_data res g copied w = (b, w') \<Longrightarrow> trace_safe f w'"
  by (auto simp: try_save_unsaved_data_def safe_save split: if_splits answer.splits)

lemma safe_not_temporary: "trace_safe f w \<Longrightarrow> trace_safe f (w\<lparr>w_temporary := False\<rparr>)"
  by (simp add: trace_safe_def)

lemma safe_no_name: "trace_safe f w \<Longrightarrow> trace_safe f (w\<lparr>w_db_file := []\<rparr>)"
  by (auto simp: trace_safe_def)

lemma safe_open:
  assumes "on_open_data frames_shown res save_name copied file_name file w = Some w'" "trace_safe f w"
  shows "trace_safe f w'"
  using assms safe_try_save [OF assms(2)]
  by (auto simp: on_open_data_def safe_not_temporary split: prod.splits bool.splits option.splits if_splits)

lemma safe_temporary: "w_db_file w = [] \<Longrightarrow> trace_safe f w \<Longrightarrow> trace_safe f (w\<lparr>w_temporary := True\<rparr>)"
  by (auto simp: trace_safe_def)

lemma safe_run:
  assumes "on_run_unity_app frames_shown res save_name copied dlg_ok launch w = Some w'" "trace_safe f w"
  shows "trace_safe f w'"
  using assms safe_try_save [OF assms(2)]
  by (auto simp: on_run_unity_app_def Let_def safe_temporary safe_no_name split: prod.splits bool.splits option.splits if_splits)

lemma safe_stop: "on_stop_profiling junk w = Some w' \<Longrightarrow> trace_safe f w \<Longrightarrow> trace_safe f w'"
  by (auto simp: on_stop_profiling_def)

lemma safe_destroy: "window_destroy junk w = Some w' \<Longrightarrow> trace_safe f w \<Longrightarrow> f \<in> w_files w'"
  by (auto simp: window_destroy_def trace_safe_def remove_file_def Let_def split: option.splits if_splits)

text \<open>What the user can do with the window, apart from connecting to a running profiler.\<close>

inductive window_step :: "window \<Rightarrow> window \<Rightarrow> bool" where
  Win_save: "window_step w (on_save_data g copied w)"
| Win_open: "on_open_data frames_shown res g copied file_name file w = Some w' \<Longrightarrow> window_step w w'"
| Win_run: "on_run_unity_app frames_shown res g copied dlg_ok launch w = Some w' \<Longrightarrow> window_step w w'"
| Win_stop: "on_stop_profiling junk w = Some w' \<Longrightarrow> window_step w w'"
| Win_close: "on_close_event res g copied w = (False, w') \<Longrightarrow> window_step w w'"
| Win_scroll: "window_step w (on_allocations_scrolled frames_shown value w)"
| Win_zoom: "window_step w (set_zoom frames_shown z w)"
| Win_pick: "on_picker_changed progress snap left right w = Some w' \<Longrightarrow> window_step w w'"
| Win_find: "on_callstack_menu_action padding row col w = Some w' \<Longrightarrow> window_step w w'"
| Win_found: "window_step w (on_references_found addresses result w)"
| Win_expand: "window_step w (on_reference_expanded p w)"
| Win_search: "window_step w (on_references_menu_action p w)"
| Win_timer: "timer_event frames_shown auto_pos moved junk w = Some w' \<Longrightarrow> window_step w w'"
| Win_type: "window_step w (on_live_object_type_selected qt current w)"
| Win_search_type: "window_step w (on_search_type_selected current w)"
| Win_pause: "on_pause_app padding pause w = Some w' \<Longrightarrow> window_step w w'"

inductive_cases window_stepE: "window_step w w'"

text \<open>The views leave the files alone.\<close>

lemma safe_cong:
  "w_files w' = w_files w \<Longrightarrow> w_temporary w' = w_temporary w \<Longrightarrow> w_db_file w' = w_db_file w \<Longrightarrow>
     trace_safe f w' = trace_safe f w"
  by (simp add: trace_safe_def)

lemma safe_pick: "on_picker_changed progress snap left right w = Some w' \<Longrightarrow> trace_safe f w' = trace_safe f w"
  by (rule safe_cong) (auto simp: on_picker_changed_def calculate_live_objects_def Let_def)

lemma safe_find: "on_callstack_menu_action padding row col w = Some w' \<Longrightarrow> trace_safe f w' = trace_safe f w"
  by (auto simp: on_callstack_menu_action_def window_find_references_def split: option.splits)

lemma safe_pause: "on_pause_app padding pause w = Some w' \<Longrightarrow> trace_safe f w' = trace_safe f w"
  by (auto simp: on_pause_app_def split: if_splits)

lemma safe_tree:
  "trace_safe f (on_references_found addresses result w) = trace_safe f w"
  "trace_safe f (on_reference_expanded p w) = trace_safe f w"
  by (rule safe_cong; simp add: on_references_found_def on_reference_expanded_def)+

lemma safe_search: "trace_safe f (on_references_menu_action p w) = trace_safe f w"
  by (rule safe_cong) (simp_all add: on_references_menu_action_def Let_def split: option.splits)

lemma safe_scroll: "trace_safe f (on_allocations_scrolled frames_shown value w) = trace_safe f w"
  by (rule safe_cong) (simp_all add: on_allocations_scrolled_def set_zoom_def Let_def)

lemma safe_timer: "timer_event frames_shown auto_pos moved junk w = Some w' \<Longrightarrow> trace_safe f w \<Longrightarrow> trace_safe f w'"
  unfolding timer_event_def Let_def
  by (auto simp: safe_scroll safe_stop split: if_splits) (auto simp: trace_safe_def)

lemma safe_selected:
  "trace_safe f (on_live_object_type_selected qt current w) = trace_safe f w"
  "trace_safe f (on_search_type_selected current w) = trace_safe f w"
  by (rule safe_cong; simp add: on_live_object_type_selected_def on_search_type_selected_def Let_def split: option.splits)+

lemmas safe_views = safe_selected safe_pick safe_find safe_pause safe_tree safe_search safe_scroll

lemma safe_step:
  assumes "trace_safe f w" "window_step w w'"
  shows "trace_safe f w'"
  using assms(2)
  by (cases rule: window_step.cases)
    (use assms(1) in \<open>auto simp: safe_views safe_save on_close_event_def intro: safe_timer safe_open safe_run safe_stop safe_try_save\<close>)

interpretation kept: invariant_machine "\<lambda>w. trace_safe f w" window_step "\<lambda>w. trace_safe f w"
  by unfold_locales (auto intro: safe_step)


text \<open>
  C21. Connecting to a running profiler right after saving a trace deletes the saved file: the window
  takes its name for that of the temporary database.
\<close>

theorem saved_trace_deleted:
  assumes "save_db copied (w_client w) = (True, c)" "f \<noteq> []" "tmp \<noteq> f"
    and "on_start_profiling frames_shown res save_name copied' True tmp ec file (on_save_data f copied w) = Some w'"
  shows "f \<notin> w_files w'"
proof -
  have "try_save_unsaved_data res save_name copied' (on_save_data f copied w) = (True, on_save_data f copied w)"
    by (simp add: saved_state [OF assms(1,2)] try_save_unsaved_data_def)
  with assms(2-4) show ?thesis unfolding saved_state [OF assms(1,2)] on_start_profiling_def
    by (auto simp: reset_graphs_def remove_file_def set_zoom_def Let_def
        split: option.splits prod.splits if_splits)
qed

text \<open>Choosing to save an unsaved trace and then cancelling the choice of a file does not stop the
  operation that asked: it goes on, and the trace is lost.\<close>

lemma save_cancelled: "try_save_unsaved_data Yes [] copied w = (True, w)"
  by (simp add: try_save_unsaved_data_def on_save_data_def)

section \<open>Remembered settings\<close>

lemma trim_length: "length (trim_run_settings es) \<le> max_prev_settings"
  by (simp add: trim_run_settings_def)

lemma sort_newest_first:
  assumes "es \<noteq> []" "e \<in> set es" "\<forall>x \<in> set es. x = e \<or> re_time x < re_time e"
  shows "hd (sort_by (descending re_time) es) = e"
proof -
  let ?s = "sort_by (descending re_time) es"
  have ne: "?s \<noteq> []" using assms(1) by (metis length_0_conv length_sort_by)
  then obtain y ys where s: "?s = y # ys" by (cases ?s) auto
  have "sorted_wrt (\<lambda>x y. re_time x \<ge> re_time y) ?s"
    using descending.in_order_sort [of re_time es] by (simp only: in_order_descending)
  then have le: "e = y \<or> re_time e \<le> re_time y" using assms(2) set_sort_by [of "descending re_time" es] by (auto simp: s)
  have "y \<in> set es" using set_sort_by [of "descending re_time" es] by (auto simp: s)
  with le assms(3) have "y = e" by (metis not_le)
  then show ?thesis by (simp add: s)
qed

text \<open>What the connect dialog writes is not what it reads: the addresses are never remembered.\<close>

lemma connect_dialog_forgets:
  "connect_accept ok_pressed port_number ip port now es s = (r, es', s') \<Longrightarrow> new_connect_dialog s' = new_connect_dialog s"
proof -
  have "chars ''run/connect'' \<noteq> chars ''connect/ips''" by (simp add: chars_def)
  then show "connect_accept ok_pressed port_number ip port now es s = (r, es', s') \<Longrightarrow> ?thesis"
    by (auto simp: connect_accept_def new_connect_dialog_def Let_def split: if_splits)
qed

section \<open>A concrete window\<close>

definition example_window :: window where
  "example_window = \<lparr>w_client = new_client\<lparr>c_db := Some empty_database\<rparr>, w_graphs = example_graphs, w_db_file = [],
     w_temporary = True, w_files = {}, w_inited = True, w_pos = 0, w_zoom = 1, w_timer = False, w_types = [],
     w_by_type = \<lparr>bt_rows = [], bt_total_size = 0\<rparr>, w_stacks = \<lparr>sm_rows = []\<rparr>, w_tree = empty_tree, w_search = [],
     w_search_types = \<lparr>xt_rows = []\<rparr>, w_search_stacks = \<lparr>xs_rows = []\<rparr>\<rparr>"

lemma example_save: "fst (save_db True (w_client example_window))"
  by code_simp

lemma example_destroy: "window_destroy 0 (on_save_data [102] True example_window) \<noteq> None"
  by code_simp

lemma example_start:
  "on_start_profiling (\<lambda>z. 100) Yes [] False True [116] None (Some empty_database) (on_save_data [102] True example_window) \<noteq> None"
  by code_simp


theorem saved_trace_deleted_witness:
  "\<exists>w. on_start_profiling (\<lambda>z. 100) Yes [] False True [116] None (Some empty_database)
      (on_save_data [102] True example_window) = Some w \<and> [102] \<notin> w_files w"
proof -
  obtain c where c: "save_db True (w_client example_window) = (True, c)"
    using example_save by (metis prod.collapse)
  obtain w where w: "on_start_profiling (\<lambda>z. 100) Yes [] False True [116] None (Some empty_database)
      (on_save_data [102] True example_window) = Some w" using example_start by blast
  have "([102] :: bytes) \<noteq> []" "([116] :: bytes) \<noteq> [102]" by simp_all
  from saved_trace_deleted [OF c this w] w show ?thesis by blast
qed

end
