(* ===== verification/Block_Queue.thy ===== *)
theory Block_Queue
  imports Queue
begin

unbundle bit_operations_syntax

text \<open>
  The implementation of the queue (\<^verbatim>\<open>common/concurrentqueue.h\<close>), as one thread at a time sees it: the
  items of a producer lie in a ring of blocks of 32 slots, found through a circular index of
  blocks; indices are 64-bit numbers that wrap around. Memory is a list of blocks and a pointer
  is a position in it; \<open>None\<close> as result of an operation stands for an access through an invalid
  pointer or an unset entry of the index.
\<close>

section \<open>Blocks\<close>

definition circular_less_than :: "u64 \<Rightarrow> u64 \<Rightarrow> bool" where
  "circular_less_than a b \<longleftrightarrow> a - b > push_bit 63 1"

definition ceil_to_pow_2 :: "u64 \<Rightarrow> u64" where
  "ceil_to_pow_2 x0 =
     (let x1 = x0 - 1;
          x2 = x1 OR drop_bit 1 x1;
          x3 = x2 OR drop_bit 2 x2;
          x4 = x3 OR drop_bit 4 x3;
          x5 = x4 OR drop_bit 8 x4;
          x6 = x5 OR drop_bit 16 x5;
          x7 = x6 OR drop_bit 32 x6
      in x7 + 1)"

abbreviation (input) block_size :: nat where
  "block_size \<equiv> 32"

record 'a cq_block =
  blk_elements :: "'a option list"
  blk_next :: "nat option"
  blk_empty :: "bool list"

text \<open>The constructor leaves the flags unset; every block is reset before its first use.\<close>

definition new_block :: "'a cq_block" where
  "new_block = \<lparr>blk_elements = replicate block_size None, blk_next = None, blk_empty = replicate block_size False\<rparr>"

definition block_is_empty :: "'a cq_block \<Rightarrow> bool" where
  "block_is_empty b \<longleftrightarrow> list_all (\<lambda>f. f) (blk_empty b)"

definition block_offset :: "u64 \<Rightarrow> nat" where
  "block_offset i = unat (i AND 31)"

definition block_set_empty :: "u64 \<Rightarrow> 'a cq_block \<Rightarrow> 'a cq_block" where
  "block_set_empty i b = b\<lparr>blk_empty := (blk_empty b)[block_size - 1 - block_offset i := True]\<rparr>"

definition block_reset_empty :: "'a cq_block \<Rightarrow> 'a cq_block" where
  "block_reset_empty b = b\<lparr>blk_empty := replicate block_size False\<rparr>"

definition block_at :: "u64 \<Rightarrow> 'a cq_block \<Rightarrow> 'a option" where
  "block_at i b = blk_elements b ! block_offset i"

definition block_put :: "u64 \<Rightarrow> 'a option \<Rightarrow> 'a cq_block \<Rightarrow> 'a cq_block" where
  "block_put i x b = b\<lparr>blk_elements := (blk_elements b)[block_offset i := x]\<rparr>"

section \<open>The producer\<close>

text \<open>The index of blocks as consumers see it; an entry that was never written is \<open>None\<close>.\<close>

record block_index =
  bi_size :: u64
  bi_front :: u64
  bi_entries :: "(u64 \<times> nat) option list"

record 'a cqueue =
  q_blocks :: "'a cq_block list"
  q_pool_index :: u64
  q_pool_size :: u64
  q_free_list :: "nat list"
  q_tailIndex :: u64
  q_headIndex :: u64
  q_optimistic :: u64
  q_overcommit :: u64
  q_tailBlock :: "nat option"
  q_index :: "block_index option"
  q_slots_used :: u64
  q_index_size :: u64
  q_front :: u64

definition on_block :: "nat \<Rightarrow> ('a cq_block \<Rightarrow> 'a cq_block) \<Rightarrow> 'a cqueue \<Rightarrow> 'a cqueue" where
  "on_block p f q = q\<lparr>q_blocks := (q_blocks q)[p := f (q_blocks q ! p)]\<rparr>"

definition try_get_block_from_initial_pool :: "'a cqueue \<Rightarrow> nat option \<times> 'a cqueue" where
  "try_get_block_from_initial_pool q =
     (if q_pool_index q \<ge> q_pool_size q then (None, q)
      else (Some (unat (q_pool_index q)), q\<lparr>q_pool_index := q_pool_index q + 1\<rparr>))"

definition try_get_block_from_free_list :: "'a cqueue \<Rightarrow> nat option \<times> 'a cqueue" where
  "try_get_block_from_free_list q =
     (case q_free_list q of [] \<Rightarrow> (None, q) | p # ps \<Rightarrow> (Some p, q\<lparr>q_free_list := ps\<rparr>))"

text \<open>\<open>ok\<close> tells whether the allocation of memory succeeds.\<close>

definition requisition_block :: "bool \<Rightarrow> 'a cqueue \<Rightarrow> nat option \<times> 'a cqueue" where
  "requisition_block ok q =
     (case try_get_block_from_initial_pool q of
        (Some p, q1) \<Rightarrow> (Some p, q1)
      | (None, q1) \<Rightarrow>
          (case try_get_block_from_free_list q1 of
             (Some p, q2) \<Rightarrow> (Some p, q2)
           | (None, q2) \<Rightarrow>
               if ok then (Some (length (q_blocks q2)), q2\<lparr>q_blocks := q_blocks q2 @ [new_block]\<rparr>)
               else (None, q2)))"

text \<open>The copying loop of \<^verbatim>\<open>new_block_index\<close>; the fuel is the size of the index, once around.\<close>

fun copy_entries :: "nat \<Rightarrow> 'e list \<Rightarrow> u64 \<Rightarrow> u64 \<Rightarrow> u64 \<Rightarrow> 'e list" where
  "copy_entries 0 es msk front i = []"
| "copy_entries (Suc n) es msk front i =
     es ! unat i #
     (let i' = (i + 1) AND msk in if i' = front then [] else copy_entries n es msk front i')"

definition copied_entries :: "'a cqueue \<Rightarrow> (u64 \<times> nat) option list" where
  "copied_entries q =
     (let msk = q_index_size q - 1
      in if q_slots_used q = 0 then []
         else copy_entries (unat (q_index_size q)) (case q_index q of None \<Rightarrow> [] | Some bi \<Rightarrow> bi_entries bi)
                msk (q_front q) ((q_front q - q_slots_used q) AND msk))"

definition new_block_index :: "bool \<Rightarrow> u64 \<Rightarrow> 'a cqueue \<Rightarrow> bool \<times> 'a cqueue" where
  "new_block_index ok filled q =
     (if \<not> ok then (False, q)
      else
        let new_size = push_bit 1 (q_index_size q);
            old = copied_entries q;
            bi = \<lparr>bi_size = new_size, bi_front = filled - 1,
                  bi_entries = old @ replicate (unat new_size - length old) None\<rparr>
        in (True, q\<lparr>q_index_size := new_size, q_front := of_nat (length old), q_index := Some bi\<rparr>))"

text \<open>The queue and the one producer of its token; without memory the pool is empty, and the first
  item asks for the index again.\<close>

definition new_cqueue :: "bool \<Rightarrow> bool \<Rightarrow> u64 \<Rightarrow> 'a cqueue" where
  "new_cqueue ok_pool ok_index capacity =
     (let blocks = capacity div 32 + (if capacity AND 31 = 0 then 0 else 1);
          pool = (if ok_pool then blocks else 0);
          half = drop_bit 1 (32 :: u64); pool_based = drop_bit 1 (ceil_to_pow_2 pool);
          q = \<lparr>q_blocks = replicate (unat pool) new_block, q_pool_index = 0, q_pool_size = pool,
               q_free_list = [], q_tailIndex = 0, q_headIndex = 0, q_optimistic = 0, q_overcommit = 0,
               q_tailBlock = None, q_index = None, q_slots_used = 0,
               q_index_size = (if pool_based > half then pool_based else half), q_front = 0\<rparr>
      in snd (new_block_index ok_index 0 q))"

section \<open>Enqueue and dequeue\<close>

text \<open>A new block behind the tail block, with room for it in the index; the memory for a larger index
  and for the block may be missing. The limit on the size of a queue is the largest number.\<close>

definition link_block :: "nat \<Rightarrow> 'a cqueue \<Rightarrow> 'a cqueue" where
  "link_block p q =
     (let q1 = on_block p block_reset_empty q;
          q2 = (case q_tailBlock q1 of
                  None \<Rightarrow> on_block p (\<lambda>b. b\<lparr>blk_next := Some p\<rparr>) q1
                | Some t \<Rightarrow>
                    on_block t (\<lambda>b. b\<lparr>blk_next := Some p\<rparr>)
                      (on_block p (\<lambda>b. b\<lparr>blk_next := blk_next (q_blocks q1 ! t)\<rparr>) q1))
      in q2\<lparr>q_tailBlock := Some p, q_slots_used := q_slots_used q2 + 1\<rparr>)"

definition new_tail_block :: "bool \<Rightarrow> bool \<Rightarrow> 'a cqueue \<Rightarrow> bool \<times> 'a cqueue" where
  "new_tail_block ok_index ok_block q =
     (if \<not> circular_less_than (q_headIndex q) (q_tailIndex q + 32) then (False, q)
      else
        let (room, q1) = (if q_index q = None \<or> q_slots_used q = q_index_size q
                          then new_block_index ok_index (q_slots_used q) q else (True, q))
        in if \<not> room then (False, q1)
           else case requisition_block ok_block q1 of
                  (None, q2) \<Rightarrow> (False, q2)
                | (Some p, q2) \<Rightarrow> (True, link_block p q2))"

text \<open>At the end of a block the producer goes on to the block ahead if that is empty.\<close>

definition start_block :: "bool \<Rightarrow> bool \<Rightarrow> 'a cqueue \<Rightarrow> bool \<times> 'a cqueue" where
  "start_block ok_index ok_block q =
     (case (case q_tailBlock q of None \<Rightarrow> None | Some t \<Rightarrow> blk_next (q_blocks q ! t)) of
        Some p \<Rightarrow>
          if block_is_empty (q_blocks q ! p)
          then (True, on_block p block_reset_empty (q\<lparr>q_tailBlock := Some p\<rparr>))
          else new_tail_block ok_index ok_block q
      | None \<Rightarrow> new_tail_block ok_index ok_block q)"

text \<open>The construction of the item in its slot; the entry of a new block in the index, and its publication.\<close>

definition put_item :: "u64 \<Rightarrow> 'a \<Rightarrow> 'a cqueue \<Rightarrow> 'a cqueue option" where
  "put_item tail x q =
     (case q_tailBlock q of None \<Rightarrow> None | Some t \<Rightarrow> Some (on_block t (block_put tail (Some x)) q))"

definition write_entry :: "u64 \<Rightarrow> 'a cqueue \<Rightarrow> 'a cqueue option" where
  "write_entry tail q =
     (case (q_index q, q_tailBlock q) of
        (Some bi, Some t) \<Rightarrow>
          Some (q\<lparr>q_index := Some (bi\<lparr>bi_entries := (bi_entries bi)[unat (q_front q) := Some (tail, t)]\<rparr>)\<rparr>)
      | _ \<Rightarrow> None)"

definition publish_front :: "'a cqueue \<Rightarrow> 'a cqueue option" where
  "publish_front q =
     (case q_index q of
        None \<Rightarrow> None
      | Some bi \<Rightarrow> Some (q\<lparr>q_index := Some (bi\<lparr>bi_front := q_front q\<rparr>),
                         q_front := (q_front q + 1) AND (q_index_size q - 1)\<rparr>))"

text \<open>
  \<open>copies\<close> tells whether the copy of the item into its slot succeeds; the items of the worker thread
  hold a vector, so the copy may throw, and at the start of a block the change of block is then taken back.
\<close>

datatype enqueue_result = Item_stored | Memory_missing | Copy_threw

definition producer_enqueue :: "bool \<times> bool \<Rightarrow> bool \<Rightarrow> 'a \<Rightarrow> 'a cqueue \<Rightarrow> (enqueue_result \<times> 'a cqueue) option" where
  "producer_enqueue ok copies x q =
     (let tail = q_tailIndex q
      in if tail AND 31 = 0
         then case start_block (fst ok) (snd ok) q of
                (False, q1) \<Rightarrow> Some (Memory_missing, q1)
              | (True, q1) \<Rightarrow>
                  if \<not> copies
                  then Some (Copy_threw, q1\<lparr>q_slots_used := q_slots_used q,
                         q_tailBlock := (case q_tailBlock q of None \<Rightarrow> q_tailBlock q1 | Some t \<Rightarrow> Some t)\<rparr>)
                  else (case put_item tail x q1 of
                          None \<Rightarrow> None
                        | Some q2 \<Rightarrow> map_option (\<lambda>q3. (Item_stored, q3\<lparr>q_tailIndex := 1 + tail\<rparr>))
                            (Option.bind (write_entry tail q2) publish_front))
         else if \<not> copies then Some (Copy_threw, q)
         else map_option (\<lambda>q2. (Item_stored, q2\<lparr>q_tailIndex := 1 + tail\<rparr>)) (put_item tail x q))"

text \<open>The block that holds an index: the distance to the base of the newest block, divided without
  sign, is taken modulo the size of the index.\<close>

definition block_slot :: "u64 \<Rightarrow> u64 \<Rightarrow> u64 \<Rightarrow> block_index \<Rightarrow> u64" where
  "block_slot i front head_base bi =
     (let block_base = i AND NOT 31;
          offset = (block_base - head_base) div 32
      in (front + offset) AND (bi_size bi - 1))"

definition block_of :: "u64 \<Rightarrow> 'a cqueue \<Rightarrow> nat option" where
  "block_of i q =
     (case q_index q of
        None \<Rightarrow> None
      | Some bi \<Rightarrow>
          (case bi_entries bi ! unat (bi_front bi) of
             None \<Rightarrow> None
           | Some (head_base, _) \<Rightarrow> map_option snd (bi_entries bi ! unat (block_slot i (bi_front bi) head_base bi))))"

definition producer_dequeue :: "'a cqueue \<Rightarrow> ('a option \<times> 'a cqueue) option" where
  "producer_dequeue q =
     (let overcommit = q_overcommit q
      in if circular_less_than (q_optimistic q - overcommit) (q_tailIndex q)
         then
           let my_count = q_optimistic q;
               q1 = q\<lparr>q_optimistic := q_optimistic q + 1\<rparr>
           in if circular_less_than (my_count - overcommit) (q_tailIndex q1)
              then
                let i = q_headIndex q1; q2 = q1\<lparr>q_headIndex := q_headIndex q1 + 1\<rparr>
                in case block_of i q2 of
                     None \<Rightarrow> None
                   | Some p \<Rightarrow>
                       (case block_at i (q_blocks q2 ! p) of
                          None \<Rightarrow> None
                        | Some x \<Rightarrow> Some (Some x, on_block p (block_set_empty i \<circ> block_put i None) q2))
              else Some (None, q1\<lparr>q_overcommit := q_overcommit q1 + 1\<rparr>)
         else Some (None, q))"

definition producer_size_approx :: "'a cqueue \<Rightarrow> u64" where
  "producer_size_approx q =
     (if circular_less_than (q_headIndex q) (q_tailIndex q) then q_tailIndex q - q_headIndex q else 0)"

text \<open>Taking from a queue that has one producer: it is asked when it seems to hold an item.\<close>

definition cq_try_dequeue :: "'a cqueue \<Rightarrow> ('a option \<times> 'a cqueue) option" where
  "cq_try_dequeue q = (if producer_size_approx q > 0 then producer_dequeue q else Some (None, q))"

text \<open>The items of the producer, oldest first.\<close>

definition q_contents :: "'a cqueue \<Rightarrow> 'a list" where
  "q_contents q = map (\<lambda>j. let i = q_headIndex q + of_nat j
       in the (block_at i (q_blocks q ! the (block_of i q)))) [0..<unat (q_tailIndex q - q_headIndex q)]"

section \<open>Indices that wrap around\<close>

lemma unat_index: "unat (32 * b + of_nat j :: u64) = (32 * unat b + j) mod 2 ^ 64"
  by (simp add: unat_word_ariths unat_of_nat mod_simps)

lemma and_31: "i AND 31 = take_bit 5 (i :: u64)"
  by (simp add: take_bit_eq_mask mask_numeral)

lemma unat_take_bit: "unat (take_bit p i) = unat (i :: u64) mod 2 ^ p"
  by (metis unsigned_take_bit_eq take_bit_eq_mod)

lemma block_offset_index: "block_offset (32 * b + of_nat j) = j mod 32"
proof -
  have "unat (take_bit 5 i) = unat i mod 32" for i :: u64
    using unat_take_bit [of 5 i] by simp
  then have "block_offset (32 * b + of_nat j) = unat (32 * b + of_nat j) mod 32"
    unfolding block_offset_def and_31 by blast
  also have "\<dots> = (32 * unat b + j) mod 32" unfolding unat_index by (simp add: mod_mod_cancel)
  finally show ?thesis by simp
qed

lemma base_index: "(32 * b + of_nat j :: u64) AND NOT 31 = 32 * (b + of_nat (j div 32))"
proof -
  let ?i = "32 * b + of_nat j :: u64"
  have "(?i AND NOT 31) + (?i AND 31) = (?i AND NOT 31) OR (?i AND 31)"
    by (rule disjunctive_add) (simp add: bit_simps)
  also have "\<dots> = ?i" by (rule bit_word_eqI) (auto simp: bit_simps)
  finally have s: "(?i AND NOT 31) + (?i AND 31) = ?i" .
  have "?i AND 31 = of_nat (block_offset ?i)" by (simp add: block_offset_def)
  then have "?i AND 31 = of_nat (j mod 32)" by (simp only: block_offset_index)
  moreover have "(of_nat j :: u64) = 32 * of_nat (j div 32) + of_nat (j mod 32)"
    by (metis mult_div_mod_eq of_nat_add of_nat_mult of_nat_numeral)
  ultimately show ?thesis using s by (simp add: algebra_simps)
qed

text \<open>The unsigned division of a negative distance is harmless modulo the size of the index.\<close>

lemma take_bit_plus_right:
  assumes "p \<le> 64"
  shows "take_bit p (a + take_bit p c) = take_bit p (a + c :: u64)"
proof -
  have d: "(2 :: nat) ^ p dvd 2 ^ 64" using assms by (rule le_imp_power_dvd)
  show ?thesis
    unfolding word_unat_eq_iff unat_take_bit unat_word_ariths
    by (simp only: len_num1 len_num0 len_bit0 mod_mod_cancel [OF d] mod_simps mult.right_neutral) (simp add: mod_mod_cancel [OF d, simplified] mod_simps)
qed

lemma take_bit_plus_left: "p \<le> 64 \<Longrightarrow> take_bit p (take_bit p a + c) = take_bit p (a + c :: u64)"
  using take_bit_plus_right [of p c a] by (simp add: ac_simps)

lemma unsigned_distance:
  assumes "p \<le> 59"
  shows "take_bit p (f + (32 * y) div 32) = take_bit p (f + y :: u64)"
proof -
  have "(32 * y) div 32 = drop_bit 5 (push_bit 5 y)" by (simp add: drop_bit_eq_div push_bit_eq_mult ac_simps)
  also have "\<dots> = take_bit 59 y" by (rule bit_word_eqI) (auto simp: bit_simps)
  finally have "(32 * y) div 32 = take_bit 59 y" .
  then have "take_bit p (f + (32 * y) div 32) = take_bit p (f + take_bit p (take_bit 59 y))"
    using assms take_bit_plus_right [of p f "take_bit 59 y"] by simp
  also have "take_bit p (take_bit 59 y) = take_bit p y" using assms by (simp add: min_absorb1)
  finally show ?thesis using assms by (simp add: take_bit_plus_right)
qed

lemma and_size: "x AND (2 ^ p - 1) = take_bit p (x :: u64)"
  by (simp add: take_bit_eq_mask mask_eq_exp_minus_1)

lemma take_bit_back_eq:
  assumes "take_bit p f = f" "take_bit p (f - of_nat m) = (f :: u64)" "m < 2 ^ p" "p \<le> 63"
  shows "m = 0"
proof -
  have p: "(2 :: nat) ^ p \<le> 2 ^ 63" using assms(4) by (intro power_increasing) auto
  have "take_bit p (take_bit p (f - of_nat m) + of_nat m) = take_bit p f"
    using assms(4) take_bit_plus_left [of p "f - of_nat m" "of_nat m"] by simp
  then have "take_bit p (f + of_nat m) = f" unfolding assms(1,2) .
  then have e: "unat (f + of_nat m) mod 2 ^ p = unat f" by (metis take_bit_eq_mod unsigned_take_bit_eq)
  have f: "unat f < 2 ^ p" using assms(1) by (metis take_bit_nat_less_exp unsigned_take_bit_eq)
  have "unat (of_nat m :: u64) = m" using assms(3) p by (simp add: unat_of_nat)
  then have "unat (f + of_nat m) = unat f + m"
    using f assms(3) p by (subst unat_plus_if_size) (simp add: word_size)
  then have "(unat f + m) mod 2 ^ p = unat f" using e by simp
  moreover have "(unat f + m) mod 2 ^ p = (if unat f + m < 2 ^ p then unat f + m else unat f + m - 2 ^ p)"
    using f assms(3) by (simp add: le_mod_geq)
  ultimately show ?thesis using f assms(3) by (simp split: if_splits)
qed

lemma circular_less: "n < 2 ^ 63 \<Longrightarrow> circular_less_than a (a + of_nat n) \<longleftrightarrow> 0 < n"
proof -
  assume n: "n < 2 ^ 63"
  have "unat (a - (a + of_nat n)) = (if n = 0 then 0 else 2 ^ 64 - n)"
  proof (cases "n = 0")
    case False
    have "a - (a + of_nat n) = of_nat (2 ^ 64 - n)" using n by (simp add: of_nat_diff)
    then show ?thesis using n False by (simp only: unat_of_nat) simp
  qed simp
  then show ?thesis
    unfolding circular_less_than_def word_less_nat_alt using n
    by (auto simp: push_bit_eq_mult less_diff_conv)
qed

end
