(* ===== verification/Queue_Threads.thy ===== *)
theory Queue_Threads
  imports Block_Queue
begin

text \<open>
  The queue between two threads: a producer that enqueues (the callbacks of the runtime, one at a time
  under their mutex) and a consumer that dequeues (the worker thread). Each access to shared memory is
  a step and the steps of the two interleave in any order. Two groups of accesses are one step: the
  choice of a block, which reads marks that only the consumer sets and otherwise touches only the
  producer's own data, up to the publication of a larger index; and the destruction of an item with its
  mark, since the slot belongs to the consumer until it is marked. The memory is sequentially consistent.
\<close>

unbundle bit_operations_syntax

section \<open>The steps\<close>

datatype 'a producer_pc =
    P_idle
  | P_begin "bool \<times> bool" 'a u64
  | P_middle 'a u64
  | P_block 'a u64
  | P_entry 'a u64
  | P_front 'a u64
  | P_store 'a u64
  | P_fault

datatype 'a consumer_pc =
    C_idle
  | C_sized
  | C_checked u64
  | C_claimed u64 u64
  | C_ready
  | C_index u64
  | C_header u64 nat
  | C_front u64 nat u64
  | C_base u64 nat u64 u64
  | C_block u64 nat
  | C_moved u64 nat 'a
  | C_fault

text \<open>What the threads observe: an item is stored with the new tail, and taken when its slot is marked.\<close>

datatype 'a queue_event = Put 'a | Took 'a | Found_empty | Refused

record 'a threads =
  th_queue :: "'a cqueue"
  th_retired :: "block_index list"
  th_producer :: "'a producer_pc"
  th_consumer :: "'a consumer_pc"
  th_events :: "'a queue_event list"

definition idle_threads :: "'a cqueue \<Rightarrow> 'a threads" where
  "idle_threads q = \<lparr>th_queue = q, th_retired = [], th_producer = P_idle, th_consumer = C_idle, th_events = []\<rparr>"

text \<open>Indices that were replaced stay in memory; a consumer may still hold one of them.\<close>

definition index_header :: "nat \<Rightarrow> 'a threads \<Rightarrow> block_index option" where
  "index_header r s = (if r < length (th_retired s) then Some (th_retired s ! r) else q_index (th_queue s))"

definition retire_index :: "'a cqueue \<Rightarrow> 'a cqueue \<Rightarrow> block_index list \<Rightarrow> block_index list" where
  "retire_index q q' old =
     (if q_index_size q' = q_index_size q then old
      else old @ (case q_index q of None \<Rightarrow> [] | Some bi \<Rightarrow> [bi]))"

definition begin_enqueue :: "bool \<times> bool \<Rightarrow> 'a \<Rightarrow> u64 \<Rightarrow> 'a threads \<Rightarrow> 'a threads" where
  "begin_enqueue ok x tail s =
     (let q = th_queue s
      in if tail AND 31 = 0
         then case start_block (fst ok) (snd ok) q of (got, q') \<Rightarrow>
           let s1 = s\<lparr>th_queue := q', th_retired := retire_index q q' (th_retired s)\<rparr>
           in if got then s1\<lparr>th_producer := P_block x tail\<rparr>
              else s1\<lparr>th_producer := P_idle, th_events := th_events s @ [Refused]\<rparr>
         else s\<lparr>th_producer := P_middle x tail\<rparr>)"

definition producer_then :: "'a producer_pc \<Rightarrow> 'a cqueue option \<Rightarrow> 'a threads \<Rightarrow> 'a threads" where
  "producer_then pc r s =
     (case r of None \<Rightarrow> s\<lparr>th_producer := P_fault\<rparr> | Some q \<Rightarrow> s\<lparr>th_queue := q, th_producer := pc\<rparr>)"

definition producer_step :: "bool \<times> bool \<Rightarrow> 'a \<Rightarrow> 'a threads \<Rightarrow> 'a threads" where
  "producer_step ok x s =
     (let q = th_queue s in
      case th_producer s of
        P_idle \<Rightarrow> s\<lparr>th_producer := P_begin ok x (q_tailIndex q)\<rparr>
      | P_begin ok1 y tail \<Rightarrow> begin_enqueue ok1 y tail s
      | P_middle y tail \<Rightarrow> producer_then (P_store y tail) (put_item tail y q) s
      | P_block y tail \<Rightarrow> producer_then (P_entry y tail) (put_item tail y q) s
      | P_entry y tail \<Rightarrow> producer_then (P_front y tail) (write_entry tail q) s
      | P_front y tail \<Rightarrow> producer_then (P_store y tail) (publish_front q) s
      | P_store y tail \<Rightarrow> s\<lparr>th_queue := q\<lparr>q_tailIndex := 1 + tail\<rparr>, th_producer := P_idle,
                          th_events := th_events s @ [Put y]\<rparr>
      | P_fault \<Rightarrow> s)"

definition consumer_empty :: "'a threads \<Rightarrow> 'a threads" where
  "consumer_empty s = s\<lparr>th_consumer := C_idle, th_events := th_events s @ [Found_empty]\<rparr>"

definition consumer_step :: "'a threads \<Rightarrow> 'a threads" where
  "consumer_step s =
     (let q = th_queue s; goto = (\<lambda>pc. s\<lparr>th_consumer := pc\<rparr>) in
      case th_consumer s of
        C_idle \<Rightarrow> if producer_size_approx q > 0 then goto C_sized else consumer_empty s
      | C_sized \<Rightarrow>
          if circular_less_than (q_optimistic q - q_overcommit q) (q_tailIndex q)
          then goto (C_checked (q_overcommit q)) else consumer_empty s
      | C_checked over \<Rightarrow>
          s\<lparr>th_queue := q\<lparr>q_optimistic := q_optimistic q + 1\<rparr>, th_consumer := C_claimed over (q_optimistic q)\<rparr>
      | C_claimed over my_count \<Rightarrow>
          if circular_less_than (my_count - over) (q_tailIndex q) then goto C_ready
          else consumer_empty (s\<lparr>th_queue := q\<lparr>q_overcommit := q_overcommit q + 1\<rparr>\<rparr>)
      | C_ready \<Rightarrow>
          s\<lparr>th_queue := q\<lparr>q_headIndex := q_headIndex q + 1\<rparr>, th_consumer := C_index (q_headIndex q)\<rparr>
      | C_index i \<Rightarrow> goto (case q_index q of None \<Rightarrow> C_fault | Some _ \<Rightarrow> C_header i (length (th_retired s)))
      | C_header i r \<Rightarrow>
          goto (case index_header r s of None \<Rightarrow> C_fault | Some bi \<Rightarrow> C_front i r (bi_front bi))
      | C_front i r front \<Rightarrow>
          goto (case Option.bind (index_header r s) (\<lambda>bi. bi_entries bi ! unat front) of
                  None \<Rightarrow> C_fault | Some (head_base, _) \<Rightarrow> C_base i r front head_base)
      | C_base i r front head_base \<Rightarrow>
          goto (case Option.bind (index_header r s) (\<lambda>bi. bi_entries bi ! unat (block_slot i front head_base bi)) of
                  None \<Rightarrow> C_fault | Some (_, blk) \<Rightarrow> C_block i blk)
      | C_block i blk \<Rightarrow>
          goto (case block_at i (q_blocks q ! blk) of None \<Rightarrow> C_fault | Some x \<Rightarrow> C_moved i blk x)
      | C_moved i blk x \<Rightarrow>
          s\<lparr>th_queue := on_block blk (block_set_empty i \<circ> block_put i None) q, th_consumer := C_idle,
            th_events := th_events s @ [Took x]\<rparr>
      | C_fault \<Rightarrow> s)"

datatype 'a turn = Produce "bool \<times> bool" 'a | Consume

primrec thread_step :: "'a turn \<Rightarrow> 'a threads \<Rightarrow> 'a threads" where
  "thread_step (Produce ok x) s = producer_step ok x s"
| "thread_step Consume s = consumer_step s"

section \<open>Histories\<close>

primrec replay_event :: "'a queue_event \<Rightarrow> 'a list \<Rightarrow> 'a list option" where
  "replay_event (Put x) xs = Some (enqueue x xs)"
| "replay_event (Took x) xs = (case try_dequeue xs of None \<Rightarrow> None | Some (y, ys) \<Rightarrow> if x = y then Some ys else None)"
| "replay_event Found_empty xs = (case try_dequeue xs of None \<Rightarrow> Some xs | Some _ \<Rightarrow> None)"
| "replay_event Refused xs = Some xs"

text \<open>The list a history of events leaves, if the list would have answered the same.\<close>

primrec replay_queue :: "'a queue_event list \<Rightarrow> 'a list \<Rightarrow> 'a list option" where
  "replay_queue [] xs = Some xs"
| "replay_queue (e # es) xs = Option.bind (replay_event e xs) (replay_queue es)"

lemma replay_queue_append:
  "replay_queue (es @ fs) xs = Option.bind (replay_queue es xs) (replay_queue fs)"
  by (induction es arbitrary: xs) (auto split: bind_split)

end
