(* ===== verification/Block_Queue_Inv.thy ===== *)
theory Block_Queue_Inv
  imports Block_Queue
begin

unbundle bit_operations_syntax

text \<open>
  The invariant of the ring of blocks, and the queue as a plain list.
\<close>

section \<open>The invariant\<close>

text \<open>
  \<open>ids\<close> are the blocks of the ring from the oldest to the newest; block \<open>k\<close> holds the indices from
  \<open>32 * (b + k)\<close>. Positions \<open>h\<close> (head) and \<open>t\<close> (tail) count from the first slot of the oldest
  block. The ring as the links between the blocks, the flags of the slots that were emptied, the
  items, the entries of the index, and the source of new blocks:
\<close>

definition ring_ok :: "nat list \<Rightarrow> 'a cq_block list \<Rightarrow> bool" where
  "ring_ok ids bs \<longleftrightarrow>
     (\<forall>k<length ids. blk_next (bs ! (ids ! k)) = Some (ids ! (Suc k mod length ids)))"

definition flags_ok :: "nat list \<Rightarrow> nat \<Rightarrow> 'a cq_block list \<Rightarrow> bool" where
  "flags_ok ids h bs \<longleftrightarrow>
     (\<forall>j<32 * length ids. blk_empty (bs ! (ids ! (j div 32))) ! (31 - j mod 32) \<longleftrightarrow> j < h)"

definition items_ok :: "nat list \<Rightarrow> nat \<Rightarrow> 'a list \<Rightarrow> 'a cq_block list \<Rightarrow> bool" where
  "items_ok ids h xs bs \<longleftrightarrow>
     (\<forall>i<length xs. blk_elements (bs ! (ids ! ((h + i) div 32))) ! ((h + i) mod 32) = Some (xs ! i))"

definition entries_ok :: "u64 \<Rightarrow> nat list \<Rightarrow> nat \<Rightarrow> nat \<Rightarrow> 'a cqueue \<Rightarrow> bool" where
  "entries_ok b ids ne p q \<longleftrightarrow>
     (\<forall>k<ne. \<exists>bi. q_index q = Some bi \<and>
        bi_entries bi ! unat (take_bit p (q_front q - of_nat (ne - k))) = Some (32 * (b + of_nat k), ids ! k))"

definition index_ok :: "nat \<Rightarrow> 'a cqueue \<Rightarrow> bool" where
  "index_ok p q \<longleftrightarrow> p \<le> 58 \<and> q_index_size q = 2 ^ p \<and> take_bit p (q_front q) = q_front q \<and>
     (\<forall>bi. q_index q = Some bi \<longrightarrow> bi_size bi = 2 ^ p \<and> length (bi_entries bi) = 2 ^ p) \<and>
     (q_index q = None \<longrightarrow> p \<le> 57)"

definition front_ok :: "nat \<Rightarrow> 'a cqueue \<Rightarrow> bool" where
  "front_ok p q \<longleftrightarrow> (\<forall>bi. q_index q = Some bi \<longrightarrow> bi_front bi = take_bit p (q_front q - 1))"

text \<open>Every block that was taken from the pool or allocated is in the ring or on the free list.\<close>

definition blocks_held :: "nat set \<Rightarrow> nat \<Rightarrow> u64 \<Rightarrow> u64 \<Rightarrow> bool" where
  "blocks_held held n used pool \<longleftrightarrow> (\<forall>i<n. i < unat used \<or> unat pool \<le> i \<longrightarrow> i \<in> held)"

definition pool_ok :: "nat list \<Rightarrow> 'a cqueue \<Rightarrow> bool" where
  "pool_ok ids q \<longleftrightarrow>
     (\<forall>blk\<in>set (q_blocks q). length (blk_elements blk) = 32 \<and> length (blk_empty blk) = 32) \<and>
     distinct (ids @ q_free_list q) \<and>
     (\<forall>i\<in>set (ids @ q_free_list q).
        i < length (q_blocks q) \<and> (i < unat (q_pool_index q) \<or> unat (q_pool_size q) \<le> i)) \<and>
     blocks_held (set (ids @ q_free_list q)) (length (q_blocks q)) (q_pool_index q) (q_pool_size q) \<and>
     q_pool_index q \<le> q_pool_size q \<and> unat (q_pool_size q) \<le> length (q_blocks q)"

lemma pool_ok_held:
  "pool_ok ids q \<Longrightarrow> blocks_held (set (ids @ q_free_list q)) (length (q_blocks q)) (q_pool_index q) (q_pool_size q)"
  unfolding pool_ok_def by blast

definition heads_ok :: "u64 \<Rightarrow> nat \<Rightarrow> 'a cqueue \<Rightarrow> bool" where
  "heads_ok b h q \<longleftrightarrow> q_headIndex q = 32 * b + of_nat h \<and> q_optimistic q - q_overcommit q = q_headIndex q"

definition ring_state :: "u64 \<Rightarrow> nat list \<Rightarrow> nat \<Rightarrow> nat \<Rightarrow> nat \<Rightarrow> 'a list \<Rightarrow> 'a cqueue \<Rightarrow> bool" where
  "ring_state b ids p h t xs q \<longleftrightarrow>
     ring_ok ids (q_blocks q) \<and> flags_ok ids h (q_blocks q) \<and> items_ok ids h xs (q_blocks q) \<and>
     index_ok p q \<and> pool_ok ids q \<and> q_tailIndex q = 32 * b + of_nat t \<and> h + length xs = t \<and>
     q_tailBlock q = (if ids = [] then None else Some (last ids)) \<and>
     q_slots_used q = of_nat (length ids) \<and> length ids \<le> 2 ^ p"

text \<open>The ring, whose first \<open>ne\<close> blocks are in the index, and the whole state between two operations.\<close>

definition queue_view :: "u64 \<Rightarrow> nat list \<Rightarrow> nat \<Rightarrow> nat \<Rightarrow> nat \<Rightarrow> nat \<Rightarrow> 'a list \<Rightarrow> 'a cqueue \<Rightarrow> bool" where
  "queue_view b ids ne p h t xs q \<longleftrightarrow>
     ring_state b ids p h t xs q \<and> entries_ok b ids ne p q \<and> (0 < ne \<longrightarrow> front_ok p q) \<and>
     ne \<le> length ids \<and> t \<le> 32 * ne"

definition ring_full :: "nat list \<Rightarrow> nat \<Rightarrow> bool" where
  "ring_full ids t \<longleftrightarrow> (ids \<noteq> [] \<longrightarrow> 32 * length ids < t + 32)"

definition queue_state :: "u64 \<Rightarrow> nat list \<Rightarrow> nat \<Rightarrow> nat \<Rightarrow> nat \<Rightarrow> 'a list \<Rightarrow> 'a cqueue \<Rightarrow> bool" where
  "queue_state b ids p h t xs q \<longleftrightarrow>
     queue_view b ids (length ids) p h t xs q \<and> ring_full ids t \<and> heads_ok b h q"

section \<open>One block of the ring\<close>

lemma on_block_fields [simp]:
  "q_blocks (on_block k f q) = (q_blocks q)[k := f (q_blocks q ! k)]"
  "q_pool_index (on_block k f q) = q_pool_index q" "q_pool_size (on_block k f q) = q_pool_size q"
  "q_free_list (on_block k f q) = q_free_list q" "q_tailIndex (on_block k f q) = q_tailIndex q"
  "q_headIndex (on_block k f q) = q_headIndex q" "q_optimistic (on_block k f q) = q_optimistic q"
  "q_overcommit (on_block k f q) = q_overcommit q" "q_tailBlock (on_block k f q) = q_tailBlock q"
  "q_index (on_block k f q) = q_index q" "q_slots_used (on_block k f q) = q_slots_used q"
  "q_index_size (on_block k f q) = q_index_size q" "q_front (on_block k f q) = q_front q"
  by (simp_all add: on_block_def)

lemma pool_ok_on_block:
  assumes "pool_ok ids q" "k < length (q_blocks q)"
    "\<And>c. length (blk_elements c) = 32 \<Longrightarrow> length (blk_empty c) = 32 \<Longrightarrow>
       length (blk_elements (f c)) = 32 \<and> length (blk_empty (f c)) = 32"
  shows "pool_ok ids (on_block k f q)"
proof -
  have len: "length (blk_elements blk) = 32 \<and> length (blk_empty blk) = 32" if "blk \<in> set (q_blocks q)" for blk
    using assms(1) that unfolding pool_ok_def by blast
  have "length (blk_elements blk) = 32 \<and> length (blk_empty blk) = 32"
    if blk: "blk \<in> set ((q_blocks q)[k := f (q_blocks q ! k)])" for blk
  proof (cases "blk = f (q_blocks q ! k)")
    case True
    then show ?thesis using assms(3) len [OF nth_mem [OF assms(2)]] by simp
  next
    case False
    then have "blk \<in> set (q_blocks q)" using blk set_update_subset_insert [of "q_blocks q" k] by blast
    then show ?thesis by (rule len)
  qed
  then show ?thesis using assms(1) unfolding pool_ok_def by simp
qed

lemma nth_block:
  assumes "distinct ids" "k < length ids" "i < length ids" "ids ! k < length bs"
  shows "bs[ids ! k := v] ! (ids ! i) = (if i = k then v else bs ! (ids ! i))"
  using assms by (simp add: nth_list_update nth_eq_iff_index_eq)

lemma ring_ok_update:
  assumes "\<And>c. blk_next (f c) = blk_next c"
  shows "ring_ok ids (bs[p := f (bs ! p)]) \<longleftrightarrow> ring_ok ids bs"
proof -
  have "blk_next (bs[p := f (bs ! p)] ! i) = blk_next (bs ! i)" for i
    using assms by (cases "p < length bs") (simp_all add: nth_list_update list_update_beyond)
  then show ?thesis unfolding ring_ok_def by simp
qed

section \<open>Finding a block\<close>

text \<open>The entries of an index that a consumer may follow: from its block \<open>k0\<close> to block \<open>m - 1\<close>, which stands in
  the slot \<open>g\<close>. The index may be an old one, its front one that was read some time ago.\<close>

definition window :: "u64 \<Rightarrow> nat list \<Rightarrow> nat \<Rightarrow> nat \<Rightarrow> nat \<Rightarrow> u64 \<Rightarrow> block_index \<Rightarrow> bool" where
  "window b ids k0 m p g bi \<longleftrightarrow> p \<le> 58 \<and> bi_size bi = 2 ^ p \<and> k0 < m \<and> m \<le> length ids \<and>
     (\<forall>k. k0 \<le> k \<and> k < m \<longrightarrow>
        bi_entries bi ! unat (take_bit p (g - of_nat (m - 1 - k))) = Some (32 * (b + of_nat k), ids ! k))"

lemma window_base:
  "window b ids k0 m p g bi \<Longrightarrow>
   bi_entries bi ! unat (take_bit p g) = Some (32 * (b + of_nat (m - 1)), ids ! (m - 1))"
  unfolding window_def by (auto dest!: spec [of _ "m - 1"])

lemma window_block:
  assumes w: "window b ids (j div 32) m p g bi"
  shows "bi_entries bi ! unat (block_slot (32 * b + of_nat j) (take_bit p g) (32 * (b + of_nat (m - 1))) bi) =
    Some (32 * (b + of_nat (j div 32)), ids ! (j div 32))"
proof -
  let ?k = "j div 32"
  have p: "p \<le> 58" and size: "bi_size bi = 2 ^ p" and km: "?k < m" using w unfolding window_def by blast+
  let ?y = "of_nat ?k - of_nat (m - 1) :: u64"
  have d: "32 * (b + of_nat ?k) - 32 * (b + of_nat (m - 1)) = 32 * ?y" by (simp add: algebra_simps)
  have "(take_bit p g + (32 * ?y) div 32) AND (bi_size bi - 1) = take_bit p (take_bit p g + ?y)"
    unfolding size and_size by (rule unsigned_distance) (use p in simp)
  also have "\<dots> = take_bit p (g + ?y)" using p by (simp add: take_bit_plus_left)
  also have "g + ?y = g - of_nat (m - 1 - ?k)" using km by (simp add: of_nat_diff algebra_simps)
  finally have "block_slot (32 * b + of_nat j) (take_bit p g) (32 * (b + of_nat (m - 1))) bi =
      take_bit p (g - of_nat (m - 1 - ?k))"
    unfolding block_slot_def Let_def base_index d .
  then show ?thesis using w km unfolding window_def by simp
qed

lemma view_window:
  assumes q: "queue_view b ids ne p h t xs q" and bi: "q_index q = Some bi" and m: "k0 < m" "m \<le> ne"
  shows "window b ids k0 m p (q_front q - of_nat (ne - (m - 1))) bi"
proof -
  have n: "ne \<le> length ids" and e: "entries_ok b ids ne p q" and i: "index_ok p q"
    using q unfolding queue_view_def ring_state_def by blast+
  have "bi_entries bi ! unat (take_bit p (q_front q - of_nat (ne - (m - 1)) - of_nat (m - 1 - k))) =
      Some (32 * (b + of_nat k), ids ! k)" if "k < m" for k
  proof -
    have "ne - (m - 1) + (m - 1 - k) = ne - k" using that m by simp
    then have slot: "q_front q - of_nat (ne - (m - 1)) - of_nat (m - 1 - k) = q_front q - of_nat (ne - k)"
      by (metis diff_diff_add of_nat_add)
    have "k < ne" using that m by simp
    then show ?thesis using e bi unfolding entries_ok_def slot by auto
  qed
  then show ?thesis using n m i bi unfolding window_def index_ok_def by auto
qed

lemma view_index:
  assumes "queue_view b ids ne p h t xs q" "0 < ne"
  obtains bi where "q_index q = Some bi" "bi_front bi = take_bit p (q_front q - 1)"
proof -
  have "entries_ok b ids ne p q" "ne \<le> length ids" "front_ok p q" using assms unfolding queue_view_def by blast+
  then obtain bi where "q_index q = Some bi" "bi_front bi = take_bit p (q_front q - 1)"
    using assms(2) unfolding entries_ok_def front_ok_def by (fastforce dest: spec [of _ 0])
  then show ?thesis by (rule that)
qed

lemma block_of_index:
  assumes q: "queue_view b ids ne p h t xs q" and j: "j < 32 * ne"
  shows "block_of (32 * b + of_nat j) q = Some (ids ! (j div 32))"
proof -
  have k: "j div 32 < ne" using j by auto
  obtain bi where bi: "q_index q = Some bi" "bi_front bi = take_bit p (q_front q - 1)"
    using view_index [OF q] k by auto
  have "ne - (ne - 1) = 1" using k by arith
  then have w: "window b ids (j div 32) ne p (q_front q - 1) bi" using view_window [OF q bi(1) k] by simp
  show ?thesis unfolding block_of_def using bi window_base [OF w] window_block [OF w] by simp
qed

section \<open>Taking an item\<close>

lemma indices_less:
  assumes "h \<le> t" "t < h + 2 ^ 63"
  shows "circular_less_than (32 * b + of_nat h) (32 * b + of_nat t) \<longleftrightarrow> h < t"
proof -
  have "32 * b + of_nat t = 32 * b + of_nat h + (of_nat (t - h) :: u64)" using assms(1) by (simp add: of_nat_diff)
  moreover have "t - h < 2 ^ 63" using assms(2) by simp
  ultimately show ?thesis using circular_less by (metis zero_less_diff)
qed

lemma heads_less:
  assumes "q_headIndex q = 32 * b + of_nat h" "q_tailIndex q = 32 * b + of_nat t" "h \<le> t" "t < h + 2 ^ 63"
  shows "circular_less_than (q_headIndex q) (q_tailIndex q) \<longleftrightarrow> h < t"
  unfolding assms(1,2) using assms(3,4) by (rule indices_less)

lemma flags_ok_take:
  assumes "flags_ok ids h bs" "distinct ids" "h < 32 * length ids" "ids ! (h div 32) < length bs"
    "length (blk_empty (bs ! (ids ! (h div 32)))) = 32"
    "blk_empty c = (blk_empty (bs ! (ids ! (h div 32))))[31 - h mod 32 := True]"
  shows "flags_ok ids (Suc h) (bs[ids ! (h div 32) := c])"
  unfolding flags_ok_def
proof (intro allI impI)
  fix j assume j: "j < 32 * length ids"
  have k: "h div 32 < length ids" "j div 32 < length ids" using assms(3) j by auto
  have old: "blk_empty (bs ! (ids ! (j div 32))) ! (31 - j mod 32) \<longleftrightarrow> j < h"
    using assms(1) j unfolding flags_ok_def by blast
  show "blk_empty (bs[ids ! (h div 32) := c] ! (ids ! (j div 32))) ! (31 - j mod 32) \<longleftrightarrow> j < Suc h"
  proof (cases "j div 32 = h div 32")
    case same: True
    show ?thesis
    proof (cases "j mod 32 = h mod 32")
      case True
      then have "j = h" using same by (metis div_mult_mod_eq)
      then show ?thesis using assms k by (simp add: nth_block)
    next
      case False
      then have "j \<noteq> h" by auto
      moreover have "31 - j mod 32 \<noteq> 31 - h mod 32" using False by (auto simp: Suc_le_eq diff_eq_diff_eq)
      ultimately show ?thesis using old assms k same by (auto simp: nth_block)
    qed
  next
    case False
    then have "j \<noteq> h" by auto
    then show ?thesis using old assms(2,4) k False by (auto simp: nth_block)
  qed
qed

lemma items_ok_take:
  assumes "items_ok ids h (x # xs) bs" "distinct ids" "h + length (x # xs) \<le> 32 * length ids"
    "ids ! (h div 32) < length bs"
    "blk_elements c = (blk_elements (bs ! (ids ! (h div 32))))[h mod 32 := None]"
  shows "items_ok ids (Suc h) xs (bs[ids ! (h div 32) := c])"
  unfolding items_ok_def
proof (intro allI impI)
  fix i assume i: "i < length xs"
  let ?j = "Suc h + i"
  have k: "h div 32 < length ids" "?j div 32 < length ids" using assms(3) i by auto
  have old: "blk_elements (bs ! (ids ! (?j div 32))) ! (?j mod 32) = Some (xs ! i)"
    using assms(1) i unfolding items_ok_def by (auto dest: spec [of _ "Suc i"])
  show "blk_elements (bs[ids ! (h div 32) := c] ! (ids ! (?j div 32))) ! (?j mod 32) = Some (xs ! i)"
  proof (cases "?j div 32 = h div 32")
    case True
    have "?j mod 32 \<noteq> h mod 32"
    proof
      assume "?j mod 32 = h mod 32"
      then have "?j = h" using True by (metis div_mult_mod_eq)
      then show False by simp
    qed
    then show ?thesis using old assms k True by (simp add: nth_block)
  next
    case False
    then show ?thesis using old assms(2,4) k by (simp add: nth_block)
  qed
qed

text \<open>The end of a removal: the slot is empty and marked so.\<close>

lemma take_view:
  assumes q: "queue_view b ids ne p h t (x # xs) q"
  shows "queue_view b ids ne p (Suc h) t xs
           (on_block (ids ! (h div 32)) (block_set_empty (32 * b + of_nat h) \<circ> block_put (32 * b + of_nat h) None) q)"
    and "block_at (32 * b + of_nat h) (q_blocks q ! (ids ! (h div 32))) = Some x"
    and "ids ! (h div 32) < length (q_blocks q)"
proof -
  have s: "ring_state b ids p h t (x # xs) q" and n: "ne \<le> length ids" "t \<le> 32 * ne"
    using q unfolding queue_view_def by blast+
  have r: "ring_ok ids (q_blocks q)" and f: "flags_ok ids h (q_blocks q)" and i: "items_ok ids h (x # xs) (q_blocks q)"
    and pool: "pool_ok ids q" and ht: "h + length (x # xs) = t"
    using s unfolding ring_state_def by blast+
  have h: "h < 32 * length ids" "h < t" using n ht by auto
  define k where "k = ids ! (h div 32)"
  have d: "distinct ids" using pool unfolding pool_ok_def by auto
  have "h div 32 < length ids" using h by auto
  then have kb: "k < length (q_blocks q)" using pool unfolding pool_ok_def k_def by auto
  then show "ids ! (h div 32) < length (q_blocks q)" unfolding k_def .
  have len: "length (blk_empty (q_blocks q ! k)) = 32" using pool kb unfolding pool_ok_def by auto
  let ?i = "32 * b + of_nat h :: u64"
  show "block_at ?i (q_blocks q ! (ids ! (h div 32))) = Some x"
    using i unfolding items_ok_def block_at_def block_offset_index by (auto dest: spec [of _ 0])
  let ?f = "block_set_empty ?i \<circ> block_put ?i None"
  let ?c = "?f (q_blocks q ! k)"
  have ce: "blk_empty ?c = (blk_empty (q_blocks q ! k))[31 - h mod 32 := True]"
    "blk_elements ?c = (blk_elements (q_blocks q ! k))[h mod 32 := None]"
    by (simp_all add: block_set_empty_def block_put_def block_offset_index)
  have "ring_ok ids ((q_blocks q)[k := ?c])"
    using r by (subst ring_ok_update) (simp_all add: block_set_empty_def block_put_def)
  moreover have "flags_ok ids (Suc h) ((q_blocks q)[k := ?c])"
    using flags_ok_take [OF f d h(1)] kb len ce(1) unfolding k_def by blast
  moreover have "items_ok ids (Suc h) xs ((q_blocks q)[k := ?c])"
    using items_ok_take [OF i d] n ht kb ce(2) unfolding k_def by simp
  moreover have "pool_ok ids (on_block k ?f q)"
    using pool kb by (intro pool_ok_on_block) (simp_all add: block_set_empty_def block_put_def)
  ultimately show "queue_view b ids ne p (Suc h) t xs (on_block (ids ! (h div 32)) ?f q)"
    using q unfolding queue_view_def ring_state_def k_def by (simp add: index_ok_def entries_ok_def front_ok_def)
qed

text \<open>The predicates do not look at the heads.\<close>

lemma ring_state_heads [simp]:
  "ring_state b ids p h t xs (q\<lparr>q_headIndex := a\<rparr>) \<longleftrightarrow> ring_state b ids p h t xs q"
  "ring_state b ids p h t xs (q\<lparr>q_optimistic := a\<rparr>) \<longleftrightarrow> ring_state b ids p h t xs q"
  by (simp_all add: ring_state_def index_ok_def pool_ok_def)

lemma queue_view_heads [simp]:
  "queue_view b ids ne p h t xs (q\<lparr>q_headIndex := a\<rparr>) \<longleftrightarrow> queue_view b ids ne p h t xs q"
  "queue_view b ids ne p h t xs (q\<lparr>q_optimistic := a\<rparr>) \<longleftrightarrow> queue_view b ids ne p h t xs q"
  by (simp_all add: queue_view_def entries_ok_def front_ok_def)

text \<open>Taking the oldest item, and the answer of an empty queue.\<close>

lemma dequeue_item:
  assumes q: "queue_state b ids p h t (x # xs) q" and small: "t < 2 ^ 63"
  shows "\<exists>q'. producer_dequeue q = Some (Some x, q') \<and> queue_state b ids p (Suc h) t xs q'"
proof -
  let ?i = "32 * b + of_nat h :: u64" and ?k = "ids ! (h div 32)"
  have v: "queue_view b ids (length ids) p h t (x # xs) q" and full: "ring_full ids t"
    and head: "q_headIndex q = ?i" and opt: "q_optimistic q - q_overcommit q = q_headIndex q"
    using q unfolding queue_state_def heads_ok_def by blast+
  have t: "t \<le> 32 * length ids" and ht: "h + length (x # xs) = t" and tail: "q_tailIndex q = 32 * b + of_nat t"
    using v unfolding queue_view_def ring_state_def by blast+
  have h: "h < 32 * length ids" "h < t" using t ht by auto
  have less: "circular_less_than (q_optimistic q - q_overcommit q) (q_tailIndex q)"
    unfolding opt using heads_less [OF head tail] h small by simp
  let ?q2 = "q\<lparr>q_optimistic := q_optimistic q + 1, q_headIndex := ?i + 1\<rparr>"
  have blk: "block_of ?i ?q2 = Some ?k" using block_of_index [OF v h(1)] by (simp add: block_of_def)
  let ?f = "block_set_empty ?i \<circ> block_put ?i None"
  have "producer_dequeue q = Some (Some x, on_block ?k ?f ?q2)"
    using less blk take_view(2) [OF v] unfolding producer_dequeue_def by (simp add: Let_def head del: o_apply)
  moreover have "queue_view b ids (length ids) p (Suc h) t xs (on_block ?k ?f ?q2)"
    using v by (intro take_view(1)) simp
  moreover have "heads_ok b (Suc h) (on_block ?k ?f ?q2)" using opt head by (simp add: heads_ok_def algebra_simps)
  ultimately show ?thesis using full unfolding queue_state_def by blast
qed

lemma dequeue_empty:
  assumes q: "queue_state b ids p h t [] q"
  shows "producer_dequeue q = Some (None, q)"
proof -
  have "q_headIndex q = 32 * b + of_nat h" "q_tailIndex q = 32 * b + of_nat t" "h = t"
    and opt: "q_optimistic q - q_overcommit q = q_headIndex q"
    using q unfolding queue_state_def queue_view_def ring_state_def heads_ok_def by auto
  then have "\<not> circular_less_than (q_headIndex q) (q_tailIndex q)" using heads_less by fastforce
  then show ?thesis using opt unfolding producer_dequeue_def by (simp add: Let_def)
qed

section \<open>Storing an item\<close>

lemma flags_ok_update:
  assumes "\<And>c. blk_empty (f c) = blk_empty c"
  shows "flags_ok ids h (bs[k := f (bs ! k)]) \<longleftrightarrow> flags_ok ids h bs"
proof -
  have "blk_empty (bs[k := f (bs ! k)] ! i) = blk_empty (bs ! i)" for i
    using assms by (cases "k < length bs") (simp_all add: nth_list_update list_update_beyond)
  then show ?thesis unfolding flags_ok_def by simp
qed

lemma elements_update:
  assumes "items_ok ids h xs bs" "distinct ids" "h + length xs \<le> 32 * length ids" "k < length ids" "ids ! k < length bs"
    "\<And>i. i < length xs \<Longrightarrow> (h + i) div 32 = k \<Longrightarrow>
       blk_elements c ! ((h + i) mod 32) = blk_elements (bs ! (ids ! k)) ! ((h + i) mod 32)"
  shows "items_ok ids h xs (bs[ids ! k := c])"
  unfolding items_ok_def
proof (intro allI impI)
  fix i assume i: "i < length xs"
  let ?j = "h + i"
  have j: "?j div 32 < length ids" using i assms(3) by auto
  have "blk_elements (bs ! (ids ! (?j div 32))) ! (?j mod 32) = Some (xs ! i)"
    using assms(1) i unfolding items_ok_def by blast
  then show "blk_elements (bs[ids ! k := c] ! (ids ! (?j div 32))) ! (?j mod 32) = Some (xs ! i)"
    using assms(2,4-6) i j by (auto simp: nth_block)
qed

definition slot_holds :: "nat list \<Rightarrow> nat \<Rightarrow> 'a \<Rightarrow> 'a cqueue \<Rightarrow> bool" where
  "slot_holds ids t x q \<longleftrightarrow> blk_elements (q_blocks q ! (ids ! (t div 32))) ! (t mod 32) = Some x"

text \<open>The item is constructed behind the others, where no consumer looks yet; with the new tail it is one of them.\<close>

lemma put_item_view:
  assumes v: "queue_view b ids ne p h t xs q" and t: "t < 32 * length ids" "32 * length ids \<le> t + 32"
    and tail: "tail = q_tailIndex q"
  obtains bs where "put_item tail x q = Some (q\<lparr>q_blocks := bs\<rparr>)" "queue_view b ids ne p h t xs (q\<lparr>q_blocks := bs\<rparr>)"
    "slot_holds ids t x (q\<lparr>q_blocks := bs\<rparr>)"
proof -
  let ?q = "on_block (last ids) (block_put tail (Some x)) q"
  have s: "ring_state b ids p h t xs q" using v unfolding queue_view_def by blast
  have r: "ring_ok ids (q_blocks q)" and f: "flags_ok ids h (q_blocks q)" and i: "items_ok ids h xs (q_blocks q)"
    and pool: "pool_ok ids q" and ht: "h + length xs = t" and ti: "q_tailIndex q = 32 * b + of_nat t"
    using s unfolding ring_state_def by blast+
  have n: "ids \<noteq> []" "t div 32 = length ids - 1" using t by auto
  then have last: "last ids = ids ! (t div 32)" and k: "t div 32 < length ids" by (simp_all add: last_conv_nth)
  have d: "distinct ids" using pool unfolding pool_ok_def by auto
  have kb: "ids ! (t div 32) < length (q_blocks q)" using pool nth_mem [OF k] unfolding pool_ok_def by auto
  have len: "length (blk_elements (q_blocks q ! (ids ! (t div 32)))) = 32" using pool kb unfolding pool_ok_def by auto
  let ?c = "block_put tail (Some x) (q_blocks q ! last ids)"
  have ce: "blk_elements ?c = (blk_elements (q_blocks q ! last ids))[t mod 32 := Some x]"
    unfolding tail ti by (simp add: block_put_def block_offset_index)
  have "ring_ok ids ((q_blocks q)[last ids := ?c])" using r by (subst ring_ok_update) (simp_all add: block_put_def)
  moreover have "flags_ok ids h ((q_blocks q)[last ids := ?c])" using f by (subst flags_ok_update) (simp_all add: block_put_def)
  moreover have "items_ok ids h xs ((q_blocks q)[last ids := ?c])"
    unfolding last
  proof (rule elements_update [OF i d _ k kb])
    fix m assume "m < length xs" "(h + m) div 32 = t div 32"
    moreover from this(1) have "h + m \<noteq> t" using ht by simp
    ultimately have "(h + m) mod 32 \<noteq> t mod 32" by (metis div_mult_mod_eq)
    then show "blk_elements (block_put tail (Some x) (q_blocks q ! (ids ! (t div 32)))) ! ((h + m) mod 32) =
        blk_elements (q_blocks q ! (ids ! (t div 32))) ! ((h + m) mod 32)"
      using ce unfolding last by simp
  qed (use ht t in simp)
  moreover have "pool_ok ids ?q" using pool kb unfolding last by (intro pool_ok_on_block) (simp_all add: block_put_def)
  ultimately have "queue_view b ids ne p h t xs ?q"
    using v unfolding queue_view_def ring_state_def by (simp add: index_ok_def entries_ok_def front_ok_def)
  moreover have "slot_holds ids t x ?q" using ce kb len unfolding slot_holds_def last by simp
  moreover have "put_item tail x q = Some ?q" using s n unfolding ring_state_def put_item_def by simp
  ultimately show ?thesis using that unfolding on_block_def by blast
qed

lemma store_view:
  assumes v: "queue_view b ids ne p h t xs q" and x: "slot_holds ids t x q" and t: "t < 32 * ne"
    and tail: "tail = q_tailIndex q"
  shows "queue_view b ids ne p h (Suc t) (xs @ [x]) (q\<lparr>q_tailIndex := 1 + tail\<rparr>)"
proof -
  have "items_ok ids h xs (q_blocks q)" and "h + length xs = t" and ti: "q_tailIndex q = 32 * b + of_nat t"
    using v unfolding queue_view_def ring_state_def by blast+
  then have "items_ok ids h (xs @ [x]) (q_blocks q)"
    using x unfolding items_ok_def slot_holds_def by (auto simp: nth_append less_Suc_eq)
  then show ?thesis using v t ti unfolding queue_view_def ring_state_def tail
    by (simp add: index_ok_def pool_ok_def entries_ok_def front_ok_def)
qed

section \<open>Entering a block in the index\<close>

lemma unat_power: "p < 64 \<Longrightarrow> unat (2 ^ p :: u64) = 2 ^ p"
proof -
  assume "p < 64"
  then have "(2 :: nat) ^ p < 2 ^ 64" by (intro power_strict_increasing) auto
  moreover have "(2 ^ p :: u64) = of_nat (2 ^ p)" by simp
  ultimately show ?thesis by (simp only: unat_of_nat) simp
qed

definition entry_written :: "u64 \<Rightarrow> nat list \<Rightarrow> nat \<Rightarrow> 'a cqueue \<Rightarrow> bool" where
  "entry_written b ids ne q \<longleftrightarrow>
     (\<exists>bi. q_index q = Some bi \<and> bi_entries bi ! unat (q_front q) = Some (32 * (b + of_nat ne), ids ! ne))"

text \<open>The slot of the new entry is not in use; the front makes the entry visible.\<close>

lemma write_entry_view:
  assumes v: "queue_view b ids ne p h t xs q" and n: "length ids = Suc ne" and bi: "q_index q = Some bi"
    and tail: "tail = 32 * (b + of_nat ne)"
  obtains es where "write_entry tail q = Some (q\<lparr>q_index := Some (bi\<lparr>bi_entries := es\<rparr>)\<rparr>)"
    "queue_view b ids ne p h t xs (q\<lparr>q_index := Some (bi\<lparr>bi_entries := es\<rparr>)\<rparr>)"
    "entry_written b ids ne (q\<lparr>q_index := Some (bi\<lparr>bi_entries := es\<rparr>)\<rparr>)"
proof -
  let ?f = "q_front q"
  define es where "es = (bi_entries bi)[unat ?f := Some (tail, last ids)]"
  let ?q = "q\<lparr>q_index := Some (bi\<lparr>bi_entries := es\<rparr>)\<rparr>"
  have s: "ring_state b ids p h t xs q" and e: "entries_ok b ids ne p q"
    using v unfolding queue_view_def by blast+
  have i: "index_ok p q" and np: "length ids \<le> 2 ^ p" using s unfolding ring_state_def by blast+
  have p: "p \<le> 58" and front: "take_bit p ?f = ?f" and len: "length (bi_entries bi) = 2 ^ p"
    using i bi unfolding index_ok_def by auto
  have fl: "unat ?f < 2 ^ p" by (metis front unat_take_bit mod_less_divisor zero_less_power zero_less_numeral)
  have "ids \<noteq> []" using n by auto
  then have block: "q_tailBlock q = Some (last ids)" and last: "last ids = ids ! ne"
    using s n unfolding ring_state_def by (simp_all add: last_conv_nth)
  have "write_entry tail q = Some ?q" unfolding write_entry_def bi block es_def by simp
  moreover have "entries_ok b ids ne p ?q"
    unfolding entries_ok_def
  proof (intro allI impI)
    fix k assume k': "k < ne"
    then have "ne - k \<noteq> 0" "ne - k < 2 ^ p" using k' n np by auto
    then have "take_bit p (?f - of_nat (ne - k)) \<noteq> ?f" using take_bit_back_eq [OF front] p by fastforce
    then have "unat (take_bit p (?f - of_nat (ne - k))) \<noteq> unat ?f" by (simp add: word_unat_eq_iff)
    moreover have "bi_entries bi ! unat (take_bit p (?f - of_nat (ne - k))) = Some (32 * (b + of_nat k), ids ! k)"
      using e bi k' unfolding entries_ok_def by auto
    ultimately show "\<exists>bi. q_index ?q = Some bi \<and>
        bi_entries bi ! unat (take_bit p (q_front ?q - of_nat (ne - k))) = Some (32 * (b + of_nat k), ids ! k)"
      unfolding es_def by simp
  qed
  then have "queue_view b ids ne p h t xs ?q"
    using v bi unfolding queue_view_def ring_state_def
    by (auto simp: index_ok_def front_ok_def pool_ok_def es_def)
  moreover have "entry_written b ids ne ?q" using fl len last tail unfolding entry_written_def es_def by simp
  ultimately show ?thesis by (rule that)
qed

lemma publish_front_view:
  assumes v: "queue_view b ids ne p h t xs q" and n: "length ids = Suc ne" and w: "entry_written b ids ne q"
    and bi: "q_index q = Some bi"
  shows "publish_front q = Some (q\<lparr>q_index := Some (bi\<lparr>bi_front := q_front q\<rparr>), q_front := take_bit p (q_front q + 1)\<rparr>)"
    and "queue_view b ids (Suc ne) p h t xs
           (q\<lparr>q_index := Some (bi\<lparr>bi_front := q_front q\<rparr>), q_front := take_bit p (q_front q + 1)\<rparr>)"
proof -
  let ?f = "q_front q" and ?f' = "take_bit p (q_front q + 1)"
  let ?q = "q\<lparr>q_index := Some (bi\<lparr>bi_front := ?f\<rparr>), q_front := ?f'\<rparr>"
  have s: "ring_state b ids p h t xs q" and e: "entries_ok b ids ne p q" and t: "t \<le> 32 * ne"
    using v unfolding queue_view_def by blast+
  have i: "index_ok p q" using s unfolding ring_state_def by blast
  have p: "p \<le> 58" and size: "q_index_size q = 2 ^ p" and front: "take_bit p ?f = ?f"
    using i unfolding index_ok_def by blast+
  show "publish_front q = Some ?q" unfolding publish_front_def bi size and_size by simp
  have prev: "take_bit p (?f' - of_nat (Suc c)) = take_bit p (?f - of_nat c)" for c
  proof -
    have "take_bit p (?f' + - of_nat (Suc c)) = take_bit p (?f + 1 + - of_nat (Suc c))"
      using p by (intro take_bit_plus_left) simp
    also have "?f + 1 + - of_nat (Suc c) = ?f - of_nat c" by simp
    finally show ?thesis by (simp only: diff_conv_add_uminus)
  qed
  have "bi_entries bi ! unat (take_bit p (?f' - of_nat (Suc ne - k))) = Some (32 * (b + of_nat k), ids ! k)"
    if k: "k < Suc ne" for k
  proof (cases "k = ne")
    case True
    then show ?thesis using w bi prev [of 0] front unfolding entry_written_def by simp
  next
    case False
    then have "bi_entries bi ! unat (take_bit p (?f - of_nat (ne - k))) = Some (32 * (b + of_nat k), ids ! k)"
      using e bi k n unfolding entries_ok_def by auto
    moreover have "Suc ne - k = Suc (ne - k)" using k by simp
    ultimately show ?thesis using prev [of "ne - k"] by simp
  qed
  then have "entries_ok b ids (Suc ne) p ?q" using n unfolding entries_ok_def by simp
  moreover have "front_ok p ?q" using prev [of 0] front unfolding front_ok_def by simp
  moreover have "index_ok p ?q" using i bi p unfolding index_ok_def by simp
  ultimately show "queue_view b ids (Suc ne) p h t xs ?q"
    using s n t unfolding queue_view_def ring_state_def by (simp add: pool_ok_def)
qed

section \<open>A larger index\<close>

lemma copy_entries_window:
  assumes "take_bit p front = front" "p \<le> 58" "0 < m" "m \<le> 2 ^ p" "m \<le> n"
  shows "copy_entries n es (2 ^ p - 1) front (take_bit p (front - of_nat m)) =
           map (\<lambda>k. es ! unat (take_bit p (front - of_nat (m - k)))) [0..<m]"
  using assms(3-)
proof (induction m arbitrary: n)
  case (Suc m)
  then obtain n' where n: "n = Suc n'" "m \<le> n'" by (cases n) auto
  let ?w = "\<lambda>m. map (\<lambda>k. es ! unat (take_bit p (front - of_nat (m - k)))) [0..<m]"
  let ?i = "take_bit p (front - of_nat (Suc m))"
  have "(?i + 1) AND (2 ^ p - 1) = take_bit p (front - of_nat (Suc m) + 1)"
    unfolding and_size using assms(2) by (intro take_bit_plus_left) simp
  then have nxt: "(?i + 1) AND (2 ^ p - 1) = take_bit p (front - of_nat m)" by simp
  have win: "?w (Suc m) = es ! unat ?i # ?w m" unfolding map_upt_Suc by simp
  show ?case
  proof (cases "m = 0")
    case True
    then show ?thesis using nxt assms(1) win n by (simp add: Let_def)
  next
    case False
    then have "take_bit p (front - of_nat m) \<noteq> front"
      using take_bit_back_eq [OF assms(1)] assms(2) Suc.prems by fastforce
    then show ?thesis using Suc.IH [of n'] n nxt False Suc.prems unfolding win by (simp add: Let_def)
  qed
qed simp

lemma unat_small: "n < 2 ^ 64 \<Longrightarrow> unat (of_nat n :: u64) = n"
  by (simp add: unat_of_nat)

lemma copied_entries_state:
  assumes s: "ring_state b ids p h t xs q" and e: "entries_ok b ids (length ids) p q" and small: "length ids < 2 ^ 57"
  shows "length (copied_entries q) = length ids"
    and "k < length ids \<Longrightarrow> copied_entries q ! k = Some (32 * (b + of_nat k), ids ! k)"
proof -
  let ?n = "length ids"
  have i: "index_ok p q" and slots: "q_slots_used q = of_nat ?n" and np: "?n \<le> 2 ^ p"
    using s unfolding ring_state_def by blast+
  have size: "q_index_size q = 2 ^ p" and front: "take_bit p (q_front q) = q_front q" and p: "p \<le> 58"
    using i unfolding index_ok_def by blast+
  have n0: "q_slots_used q = 0 \<longleftrightarrow> ids = []"
    using small unat_small [of ?n] unfolding slots by (simp add: unat_eq_0 [symmetric])
  have "length (copied_entries q) = ?n \<and>
        (\<forall>k<?n. copied_entries q ! k = Some (32 * (b + of_nat k), ids ! k))"
  proof (cases "ids = []")
    case False
    then obtain bi where bi: "q_index q = Some bi" using e unfolding entries_ok_def by fastforce
    then have "copied_entries q = map (\<lambda>k. bi_entries bi ! unat (take_bit p (q_front q - of_nat (?n - k)))) [0..<?n]"
      using False n0 np p copy_entries_window [OF front p, of ?n "2 ^ p"]
      unfolding copied_entries_def Let_def size slots and_size by (simp add: unat_power)
    then show ?thesis using e bi unfolding entries_ok_def by auto
  qed (simp add: copied_entries_def n0)
  then show "length (copied_entries q) = ?n"
    "k < ?n \<Longrightarrow> copied_entries q ! k = Some (32 * (b + of_nat k), ids ! k)" by blast+
qed

lemma index_may_double:
  assumes "index_ok p q" "q_index q = None \<or> of_nat n = q_index_size q" "n < 2 ^ 57"
  shows "p \<le> 57"
proof (cases "q_index q = None")
  case False
  then have "unat (of_nat n :: u64) = unat (2 ^ p :: u64)" using assms(1,2) unfolding index_ok_def by auto
  moreover have "p \<le> 58" using assms(1) unfolding index_ok_def by blast
  ultimately have "n = 2 ^ p" using assms(3) unat_small [of n] by (simp add: unat_power)
  then have "(2 :: nat) ^ p < 2 ^ 57" using assms(3) by simp
  then show ?thesis by (simp only: power_strict_increasing_iff)
qed (use assms(1) in \<open>simp add: index_ok_def\<close>)

lemma take_bit_small:
  assumes "m < 2 ^ p" "m < 2 ^ 64"
  shows "take_bit p (of_nat m) = (of_nat m :: u64)"
  using assms unat_small [of m] by (simp add: word_unat_eq_iff unat_take_bit)

text \<open>The result of the doubling: the entries start at the first slot of the new index.\<close>

lemma doubled_index_view:
  assumes q: "queue_view b ids (length ids) p h t xs q" and small: "length ids < 2 ^ 57" and p: "p \<le> 57"
    and bi: "bi = \<lparr>bi_size = 2 ^ Suc p, bi_front = of_nat (length ids) - 1,
      bi_entries = copied_entries q @ replicate (2 ^ Suc p - length ids) None\<rparr>"
  shows "queue_view b ids (length ids) (Suc p) h t xs
           (q\<lparr>q_index_size := 2 ^ Suc p, q_front := of_nat (length ids), q_index := Some bi\<rparr>)"
    (is "queue_view _ _ _ _ _ _ _ ?q")
proof -
  let ?n = "length ids"
  have s: "ring_state b ids p h t xs q" and e: "entries_ok b ids (length ids) p q" using q unfolding queue_view_def by blast+
  note old = copied_entries_state [OF s e small]
  have "?n \<le> 2 ^ p" using s unfolding ring_state_def by blast
  then have lt: "?n < 2 ^ Suc p" by (rule le_less_trans) simp
  have tb: "take_bit (Suc p) (of_nat m) = (of_nat m :: u64)" if "m \<le> ?n" for m
    using that lt small by (intro take_bit_small) auto
  have "entries_ok b ids ?n (Suc p) ?q"
    unfolding entries_ok_def
  proof (intro allI impI)
    fix k assume k: "k < ?n"
    have "of_nat ?n - of_nat (?n - k) = (of_nat k :: u64)" using k by (simp add: of_nat_diff)
    moreover have "unat (of_nat k :: u64) = k" using k small by (intro unat_small) simp
    ultimately show "\<exists>bi. q_index ?q = Some bi \<and>
      bi_entries bi ! unat (take_bit (Suc p) (q_front ?q - of_nat (?n - k))) = Some (32 * (b + of_nat k), ids ! k)"
      using tb [of k] k old by (simp add: bi nth_append)
  qed
  moreover have "index_ok (Suc p) ?q" using p tb [of ?n] old lt unfolding index_ok_def by (simp add: bi)
  moreover have "front_ok (Suc p) ?q" if "0 < ?n"
  proof -
    have "of_nat ?n - 1 = (of_nat (?n - 1) :: u64)" using that by (simp add: of_nat_diff Suc_le_eq)
    then show ?thesis using tb [of "?n - 1"] unfolding front_ok_def by (simp add: bi)
  qed
  ultimately show ?thesis
    using q lt unfolding queue_view_def ring_state_def by (simp add: pool_ok_def)
qed

lemma new_block_index_view:
  assumes q: "queue_view b ids (length ids) p h t xs q" and full: "q_index q = None \<or> q_slots_used q = q_index_size q"
    and small: "length ids < 2 ^ 57"
  shows "\<exists>ix f. new_block_index True (q_slots_used q) q =
      (True, q\<lparr>q_index_size := 2 ^ Suc p, q_front := f, q_index := Some ix\<rparr>) \<and>
    queue_view b ids (length ids) (Suc p) h t xs (q\<lparr>q_index_size := 2 ^ Suc p, q_front := f, q_index := Some ix\<rparr>) \<and>
    length ids < 2 ^ Suc p"
proof -
  have s: "ring_state b ids p h t xs q" and e: "entries_ok b ids (length ids) p q" using q unfolding queue_view_def by blast+
  have i: "index_ok p q" and slots: "q_slots_used q = of_nat (length ids)" and np: "length ids \<le> 2 ^ p"
    using s unfolding ring_state_def by blast+
  have p: "p \<le> 57" using index_may_double [OF i] full small unfolding slots by blast
  have "push_bit 1 (q_index_size q) = 2 ^ Suc p" using i unfolding index_ok_def by (simp add: push_bit_eq_mult)
  moreover have "unat (2 ^ Suc p :: u64) = 2 ^ Suc p" using p by (intro unat_power) simp
  ultimately obtain bi where "new_block_index True (q_slots_used q) q =
        (True, q\<lparr>q_index_size := 2 ^ Suc p, q_front := of_nat (length ids), q_index := Some bi\<rparr>)"
      and bi: "bi = \<lparr>bi_size = 2 ^ Suc p, bi_front = of_nat (length ids) - 1,
        bi_entries = copied_entries q @ replicate (2 ^ Suc p - length ids) None\<rparr>"
    unfolding new_block_index_def Let_def copied_entries_state(1) [OF s e small] using slots by simp
  moreover have "length ids < 2 ^ Suc p" using np by (rule le_less_trans) simp
  ultimately show ?thesis using doubled_index_view [OF q small p bi] by blast
qed

end
