(* ===== verification/Block_Queue_Ring.thy ===== *)
theory Block_Queue_Ring
  imports Block_Queue_Inv
begin

text \<open>
  Growth and reuse of the ring: a block from the pool or the memory, the block ahead when it is
  empty, and the whole operation \<^const>\<open>producer_enqueue\<close> on the invariant.
\<close>

unbundle bit_operations_syntax

section \<open>A block for new items\<close>

text \<open>A block from the pool, the free list or the memory is not part of the ring.\<close>

lemma requisition_block_state:
  assumes pool: "pool_ok ids q"
  shows "(requisition_block ok q = (None, q) \<and> \<not> ok) \<or>
    (\<exists>i bs n fl. requisition_block ok q = (Some i, q\<lparr>q_blocks := bs, q_pool_index := n, q_free_list := fl\<rparr>) \<and>
       pool_ok (ids @ [i]) (q\<lparr>q_blocks := bs, q_pool_index := n, q_free_list := fl\<rparr>) \<and>
       (bs = q_blocks q \<or> bs = q_blocks q @ [new_block]))"
proof (cases "q_pool_index q \<ge> q_pool_size q")
  case False
  then have lt: "unat (q_pool_index q) < unat (q_pool_size q)" by (simp add: word_less_nat_alt not_le)
  moreover have "unat (q_pool_size q) < 2 ^ LENGTH(64)" by (rule unsigned_less)
  ultimately have suc: "unat (q_pool_index q + 1) = Suc (unat (q_pool_index q))"
    by (simp add: unat_word_ariths)
  let ?q = "q\<lparr>q_blocks := q_blocks q, q_pool_index := q_pool_index q + 1, q_free_list := q_free_list q\<rparr>"
  have "blocks_held (insert (unat (q_pool_index q)) (set ids \<union> set (q_free_list q))) (length (q_blocks q))
      (q_pool_index q + 1) (q_pool_size q)"
    using pool_ok_held [OF pool] unfolding blocks_held_def suc by (simp add: less_Suc_eq)
  then have "pool_ok (ids @ [unat (q_pool_index q)]) ?q"
    using pool lt suc unfolding pool_ok_def by (auto simp: word_le_nat_alt less_Suc_eq)
  moreover have "requisition_block ok q = (Some (unat (q_pool_index q)), ?q)"
    using False by (simp add: requisition_block_def try_get_block_from_initial_pool_def)
  ultimately show ?thesis by blast
next
  case empty: True
  show ?thesis
  proof (cases "q_free_list q")
    case (Cons i fl)
    let ?q = "q\<lparr>q_blocks := q_blocks q, q_pool_index := q_pool_index q, q_free_list := fl\<rparr>"
    have "pool_ok (ids @ [i]) ?q" using pool Cons unfolding pool_ok_def by auto
    moreover have "requisition_block ok q = (Some i, ?q)" using empty Cons
      by (simp add: requisition_block_def try_get_block_from_initial_pool_def try_get_block_from_free_list_def)
    ultimately show ?thesis by blast
  next
    case Nil
    let ?q = "q\<lparr>q_blocks := q_blocks q @ [new_block], q_pool_index := q_pool_index q, q_free_list := []\<rparr>"
    have "blocks_held (insert (length (q_blocks q)) (set ids)) (Suc (length (q_blocks q))) (q_pool_index q) (q_pool_size q)"
      using pool_ok_held [OF pool] Nil unfolding blocks_held_def by (simp add: less_Suc_eq)
    then have "pool_ok (ids @ [length (q_blocks q)]) ?q"
      using pool Nil unfolding pool_ok_def by (auto simp: new_block_def)
    moreover have "requisition_block ok q = (if ok then (Some (length (q_blocks q)), ?q) else (None, q))" using empty Nil
      by (simp add: requisition_block_def try_get_block_from_initial_pool_def try_get_block_from_free_list_def)
    ultimately show ?thesis by (cases ok; simp only: if_True if_False; blast)
  qed
qed

text \<open>The ring is closed again after a block is linked in behind the tail block.\<close>

lemma link_block_queue:
  "\<exists>bs. link_block i q = q\<lparr>q_blocks := bs, q_tailBlock := Some i, q_slots_used := q_slots_used q + 1\<rparr>"
  by (cases "q_tailBlock q") (auto simp: link_block_def Let_def on_block_def)

lemma link_block_blocks:
  assumes "i < length (q_blocks q)" "m < length (q_blocks q)"
  shows "length (q_blocks (link_block i q)) = length (q_blocks q)"
    and "blk_elements (q_blocks (link_block i q) ! m) = blk_elements (q_blocks q ! m)"
    and "blk_empty (q_blocks (link_block i q) ! m) = (if m = i then replicate 32 False else blk_empty (q_blocks q ! m))"
    and "blk_next (q_blocks (link_block i q) ! m) =
           (case q_tailBlock q of
              None \<Rightarrow> if m = i then Some i else blk_next (q_blocks q ! m)
            | Some u \<Rightarrow> if m = u then Some i
                else if m = i then blk_next (q_blocks (on_block i block_reset_empty q) ! u) else blk_next (q_blocks q ! m))"
  using assms
  unfolding link_block_def Let_def
  by (cases "q_tailBlock q"; cases "m = i"; cases "Some m = q_tailBlock q"; simp add: block_reset_empty_def nth_list_update)+

lemma link_block_ring:
  assumes r: "ring_ok ids (q_blocks q)" and d: "distinct (ids @ [i])"
    and len: "\<forall>k\<in>set (ids @ [i]). k < length (q_blocks q)"
    and tl: "q_tailBlock q = (if ids = [] then None else Some (last ids))"
  shows "ring_ok (ids @ [i]) (q_blocks (link_block i q))"
  unfolding ring_ok_def
proof (intro allI impI)
  fix k assume k: "k < length (ids @ [i])"
  let ?m = "(ids @ [i]) ! k" and ?n = "length ids"
  have i: "i < length (q_blocks q)" and m: "?m < length (q_blocks q)" using len nth_mem [OF k] by auto
  note link = link_block_blocks(4) [OF i m, unfolded tl]
  show "blk_next (q_blocks (link_block i q) ! ?m) = Some ((ids @ [i]) ! (Suc k mod length (ids @ [i])))"
  proof (cases "ids = []")
    case True
    then show ?thesis using link k by simp
  next
    case False
    then have u: "last ids = ids ! (?n - 1)" and n: "0 < ?n" by (simp_all add: last_conv_nth)
    have iu: "last ids \<noteq> i" "i \<notin> set ids" using d False by auto
    consider (old) "Suc k < ?n" | (tail) "Suc k = ?n" | (new) "k = ?n" using k by fastforce
    then show ?thesis
    proof cases
      case old
      then have "?m \<noteq> last ids" using d u by (simp add: nth_append nth_eq_iff_index_eq)
      moreover have "?m \<noteq> i" using iu(2) old by (auto simp: nth_append)
      ultimately show ?thesis using link r old False unfolding ring_ok_def by (simp add: nth_append)
    next
      case tail
      then have "k = ?n - 1" by simp
      then have "?m = last ids" using u n by (simp add: nth_append)
      then show ?thesis using link False tail by simp
    next
      case new
      have "blk_next (q_blocks q ! last ids) = Some (ids ! 0)"
        using r n unfolding ring_ok_def u by (metis Suc_pred' mod_self diff_less zero_less_one One_nat_def)
      then show ?thesis using link new iu False n by (simp add: nth_append)
    qed
  qed
qed

lemma nth_block_is_empty:
  assumes "flags_ok ids h bs" "k < length ids" "length (blk_empty (bs ! (ids ! k))) = 32"
  shows "block_is_empty (bs ! (ids ! k)) \<longleftrightarrow> 32 * Suc k \<le> h"
proof -
  have flag: "blk_empty (bs ! (ids ! k)) ! (31 - j) \<longleftrightarrow> 32 * k + j < h" if "j < 32" for j
  proof -
    have "32 * k + j < 32 * length ids" "(32 * k + j) div 32 = k" "(32 * k + j) mod 32 = j" using assms(2) that by auto
    then show ?thesis using assms(1) unfolding flags_ok_def by metis
  qed
  have "blk_empty (bs ! (ids ! k)) ! j \<longleftrightarrow> 32 * k + (31 - j) < h" if "j < 32" for j
    using flag [of "31 - j"] that by simp
  then have "block_is_empty (bs ! (ids ! k)) \<longleftrightarrow> (\<forall>j<32. 32 * k + (31 - j) < h)"
    unfolding block_is_empty_def list_all_length assms(3) by simp
  also have "\<dots> \<longleftrightarrow> 32 * Suc k \<le> h" by (auto dest: spec [of _ 0])
  finally show ?thesis .
qed

lemma block_is_empty_iff:
  assumes "flags_ok ids h bs" "ids \<noteq> []" "length (blk_empty (bs ! (ids ! 0))) = 32"
  shows "block_is_empty (bs ! (ids ! 0)) \<longleftrightarrow> 32 \<le> h"
  using nth_block_is_empty [of ids h bs 0] assms by simp

text \<open>The ring with a block for the next items at its end, which the index does not hold yet.\<close>

definition started :: "u64 \<Rightarrow> nat list \<Rightarrow> nat \<Rightarrow> nat \<Rightarrow> nat \<Rightarrow> 'a list \<Rightarrow> 'a cqueue \<Rightarrow> bool" where
  "started b ids p h t xs q \<longleftrightarrow>
     ids \<noteq> [] \<and> queue_view b ids (length ids - 1) p h t xs q \<and> t = 32 * (length ids - 1) \<and> q_index q \<noteq> None"

text \<open>How the ring changes: the oldest block becomes the newest one, or a new block is added.\<close>

definition ring_moved :: "u64 \<Rightarrow> nat list \<Rightarrow> nat \<Rightarrow> nat \<Rightarrow> u64 \<Rightarrow> nat list \<Rightarrow> nat \<Rightarrow> nat \<Rightarrow> bool" where
  "ring_moved b ids h t b' ids' h' t' \<longleftrightarrow>
     (\<exists>i rest. ids = i # rest \<and> ids' = rest @ [i] \<and> b' = b + 1 \<and> 32 \<le> h \<and> 32 \<le> t \<and> h' = h - 32 \<and> t' = t - 32) \<or>
     (\<exists>i. ids' = ids @ [i] \<and> b' = b \<and> h' = h \<and> t' = t)"

definition index_kept :: "'a cqueue \<Rightarrow> 'a cqueue \<Rightarrow> bool" where
  "index_kept q q' \<longleftrightarrow>
     (q_index_size q' = q_index_size q \<longrightarrow> q_index q' = q_index q \<and> q_front q' = q_front q)"

lemma ring_ok_rotate:
  assumes "ring_ok (i # rest) bs"
  shows "ring_ok (rest @ [i]) bs"
  unfolding ring_ok_def
proof (intro allI impI)
  let ?ids = "rest @ [i]"
  fix k assume k: "k < length ?ids"
  have rot: "?ids ! m = (i # rest) ! (Suc m mod length (i # rest))" if "m < length ?ids" for m
    using nth_rotate1 [of m "i # rest"] that by simp
  show "blk_next (bs ! (?ids ! k)) = Some (?ids ! (Suc k mod length ?ids))"
    using assms rot [OF k] rot [of "Suc k mod length ?ids"] unfolding ring_ok_def by simp
qed

lemma flags_ok_rotate:
  assumes f: "flags_ok (i # rest) h bs" and d: "i \<notin> set rest" and i: "i < length bs"
    and h: "h \<le> 32 * length (i # rest)" and c: "blk_empty c = replicate 32 False"
  shows "flags_ok (rest @ [i]) (h - 32) (bs[i := c])"
  unfolding flags_ok_def
proof (intro allI impI)
  fix j assume j: "j < 32 * length (rest @ [i])"
  show "blk_empty (bs[i := c] ! ((rest @ [i]) ! (j div 32))) ! (31 - j mod 32) \<longleftrightarrow> j < h - 32"
  proof (cases "j div 32 < length rest")
    case True
    have e: "(j + 32) div 32 = Suc (j div 32)" by simp
    have "rest ! (j div 32) \<noteq> i" using True d nth_mem by metis
    moreover have "blk_empty (bs ! ((i # rest) ! ((j + 32) div 32))) ! (31 - (j + 32) mod 32) \<longleftrightarrow> j + 32 < h"
      using f True unfolding flags_ok_def by (auto dest!: spec [of _ "j + 32"])
    ultimately show ?thesis using True unfolding e by (simp add: nth_append less_diff_conv)
  next
    case False
    then have "j div 32 = length rest" using j by auto
    moreover have "\<not> j < h - 32" using False h by auto
    ultimately show ?thesis using i c by simp
  qed
qed

lemma items_ok_rotate:
  assumes it: "items_ok (i # rest) h xs bs" and d: "i \<notin> set rest"
    and h: "32 \<le> h" "h + length xs \<le> 32 * length (i # rest)"
  shows "items_ok (rest @ [i]) (h - 32) xs (bs[i := c])"
  unfolding items_ok_def
proof (intro allI impI)
  fix m assume m: "m < length xs"
  let ?j = "h - 32 + m"
  have n: "?j div 32 < length rest" using m h by auto
  have e: "(?j + 32) div 32 = Suc (?j div 32)" by simp
  have "rest ! (?j div 32) \<noteq> i" using n d nth_mem by metis
  moreover have "blk_elements (bs ! ((i # rest) ! ((?j + 32) div 32))) ! ((?j + 32) mod 32) = Some (xs ! m)"
    using it m h(1) unfolding items_ok_def by (auto dest!: spec [of _ m])
  ultimately show "blk_elements (bs[i := c] ! ((rest @ [i]) ! (?j div 32))) ! (?j mod 32) = Some (xs ! m)"
    using n unfolding e by (simp add: nth_append)
qed

lemma reuse_block_view:
  assumes q: "queue_view b (i # rest) (Suc (length rest)) p h t xs q" and t: "t = 32 * length (i # rest)" and h: "32 \<le> h"
  shows "started (b + 1) (rest @ [i]) p (h - 32) (t - 32) xs (on_block i block_reset_empty (q\<lparr>q_tailBlock := Some i\<rparr>))"
    (is "started _ ?ids _ _ _ _ ?q")
proof -
  let ?c = "block_reset_empty (q_blocks q ! i)"
  have s: "ring_state b (i # rest) p h t xs q" and e: "entries_ok b (i # rest) (Suc (length rest)) p q"
    and f: "front_ok p q"
    using q unfolding queue_view_def by blast+
  have r: "ring_ok (i # rest) (q_blocks q)" and fl: "flags_ok (i # rest) h (q_blocks q)"
    and it: "items_ok (i # rest) h xs (q_blocks q)" and ix: "index_ok p q" and n: "length (i # rest) \<le> 2 ^ p"
    and pool: "pool_ok (i # rest) q" and ti: "q_tailIndex q = 32 * b + of_nat t" and ht: "h + length xs = t"
    and slots: "q_slots_used q = of_nat (length (i # rest))"
    using s unfolding ring_state_def by blast+
  have d: "i \<notin> set rest" and i: "i < length (q_blocks q)" using pool unfolding pool_ok_def by auto
  have "ring_ok ?ids ((q_blocks q)[i := ?c])" using ring_ok_rotate [OF r]
    by (simp add: ring_ok_update block_reset_empty_def)
  moreover have "flags_ok ?ids (h - 32) ((q_blocks q)[i := ?c])"
    using flags_ok_rotate [OF fl d i] ht t by (simp add: block_reset_empty_def)
  moreover have "items_ok ?ids (h - 32) xs ((q_blocks q)[i := ?c])" using items_ok_rotate [OF it d h] ht t by simp
  moreover have "pool_ok ?ids ?q"
    using pool i by (intro pool_ok_on_block) (auto simp: pool_ok_def block_reset_empty_def)
  moreover have "q_tailIndex ?q = 32 * (b + 1) + of_nat (t - 32)" using ti t by (simp add: algebra_simps)
  ultimately have "ring_state (b + 1) ?ids p (h - 32) (t - 32) xs ?q"
    using ix n slots h ht unfolding ring_state_def by (simp add: index_ok_def)
  moreover have "entries_ok (b + 1) ?ids (length rest) p ?q"
    unfolding entries_ok_def
  proof (intro allI impI)
    fix k assume "k < length rest"
    then show "\<exists>bi. q_index ?q = Some bi \<and>
        bi_entries bi ! unat (take_bit p (q_front ?q - of_nat (length rest - k))) = Some (32 * (b + 1 + of_nat k), ?ids ! k)"
      using e unfolding entries_ok_def by (auto dest!: spec [of _ "Suc k"] simp: algebra_simps nth_append)
  qed
  moreover have "q_index ?q \<noteq> None" using e unfolding entries_ok_def by fastforce
  ultimately show ?thesis using f t unfolding started_def queue_view_def by (simp add: front_ok_def)
qed

lemma flags_ok_extend:
  assumes "flags_ok ids h bs" "h \<le> 32 * length ids"
    "\<And>k. k < length ids \<Longrightarrow> blk_empty (bs' ! (ids ! k)) = blk_empty (bs ! (ids ! k))"
    "blk_empty (bs' ! i) = replicate 32 False"
  shows "flags_ok (ids @ [i]) h bs'"
  unfolding flags_ok_def
proof (intro allI impI)
  fix j assume j: "j < 32 * length (ids @ [i])"
  show "blk_empty (bs' ! ((ids @ [i]) ! (j div 32))) ! (31 - j mod 32) \<longleftrightarrow> j < h"
  proof (cases "j div 32 < length ids")
    case True
    then show ?thesis using assms(1,3) unfolding flags_ok_def by (simp add: nth_append)
  next
    case False
    then have "j div 32 = length ids" and "\<not> j < h" using j assms(2) by auto
    then show ?thesis using assms(4) by simp
  qed
qed

lemma items_ok_extend:
  assumes "items_ok ids h xs bs" "h + length xs \<le> 32 * length ids"
    "\<And>k. k < length ids \<Longrightarrow> blk_elements (bs' ! (ids ! k)) = blk_elements (bs ! (ids ! k))"
  shows "items_ok (ids @ [i]) h xs bs'"
  unfolding items_ok_def
proof (intro allI impI)
  fix m assume m: "m < length xs"
  then have "(h + m) div 32 < length ids" using assms(2) by auto
  then show "blk_elements (bs' ! ((ids @ [i]) ! ((h + m) div 32))) ! ((h + m) mod 32) = Some (xs ! m)"
    using assms(1,3) m unfolding items_ok_def by (simp add: nth_append)
qed

lemma link_block_pool:
  assumes pool: "pool_ok ids q" and i: "i < length (q_blocks q)"
  shows "pool_ok ids (link_block i q)"
proof -
  obtain bs where link: "link_block i q = q\<lparr>q_blocks := bs, q_tailBlock := Some i, q_slots_used := q_slots_used q + 1\<rparr>"
    using link_block_queue by blast
  have len: "length bs = length (q_blocks q)"
    using link_block_blocks(1) [OF i i] unfolding link by simp
  have "length (blk_elements (bs ! m)) = 32 \<and> length (blk_empty (bs ! m)) = 32" if m: "m < length (q_blocks q)" for m
    using link_block_blocks(2,3) [OF i m] pool nth_mem [OF m] unfolding link pool_ok_def by simp
  then have "\<forall>blk\<in>set bs. length (blk_elements blk) = 32 \<and> length (blk_empty blk) = 32"
    using len by (metis in_set_conv_nth)
  then show ?thesis using pool len unfolding pool_ok_def link by simp
qed

lemma linked_block_view:
  assumes q: "queue_view b ids (length ids) p h t xs q" and t: "t = 32 * length ids"
    and ix: "q_index q \<noteq> None" "length ids < 2 ^ p"
    and q2: "q2 = q\<lparr>q_blocks := bs, q_pool_index := n, q_free_list := fl\<rparr>" "pool_ok (ids @ [i]) q2"
      "bs = q_blocks q \<or> bs = q_blocks q @ [new_block]"
  shows "started b (ids @ [i]) p h t xs (link_block i q2)"
proof -
  have s: "ring_state b ids p h t xs q" and e: "entries_ok b ids (length ids) p q"
    and fr: "0 < length ids \<longrightarrow> front_ok p q" using q unfolding queue_view_def by blast+
  have r: "ring_ok ids (q_blocks q)" and f: "flags_ok ids h (q_blocks q)" and it: "items_ok ids h xs (q_blocks q)"
    and i: "index_ok p q" and pool: "pool_ok ids q" and ti: "q_tailIndex q = 32 * b + of_nat t" and ht: "h + length xs = t"
    and tl: "q_tailBlock q = (if ids = [] then None else Some (last ids))" and slots: "q_slots_used q = of_nat (length ids)"
    using s unfolding ring_state_def by blast+
  have old: "ids ! k < length (q_blocks q)" if "k < length ids" for k
    using pool nth_mem [OF that] unfolding pool_ok_def by auto
  have same: "bs ! (ids ! k) = q_blocks q ! (ids ! k)" if "k < length ids" for k
    using q2(3) old [OF that] by (auto simp: nth_append)
  have d: "distinct (ids @ [i])" and len: "\<forall>k\<in>set (ids @ [i]). k < length (q_blocks q2)"
    using q2(2) unfolding pool_ok_def by auto
  have ib: "i < length (q_blocks q2)" using len by simp
  have mb: "ids ! k < length (q_blocks q2)" and ni: "ids ! k \<noteq> i" if "k < length ids" for k
    using len d nth_mem [OF that] by auto
  let ?bs = "q_blocks (link_block i q2)"
  have "ring_ok ids (q_blocks q2)" using r same unfolding ring_ok_def q2(1) by simp
  then have "ring_ok (ids @ [i]) ?bs" using d len tl by (intro link_block_ring) (simp_all add: q2(1))
  moreover have "flags_ok (ids @ [i]) h ?bs"
    using f ht t same ni mb ib by (intro flags_ok_extend [OF f]) (auto simp: link_block_blocks q2(1))
  moreover have "items_ok (ids @ [i]) h xs ?bs"
    using ht t same mb ib by (intro items_ok_extend [OF it]) (auto simp: link_block_blocks q2(1))
  moreover obtain bs' where link: "link_block i q2 = q2\<lparr>q_blocks := bs', q_tailBlock := Some i, q_slots_used := q_slots_used q2 + 1\<rparr>"
    using link_block_queue by blast
  moreover have "pool_ok (ids @ [i]) (link_block i q2)" using q2(2) ib by (rule link_block_pool)
  ultimately have "ring_state b (ids @ [i]) p h t xs (link_block i q2)"
    using i ti ht slots ix(2) unfolding ring_state_def by (simp add: index_ok_def q2(1))
  moreover have "entries_ok b (ids @ [i]) (length ids) p (link_block i q2)"
    using e unfolding entries_ok_def link by (simp add: q2(1) nth_append)
  moreover have "0 < length ids \<longrightarrow> front_ok p (link_block i q2)" using fr unfolding front_ok_def link by (simp add: q2(1))
  ultimately show ?thesis using t ix(1) unfolding started_def queue_view_def link by (simp add: q2(1))
qed

text \<open>The outcomes of the two ways to get a block; \<open>h1\<close> is the head the producer reads, which may be ahead.\<close>

definition block_started :: "u64 \<Rightarrow> nat list \<Rightarrow> nat \<Rightarrow> nat \<Rightarrow> 'a list \<Rightarrow> 'a cqueue \<Rightarrow> 'a cqueue \<Rightarrow> bool" where
  "block_started b ids h t xs q q' \<longleftrightarrow> index_kept q q' \<and>
     (\<exists>b' ids' p' h' t'. started b' ids' p' h' t' xs q' \<and> ring_moved b ids h t b' ids' h' t')"

definition block_refused :: "u64 \<Rightarrow> nat list \<Rightarrow> nat \<Rightarrow> nat \<Rightarrow> 'a list \<Rightarrow> 'a cqueue \<Rightarrow> 'a cqueue \<Rightarrow> bool" where
  "block_refused b ids h t xs q q' \<longleftrightarrow> index_kept q q' \<and> (\<exists>p'. queue_view b ids (length ids) p' h t xs q')"

lemma size_doubled: "p \<le> 57 \<Longrightarrow> (2 :: u64) ^ Suc p \<noteq> 2 ^ p"
proof
  assume p: "p \<le> 57" and e: "(2 :: u64) ^ Suc p = 2 ^ p"
  have "unat ((2 :: u64) ^ Suc p) = unat ((2 :: u64) ^ p)" unfolding e ..
  then show False using p unat_power [of p] unat_power [of "Suc p"] by simp
qed

lemma index_room_view:
  assumes q: "queue_view b ids (length ids) p h t xs q" and small: "length ids < 2 ^ 57"
  shows "\<exists>room q1 p1. (if q_index q = None \<or> q_slots_used q = q_index_size q
      then new_block_index okI (q_slots_used q) q else (True, q)) = (room, q1) \<and>
    (okI \<longrightarrow> room) \<and> queue_view b ids (length ids) p1 h t xs q1 \<and> q_headIndex q1 = q_headIndex q \<and>
    (room \<longrightarrow> q_index q1 \<noteq> None \<and> length ids < 2 ^ p1) \<and> index_kept q q1"
    (is "\<exists>room q1 p1. ?g = (room, q1) \<and> _ room q1 p1")
proof -
  have "ring_state b ids p h t xs q" using q unfolding queue_view_def by blast
  then have slots: "q_slots_used q = of_nat (length ids)" and ix: "index_ok p q" and np: "length ids \<le> 2 ^ p"
    unfolding ring_state_def by blast+
  show ?thesis
  proof (cases "q_index q = None \<or> q_slots_used q = q_index_size q")
    case True
    then have g: "?g = new_block_index okI (q_slots_used q) q" by (rule if_P)
    show ?thesis
    proof (cases okI)
      case okI: True
      obtain ixn f where n: "?g = (True, q\<lparr>q_index_size := 2 ^ Suc p, q_front := f, q_index := Some ixn\<rparr>)"
        "queue_view b ids (length ids) (Suc p) h t xs (q\<lparr>q_index_size := 2 ^ Suc p, q_front := f, q_index := Some ixn\<rparr>)"
        "length ids < 2 ^ Suc p"
        using new_block_index_view [OF q True small] okI g by auto
      have "p \<le> 57" using index_may_double [OF ix] True small unfolding slots by blast
      then have "index_kept q (q\<lparr>q_index_size := 2 ^ Suc p, q_front := f, q_index := Some ixn\<rparr>)"
        using size_doubled ix unfolding index_kept_def index_ok_def by auto
      then show ?thesis using n by fastforce
    next
      case False
      then have "?g = (False, q)" using g by (simp add: new_block_index_def)
      then show ?thesis using False q unfolding index_kept_def by blast
    qed
  next
    case False
    have "length ids \<noteq> 2 ^ p" using False slots ix unfolding index_ok_def by auto
    then have "length ids < 2 ^ p" using np by simp
    moreover have "?g = (True, q)" using False by (rule if_not_P)
    ultimately show ?thesis using False q unfolding index_kept_def by blast
  qed
qed

lemma new_tail_block_view:
  assumes q: "queue_view b ids (length ids) p h t xs q" and t: "t = 32 * length ids" and small: "length ids < 2 ^ 57"
    and h1: "q_headIndex q = 32 * b + of_nat h1" "h1 \<le> t"
  shows "(\<exists>q'. new_tail_block okI okB q = (True, q') \<and> block_started b ids h t xs q q') \<or>
    (\<exists>q'. new_tail_block okI okB q = (False, q') \<and> block_refused b ids h t xs q q' \<and> \<not> (okI \<and> okB))"
proof -
  have "q_tailIndex q = 32 * b + of_nat t" using q unfolding queue_view_def ring_state_def by blast
  then have tail: "q_tailIndex q + 32 = q_headIndex q + of_nat (t + 32 - h1)" using h1 by (simp add: of_nat_diff)
  have "t + 32 - h1 < 2 ^ 63" using t small by simp
  then have leeway: "circular_less_than (q_headIndex q) (q_tailIndex q + 32)"
    unfolding tail using h1(2) by (subst circular_less) auto
  obtain room q1 p1 where g: "(if q_index q = None \<or> q_slots_used q = q_index_size q
      then new_block_index okI (q_slots_used q) q else (True, q)) = (room, q1)"
    "okI \<longrightarrow> room" "queue_view b ids (length ids) p1 h t xs q1"
    "room \<longrightarrow> q_index q1 \<noteq> None \<and> length ids < 2 ^ p1" "index_kept q q1"
    using index_room_view [OF q small, of okI] by blast
  have result: "new_tail_block okI okB q = (if \<not> room then (False, q1)
      else case requisition_block okB q1 of (None, q2) \<Rightarrow> (False, q2) | (Some i, q2) \<Rightarrow> (True, link_block i q2))"
    using leeway unfolding new_tail_block_def g(1) by simp
  have refused: "block_refused b ids h t xs q q1" using g(3,5) unfolding block_refused_def by blast
  have "pool_ok ids q1" using g(3) unfolding queue_view_def ring_state_def by blast
  from requisition_block_state [OF this, of okB]
  consider (full) "\<not> room" | (none) "room" "requisition_block okB q1 = (None, q1)" "\<not> okB"
    | (some) i bs n fl where "room" "requisition_block okB q1 = (Some i, q1\<lparr>q_blocks := bs, q_pool_index := n, q_free_list := fl\<rparr>)"
        "pool_ok (ids @ [i]) (q1\<lparr>q_blocks := bs, q_pool_index := n, q_free_list := fl\<rparr>)"
        "bs = q_blocks q1 \<or> bs = q_blocks q1 @ [new_block]"
    by blast
  then show ?thesis
  proof cases
    case full
    then have "new_tail_block okI okB q = (False, q1)" using result by simp
    then show ?thesis using g(2) refused full by blast
  next
    case none
    then have "new_tail_block okI okB q = (False, q1)" and "\<not> okB" using result by simp_all
    then show ?thesis using refused by blast
  next
    case some
    let ?q2 = "q1\<lparr>q_blocks := bs, q_pool_index := n, q_free_list := fl\<rparr>"
    have "started b (ids @ [i]) p1 h t xs (link_block i ?q2)"
      using linked_block_view [OF g(3) t _ _ _ some(3,4)] g(4) some(1) by blast
    moreover have "index_kept q (link_block i ?q2)"
      using g(5) link_block_queue [of i ?q2] unfolding index_kept_def by auto
    ultimately have "block_started b ids h t xs q (link_block i ?q2)"
      unfolding block_started_def ring_moved_def by blast
    moreover have "new_tail_block okI okB q = (True, link_block i ?q2)" using result some(1,2) by simp
    ultimately show ?thesis by blast
  qed
qed

text \<open>The block of the tail is full: the block ahead, or a new one.\<close>

lemma start_block_view:
  assumes q: "queue_view b ids (length ids) p h t xs q" and t: "t = 32 * length ids" and small: "length ids < 2 ^ 57"
    and h1: "q_headIndex q = 32 * b + of_nat h1" "h1 \<le> t"
  shows "(\<exists>q'. start_block okI okB q = (True, q') \<and> block_started b ids h t xs q q') \<or>
    (\<exists>q'. start_block okI okB q = (False, q') \<and> block_refused b ids h t xs q q' \<and> \<not> (okI \<and> okB))"
proof -
  have s: "ring_state b ids p h t xs q" using q unfolding queue_view_def by blast
  have r: "ring_ok ids (q_blocks q)" and f: "flags_ok ids h (q_blocks q)" and pool: "pool_ok ids q"
    and tb: "q_tailBlock q = (if ids = [] then None else Some (last ids))"
    using s unfolding ring_state_def by blast+
  have len: "length (blk_empty (q_blocks q ! (ids ! 0))) = 32" if "ids \<noteq> []"
  proof -
    have "ids ! 0 < length (q_blocks q)" using pool that unfolding pool_ok_def by auto
    then show ?thesis using pool unfolding pool_ok_def by auto
  qed
  have nxt: "blk_next (q_blocks q ! last ids) = Some (ids ! 0)" if "ids \<noteq> []"
    using r that unfolding ring_ok_def by (auto simp: last_conv_nth dest!: spec [of _ "length ids - 1"])
  show ?thesis
  proof (cases "ids \<noteq> [] \<and> 32 \<le> h")
    case True
    then obtain i rest where ids: "ids = i # rest" by (cases ids) auto
    have "start_block okI okB q = (True, on_block i block_reset_empty (q\<lparr>q_tailBlock := Some i\<rparr>))"
      using True nxt block_is_empty_iff [OF f _ len] unfolding start_block_def tb ids by simp
    moreover have "started (b + 1) (rest @ [i]) p (h - 32) (t - 32) xs (on_block i block_reset_empty (q\<lparr>q_tailBlock := Some i\<rparr>))"
      using reuse_block_view [of b i rest p h t xs q] q t True unfolding ids by simp
    moreover have "ring_moved b ids h t (b + 1) (rest @ [i]) (h - 32) (t - 32)"
      using True t unfolding ring_moved_def ids by auto
    moreover have "index_kept q (on_block i block_reset_empty (q\<lparr>q_tailBlock := Some i\<rparr>))" by (simp add: index_kept_def)
    ultimately show ?thesis unfolding block_started_def by blast
  next
    case False
    have "start_block okI okB q = new_tail_block okI okB q"
      using nxt block_is_empty_iff [OF f _ len] False unfolding start_block_def tb by (cases "ids = []") auto
    then show ?thesis using new_tail_block_view [OF assms, of okI okB] by simp
  qed
qed

section \<open>The whole operation\<close>

lemma new_block_index_kept:
  "new_block_index ok n q = (r, q') \<Longrightarrow> q_tailIndex q' = q_tailIndex q \<and> q_headIndex q' = q_headIndex q \<and>
     q_optimistic q' = q_optimistic q \<and> q_overcommit q' = q_overcommit q"
  by (auto simp: new_block_index_def Let_def split: if_splits)

lemma requisition_block_kept:
  "requisition_block ok q = (r, q') \<Longrightarrow> q_tailIndex q' = q_tailIndex q \<and> q_headIndex q' = q_headIndex q \<and>
     q_optimistic q' = q_optimistic q \<and> q_overcommit q' = q_overcommit q"
  by (auto simp: requisition_block_def try_get_block_from_initial_pool_def try_get_block_from_free_list_def
      split: list.splits if_splits)

lemma link_block_kept [simp]:
  "q_tailIndex (link_block i q) = q_tailIndex q" "q_headIndex (link_block i q) = q_headIndex q"
  "q_optimistic (link_block i q) = q_optimistic q" "q_overcommit (link_block i q) = q_overcommit q"
  by (simp_all add: link_block_def Let_def split: option.splits)

lemma start_block_kept:
  assumes "start_block okI okB q = (r, q')"
  shows "q_tailIndex q' = q_tailIndex q \<and> q_headIndex q' = q_headIndex q \<and>
     q_optimistic q' = q_optimistic q \<and> q_overcommit q' = q_overcommit q"
proof -
  have new: "q_tailIndex q' = q_tailIndex q \<and> q_headIndex q' = q_headIndex q \<and>
     q_optimistic q' = q_optimistic q \<and> q_overcommit q' = q_overcommit q" if n: "new_tail_block okI okB q = (r, q')"
  proof -
    obtain room q1 where g: "(if q_index q = None \<or> q_slots_used q = q_index_size q
        then new_block_index okI (q_slots_used q) q else (True, q)) = (room, q1)" by fastforce
    then have q1: "q_tailIndex q1 = q_tailIndex q \<and> q_headIndex q1 = q_headIndex q \<and>
        q_optimistic q1 = q_optimistic q \<and> q_overcommit q1 = q_overcommit q"
      using new_block_index_kept [of okI "q_slots_used q" q room q1] by (auto split: if_splits)
    obtain i q2 where r: "requisition_block okB q1 = (i, q2)" by fastforce
    then show ?thesis using n q1 requisition_block_kept [OF r]
      unfolding new_tail_block_def g by (cases i) (auto split: if_splits)
  qed
  show ?thesis using assms new by (auto simp: start_block_def split: option.splits if_splits)
qed

lemma ring_moved_heads:
  assumes "ring_moved b ids h t b' ids' h' t'" "heads_ok b h q" "q_headIndex q' = q_headIndex q"
    "q_optimistic q' = q_optimistic q" "q_overcommit q' = q_overcommit q"
  shows "heads_ok b' h' q'"
  using assms unfolding ring_moved_def heads_ok_def by (auto simp: of_nat_diff algebra_simps)

lemma started_view:
  assumes "started b ids p h t xs q"
  obtains ne bi where "length ids = Suc ne" "t = 32 * ne" "queue_view b ids ne p h t xs q" "q_index q = Some bi"
    "t < 32 * length ids" "32 * length ids \<le> t + 32" "q_tailIndex q = 32 * (b + of_nat ne)"
proof -
  obtain i rest where "ids = i # rest" using assms unfolding started_def by (cases ids) auto
  then show ?thesis using assms that [of "length rest"]
    unfolding started_def queue_view_def ring_state_def by (auto simp: algebra_simps)
qed

text \<open>An item at the start of a block, and one in the middle of a block.\<close>

lemma started_store:
  assumes st: "started b ids p h t xs q"
  shows "\<exists>q2 q3. put_item (q_tailIndex q) x q = Some q2 \<and>
    Option.bind (write_entry (q_tailIndex q) q2) publish_front = Some q3 \<and>
    queue_view b ids (length ids) p h (Suc t) (xs @ [x]) (q3\<lparr>q_tailIndex := 1 + q_tailIndex q\<rparr>) \<and>
    ring_full ids (Suc t) \<and> q_headIndex q3 = q_headIndex q \<and> q_optimistic q3 = q_optimistic q \<and> q_overcommit q3 = q_overcommit q"
proof -
  obtain ne bi where n: "length ids = Suc ne" "t = 32 * ne" and v: "queue_view b ids ne p h t xs q"
    and bi: "q_index q = Some bi" and t: "t < 32 * length ids" "32 * length ids \<le> t + 32"
    and tail: "q_tailIndex q = 32 * (b + of_nat ne)"
    by (rule started_view [OF st])
  obtain bs where put: "put_item (q_tailIndex q) x q = Some (q\<lparr>q_blocks := bs\<rparr>)"
    "queue_view b ids ne p h t xs (q\<lparr>q_blocks := bs\<rparr>)" "slot_holds ids t x (q\<lparr>q_blocks := bs\<rparr>)"
    by (rule put_item_view [OF v t refl])
  define q2 where "q2 = q\<lparr>q_blocks := bs\<rparr>"
  note put = put [folded q2_def]
  have same: "q_index q2 = Some bi" "q_tailIndex q2 = q_tailIndex q" "q_headIndex q2 = q_headIndex q"
    "q_optimistic q2 = q_optimistic q" "q_overcommit q2 = q_overcommit q" using bi by (simp_all add: q2_def)
  obtain es where w: "write_entry (q_tailIndex q) q2 = Some (q2\<lparr>q_index := Some (bi\<lparr>bi_entries := es\<rparr>)\<rparr>)"
    "queue_view b ids ne p h t xs (q2\<lparr>q_index := Some (bi\<lparr>bi_entries := es\<rparr>)\<rparr>)"
    "entry_written b ids ne (q2\<lparr>q_index := Some (bi\<lparr>bi_entries := es\<rparr>)\<rparr>)"
    by (rule write_entry_view [OF put(2) n(1) same(1) tail])
  let ?q3 = "q2\<lparr>q_index := Some (bi\<lparr>bi_entries := es\<rparr>)\<rparr>"
  have "q_index ?q3 = Some (bi\<lparr>bi_entries := es\<rparr>)" by simp
  note pub = publish_front_view [OF w(2) n(1) w(3) this]
  define q4 where "q4 = ?q3\<lparr>q_index := Some (bi\<lparr>bi_entries := es\<rparr>\<lparr>bi_front := q_front ?q3\<rparr>),
    q_front := take_bit p (q_front ?q3 + 1)\<rparr>"
  have "slot_holds ids t x q4" using put(3) unfolding slot_holds_def q4_def by simp
  moreover have "q_tailIndex q4 = q_tailIndex q" using same unfolding q4_def by simp
  ultimately have "queue_view b ids (Suc ne) p h (Suc t) (xs @ [x]) (q4\<lparr>q_tailIndex := 1 + q_tailIndex q\<rparr>)"
    using store_view [OF pub(2), folded q4_def] n by simp
  moreover have "ring_full ids (Suc t)" using n unfolding ring_full_def by simp
  moreover have "Option.bind (write_entry (q_tailIndex q) q2) publish_front = Some q4"
    using w(1) pub(1) unfolding q4_def by simp
  ultimately show ?thesis using put(1) n(1) same unfolding q4_def by auto
qed

lemma middle_store:
  assumes v: "queue_view b ids (length ids) p h t xs q" and full: "ring_full ids t" and t: "t < 32 * length ids"
  shows "\<exists>q2. put_item (q_tailIndex q) x q = Some q2 \<and>
    queue_view b ids (length ids) p h (Suc t) (xs @ [x]) (q2\<lparr>q_tailIndex := 1 + q_tailIndex q\<rparr>) \<and>
    ring_full ids (Suc t) \<and> q_headIndex q2 = q_headIndex q \<and> q_optimistic q2 = q_optimistic q \<and> q_overcommit q2 = q_overcommit q"
proof -
  have ids: "ids \<noteq> []" and le: "32 * length ids \<le> t + 32" using t full unfolding ring_full_def by auto
  obtain bs where put: "put_item (q_tailIndex q) x q = Some (q\<lparr>q_blocks := bs\<rparr>)"
    "queue_view b ids (length ids) p h t xs (q\<lparr>q_blocks := bs\<rparr>)" "slot_holds ids t x (q\<lparr>q_blocks := bs\<rparr>)"
    by (rule put_item_view [OF v t le refl])
  have "queue_view b ids (length ids) p h (Suc t) (xs @ [x]) (q\<lparr>q_blocks := bs, q_tailIndex := 1 + q_tailIndex q\<rparr>)"
    using store_view [OF put(2,3) t] by simp
  moreover have "ring_full ids (Suc t)" using full unfolding ring_full_def by auto
  ultimately show ?thesis using put(1) by simp
qed

lemma tail_at_boundary:
  assumes v: "queue_view b ids (length ids) p h t xs q" and full: "ring_full ids t"
  shows "q_tailIndex q AND 31 = 0 \<longleftrightarrow> t = 32 * length ids"
    and "q_tailIndex q AND 31 \<noteq> 0 \<Longrightarrow> t < 32 * length ids"
proof -
  have tail: "q_tailIndex q = 32 * b + of_nat t" and t: "t \<le> 32 * length ids"
    using v unfolding queue_view_def ring_state_def by blast+
  have "q_tailIndex q AND 31 = of_nat (block_offset (q_tailIndex q))" by (simp add: block_offset_def)
  then have m: "q_tailIndex q AND 31 = of_nat (t mod 32)" unfolding tail block_offset_index .
  have "unat (of_nat (t mod 32) :: u64) = t mod 32" by (rule unat_small) (simp add: less_le_trans [OF pos_mod_bound])
  then have "q_tailIndex q AND 31 = 0 \<longleftrightarrow> t mod 32 = 0" unfolding m by (metis unat_eq_0 of_nat_0)
  moreover have "t mod 32 = 0 \<longleftrightarrow> t = 32 * length ids"
    using t full unfolding ring_full_def by (cases "ids = []") (auto simp: mod_eq_0_iff_dvd elim!: dvdE)
  ultimately show z: "q_tailIndex q AND 31 = 0 \<longleftrightarrow> t = 32 * length ids" by simp
  then show "q_tailIndex q AND 31 \<noteq> 0 \<Longrightarrow> t < 32 * length ids" using t by simp
qed

lemma ring_moved_length:
  "ring_moved b ids h t b' ids' h' t' \<Longrightarrow> length ids' \<le> Suc (length ids)"
  unfolding ring_moved_def by auto

lemma enqueue_item:
  assumes q: "queue_state b ids p h t xs q" and small: "length ids < 2 ^ 57"
  shows "(\<exists>q' b' ids' p' h' t'. producer_enqueue ok True x q = Some (Item_stored, q') \<and>
      queue_state b' ids' p' h' t' (xs @ [x]) q' \<and> length ids' \<le> Suc (length ids)) \<or>
    (\<exists>q' p'. producer_enqueue ok True x q = Some (Memory_missing, q') \<and> queue_state b ids p' h t xs q' \<and>
      \<not> (fst ok \<and> snd ok))"
proof -
  have v: "queue_view b ids (length ids) p h t xs q" and full: "ring_full ids t" and hd: "heads_ok b h q"
    using q unfolding queue_state_def by blast+
  have ht: "h \<le> t" using v unfolding queue_view_def ring_state_def by auto
  note z = tail_at_boundary [OF v full]
  show ?thesis
  proof (cases "q_tailIndex q AND 31 = 0")
    case True
    then have t: "t = 32 * length ids" using z by blast
    have "q_headIndex q = 32 * b + of_nat h" using hd unfolding heads_ok_def by blast
    from start_block_view [OF v t small this ht, of "fst ok" "snd ok"] show ?thesis
    proof (elim disjE exE conjE)
      fix q1 assume a: "start_block (fst ok) (snd ok) q = (True, q1)" "block_started b ids h t xs q q1"
      note kept = start_block_kept [OF a(1)]
      obtain b' ids' p' h' t' where st: "started b' ids' p' h' t' xs q1" "ring_moved b ids h t b' ids' h' t'"
        using a(2) unfolding block_started_def by blast
      obtain q2 q3 where 3: "put_item (q_tailIndex q1) x q1 = Some q2"
        "Option.bind (write_entry (q_tailIndex q1) q2) publish_front = Some q3"
        "queue_view b' ids' (length ids') p' h' (Suc t') (xs @ [x]) (q3\<lparr>q_tailIndex := 1 + q_tailIndex q1\<rparr>)"
        "ring_full ids' (Suc t')" "q_headIndex q3 = q_headIndex q1" "q_optimistic q3 = q_optimistic q1" "q_overcommit q3 = q_overcommit q1"
        using started_store [OF st(1), of x] by blast
      let ?q = "q3\<lparr>q_tailIndex := 1 + q_tailIndex q\<rparr>"
      have "heads_ok b' h' ?q" using ring_moved_heads [OF st(2) hd, of ?q] 3(5-7) kept by simp
      then have "queue_state b' ids' p' h' (Suc t') (xs @ [x]) ?q" using 3(3,4) kept unfolding queue_state_def by simp
      moreover have "producer_enqueue ok True x q = Some (Item_stored, ?q)"
        using True a(1) 3(1,2) kept unfolding producer_enqueue_def by (simp add: Let_def)
      ultimately show ?thesis using ring_moved_length [OF st(2)] by blast
    next
      fix q1 assume a: "start_block (fst ok) (snd ok) q = (False, q1)" "block_refused b ids h t xs q q1" "\<not> (fst ok \<and> snd ok)"
      then obtain p' where "queue_view b ids (length ids) p' h t xs q1" unfolding block_refused_def by blast
      moreover have "heads_ok b h q1" using hd start_block_kept [OF a(1)] unfolding heads_ok_def by simp
      moreover have "producer_enqueue ok True x q = Some (Memory_missing, q1)"
        using True a(1) unfolding producer_enqueue_def by (simp add: Let_def)
      ultimately show ?thesis using full a(3) unfolding queue_state_def by blast
    qed
  next
    case False
    then obtain q2 where 2: "put_item (q_tailIndex q) x q = Some q2"
      "queue_view b ids (length ids) p h (Suc t) (xs @ [x]) (q2\<lparr>q_tailIndex := 1 + q_tailIndex q\<rparr>)" "ring_full ids (Suc t)"
      "q_headIndex q2 = q_headIndex q" "q_optimistic q2 = q_optimistic q" "q_overcommit q2 = q_overcommit q"
      using middle_store [OF v full z(2), of x] by blast
    have "producer_enqueue ok True x q = Some (Item_stored, q2\<lparr>q_tailIndex := 1 + q_tailIndex q\<rparr>)"
      using False 2(1) unfolding producer_enqueue_def by (simp add: Let_def)
    moreover have "queue_state b ids p h (Suc t) (xs @ [x]) (q2\<lparr>q_tailIndex := 1 + q_tailIndex q\<rparr>)"
      using 2 hd unfolding queue_state_def by (simp add: heads_ok_def)
    ultimately show ?thesis by (meson le_SucI order_refl)
  qed
qed

section \<open>A copy that throws\<close>

text \<open>
  The comment promises that a new block stays available when the copy of the item throws. The block has
  its marks reset, so it counts as full: the next item asks for another block.
\<close>

lemma thrown_block_lost:
  assumes "q_tailIndex q AND 31 = 0" "q_tailBlock q = Some u" "blk_next (q_blocks q ! u) = Some i"
    "i < length (q_blocks q)" "block_is_empty (q_blocks q ! i)"
  obtains q' where "producer_enqueue ok False x q = Some (Copy_threw, q')"
    "\<not> block_is_empty (q_blocks q' ! i)" "start_block okI okB q' = new_tail_block okI okB q'"
proof -
  let ?q = "on_block i block_reset_empty q"
  have "start_block (fst ok) (snd ok) q = (True, on_block i block_reset_empty (q\<lparr>q_tailBlock := Some i\<rparr>))"
    using assms(2,3,5) by (simp add: start_block_def)
  then have r: "producer_enqueue ok False x q = Some (Copy_threw, ?q)"
    using assms(1,2) by (simp add: producer_enqueue_def Let_def on_block_def)
  have f: "\<not> block_is_empty (q_blocks ?q ! i)"
    using assms(4) by (simp add: block_is_empty_def block_reset_empty_def list_all_iff)
  have "blk_next (q_blocks ?q ! u) = Some i"
    using assms(3) by (cases "u = i") (simp_all add: block_reset_empty_def nth_list_update assms(4))
  then have "start_block okI okB ?q = new_tail_block okI okB ?q" using assms(2) f by (simp add: start_block_def)
  then show ?thesis using that r f by blast
qed

end
