(* ===== verification/Block_Queue_Fifo.thy ===== *)
theory Block_Queue_Fifo
  imports Block_Queue_Ring
begin

text \<open>
  The contract of a queue that may run out of memory, the run of any sequence of operations under
  it, and its two interpretations: the plain list the models of the components use, and the ring of
  blocks of \<^verbatim>\<open>concurrentqueue.h\<close>.
\<close>

unbundle bit_operations_syntax

section \<open>Sequences of operations\<close>

datatype ('m, 'a) queue_op = Enqueue 'm 'a | Dequeue

datatype 'a queue_answer = Stored bool | Taken "'a option"

primrec run_queue :: "('m \<Rightarrow> 'a \<Rightarrow> 'q \<Rightarrow> (bool \<times> 'q) option) \<Rightarrow> ('q \<Rightarrow> ('a option \<times> 'q) option) \<Rightarrow>
    ('m, 'a) queue_op list \<Rightarrow> 'q \<Rightarrow> ('a queue_answer list \<times> 'q) option" where
  "run_queue enq deq [] q = Some ([], q)"
| "run_queue enq deq (a # as) q =
     (case (case a of
              Enqueue m x \<Rightarrow> map_option (\<lambda>(r, q'). (Stored r, q')) (enq m x q)
            | Dequeue \<Rightarrow> map_option (\<lambda>(r, q'). (Taken r, q')) (deq q)) of
        None \<Rightarrow> None
      | Some (r, q') \<Rightarrow> map_option (\<lambda>(rs, q''). (r # rs, q'')) (run_queue enq deq as q'))"

text \<open>The answers a list gives: an item may be refused when memory is short, and only then.\<close>

fun fifo_answers :: "('m \<Rightarrow> bool) \<Rightarrow> ('m, 'a) queue_op list \<Rightarrow> 'a queue_answer list \<Rightarrow> 'a list \<Rightarrow> 'a list \<Rightarrow> bool" where
  "fifo_answers enough [] [] xs ys \<longleftrightarrow> ys = xs"
| "fifo_answers enough (Enqueue m x # as) (Stored r # rs) xs ys \<longleftrightarrow>
     (enough m \<longrightarrow> r) \<and> fifo_answers enough as rs (if r then enqueue x xs else xs) ys"
| "fifo_answers enough (Dequeue # as) (Taken r # rs) xs ys \<longleftrightarrow>
     r = map_option fst (try_dequeue xs) \<and>
     fifo_answers enough as rs (case try_dequeue xs of None \<Rightarrow> xs | Some (_, xs') \<Rightarrow> xs') ys"
| "fifo_answers enough _ _ xs ys \<longleftrightarrow> False"

locale queue_impl =
  fixes enq :: "'m \<Rightarrow> 'a \<Rightarrow> 'q \<Rightarrow> (bool \<times> 'q) option" and deq :: "'q \<Rightarrow> ('a option \<times> 'q) option"
    and holds :: "nat \<Rightarrow> 'q \<Rightarrow> 'a list \<Rightarrow> bool" and enough :: "'m \<Rightarrow> bool" and limit :: nat
  assumes enq_step: "holds n q xs \<Longrightarrow> n < limit \<Longrightarrow>
      \<exists>r q'. enq m x q = Some (r, q') \<and> (enough m \<longrightarrow> r) \<and> holds (Suc n) q' (if r then enqueue x xs else xs)"
    and deq_step: "holds n q xs \<Longrightarrow> n < limit \<Longrightarrow>
      \<exists>q'. deq q = Some (map_option fst (try_dequeue xs), q') \<and>
        holds (Suc n) q' (case try_dequeue xs of None \<Rightarrow> xs | Some (_, xs') \<Rightarrow> xs')"
begin

lemma run_ok:
  "holds n q xs \<Longrightarrow> n + length as \<le> limit \<Longrightarrow>
   \<exists>rs q' ys. run_queue enq deq as q = Some (rs, q') \<and> fifo_answers enough as rs xs ys \<and> holds (n + length as) q' ys"
proof (induction as arbitrary: n q xs)
  case (Cons a as)
  then have n: "n < limit" "Suc n + length as \<le> limit" by auto
  show ?case
  proof (cases a)
    case (Enqueue m x)
    obtain r q1 where 1: "enq m x q = Some (r, q1)" "enough m \<longrightarrow> r" "holds (Suc n) q1 (if r then enqueue x xs else xs)"
      using enq_step [OF Cons.prems(1) n(1)] by blast
    from Cons.IH [OF this(3) n(2)] obtain rs q' ys where
      "run_queue enq deq as q1 = Some (rs, q')" "fifo_answers enough as rs (if r then enqueue x xs else xs) ys"
      "holds (Suc n + length as) q' ys" by blast
    then show ?thesis using 1 Enqueue by (intro exI [of _ "Stored r # rs"]) auto
  next
    case Dequeue
    let ?xs = "case try_dequeue xs of None \<Rightarrow> xs | Some (_, xs') \<Rightarrow> xs'"
    obtain q1 where 1: "deq q = Some (map_option fst (try_dequeue xs), q1)" "holds (Suc n) q1 ?xs"
      using deq_step [OF Cons.prems(1) n(1)] by blast
    from Cons.IH [OF this(2) n(2)] obtain rs q' ys where
      "run_queue enq deq as q1 = Some (rs, q')" "fifo_answers enough as rs ?xs ys" "holds (Suc n + length as) q' ys" by blast
    then show ?thesis using 1(1) Dequeue
      by (intro exI [of _ "Taken (map_option fst (try_dequeue xs)) # rs"]) auto
  qed
qed simp

end

section \<open>The plain list\<close>

definition list_enqueue :: "unit \<Rightarrow> 'a \<Rightarrow> 'a list \<Rightarrow> (bool \<times> 'a list) option" where
  "list_enqueue _ x q = Some (True, enqueue x q)"

definition list_dequeue :: "'a list \<Rightarrow> ('a option \<times> 'a list) option" where
  "list_dequeue q = Some (case try_dequeue q of None \<Rightarrow> (None, q) | Some (x, q') \<Rightarrow> (Some x, q'))"

interpretation plain: queue_impl list_enqueue list_dequeue "\<lambda>_ q xs. q = xs" "\<lambda>_. True" n for n
  by unfold_locales (auto simp: list_enqueue_def list_dequeue_def split: option.splits prod.splits)

section \<open>The ring of blocks\<close>

lemma new_cqueue_state:
  "\<exists>p. queue_state 0 [] p 0 0 [] (new_cqueue ok_pool ok_index 192)"
proof -
  have "192 div 32 = (6 :: u64)" "(192 :: u64) AND 31 = 0" "drop_bit 1 (32 :: u64) = 16"
    "drop_bit 1 (ceil_to_pow_2 6) = 4" "drop_bit 1 (ceil_to_pow_2 0) = 0" "push_bit 1 16 = (32 :: u64)"
    by code_simp+
  then have q: "new_cqueue ok_pool ok_index 192 =
      \<lparr>q_blocks = replicate (unat (if ok_pool then 6 else 0 :: u64)) new_block, q_pool_index = 0,
       q_pool_size = (if ok_pool then 6 else 0), q_free_list = [], q_tailIndex = 0, q_headIndex = 0,
       q_optimistic = 0, q_overcommit = 0, q_tailBlock = None,
       q_index = (if ok_index then Some \<lparr>bi_size = 32, bi_front = - 1, bi_entries = replicate 32 None\<rparr> else None),
       q_slots_used = 0, q_index_size = (if ok_index then 32 else 16), q_front = 0\<rparr>" (is "_ = ?q")
    unfolding new_cqueue_def Let_def new_block_index_def by (simp add: copied_entries_def)
  have "queue_state 0 [] (if ok_index then 5 else 4) 0 0 [] ?q"
    by (simp add: queue_state_def queue_view_def ring_full_def ring_state_def ring_ok_def flags_ok_def items_ok_def
        index_ok_def pool_ok_def blocks_held_def heads_ok_def entries_ok_def new_block_def set_replicate_conv_if)
  then show ?thesis unfolding q by blast
qed

definition ring_holds :: "nat \<Rightarrow> 'a cqueue \<Rightarrow> 'a list \<Rightarrow> bool" where
  "ring_holds n q xs \<longleftrightarrow> (\<exists>b ids p h t. queue_state b ids p h t xs q \<and> length ids \<le> n)"

lemma producer_size:
  assumes q: "queue_state b ids p h t xs q" and small: "length ids \<le> 2 ^ 57"
  shows "unat (producer_size_approx q) = length xs"
proof -
  have ht: "h + length xs = t" and t: "t \<le> 32 * length ids" and tail: "q_tailIndex q = 32 * b + of_nat t"
    and head: "q_headIndex q = 32 * b + of_nat h"
    using q unfolding queue_state_def queue_view_def ring_state_def heads_ok_def by blast+
  have "circular_less_than (q_headIndex q) (q_tailIndex q) \<longleftrightarrow> h < t"
    using heads_less [OF head tail] ht t small by simp
  moreover have "q_tailIndex q - q_headIndex q = of_nat (length xs)" using head tail ht by auto
  ultimately show ?thesis using ht t small unat_small [of "length xs"] unfolding producer_size_approx_def by auto
qed

lemma ring_contents:
  assumes q: "queue_state b ids p h t xs q" and small: "length ids \<le> 2 ^ 57"
  shows "q_contents q = xs"
proof -
  have v: "queue_view b ids (length ids) p h t xs q" and t: "t \<le> 32 * length ids" and head: "q_headIndex q = 32 * b + of_nat h"
    and tail: "q_tailIndex q = 32 * b + of_nat t" and ht: "h + length xs = t" and it: "items_ok ids h xs (q_blocks q)"
    using q unfolding queue_state_def queue_view_def ring_state_def heads_ok_def by blast+
  then have "q_tailIndex q - q_headIndex q = of_nat (length xs)" by auto
  then have n: "unat (q_tailIndex q - q_headIndex q) = length xs" using ht t small by (simp add: unat_small)
  have "(let i = q_headIndex q + of_nat j in the (block_at i (q_blocks q ! the (block_of i q)))) = xs ! j"
    if j: "j < length xs" for j
  proof -
    have i: "q_headIndex q + of_nat j = 32 * b + of_nat (h + j)" unfolding head by simp
    have "h + j < 32 * length ids" using j ht t by simp
    from block_of_index [OF v this] show ?thesis
      using it j unfolding i Let_def block_at_def block_offset_index items_ok_def by simp
  qed
  then have "q_contents q = map (\<lambda>j. xs ! j) [0..<length xs]" unfolding q_contents_def n by simp
  then show ?thesis by (simp add: map_nth)
qed

text \<open>The operation of the queue whose copies succeed, as the users of the queue see it.\<close>

definition cq_enqueue :: "bool \<times> bool \<Rightarrow> 'a \<Rightarrow> 'a cqueue \<Rightarrow> (bool \<times> 'a cqueue) option" where
  "cq_enqueue ok x q = map_option (\<lambda>(r, q'). (r = Item_stored, q')) (producer_enqueue ok True x q)"

interpretation ring: queue_impl cq_enqueue cq_try_dequeue ring_holds "\<lambda>m. fst m \<and> snd m" "2 ^ 57"
proof unfold_locales
  fix n :: nat and q :: "'a cqueue" and xs m x
  assume h: "ring_holds n q xs" "n < 2 ^ 57"
  then obtain b ids p hd t where q: "queue_state b ids p hd t xs q" and n: "length ids \<le> n" unfolding ring_holds_def by blast
  have "length ids < 2 ^ 57" using n h(2) by simp
  from enqueue_item [OF q this, of m x]
  show "\<exists>r q'. cq_enqueue m x q = Some (r, q') \<and> (fst m \<and> snd m \<longrightarrow> r) \<and>
          ring_holds (Suc n) q' (if r then enqueue x xs else xs)"
    using n unfolding ring_holds_def enqueue_def cq_enqueue_def by (elim disjE exE conjE) fastforce+
next
  fix n :: nat and q :: "'a cqueue" and xs
  assume h: "ring_holds n q xs" "n < 2 ^ 57"
  then obtain b ids p hd t where q: "queue_state b ids p hd t xs q" and n: "length ids \<le> n" unfolding ring_holds_def by blast
  have small: "length ids \<le> 2 ^ 57" "t < 2 ^ 63" using q n h(2) unfolding queue_state_def queue_view_def by auto
  have size: "producer_size_approx q > 0 \<longleftrightarrow> xs \<noteq> []"
    using producer_size [OF q small(1)] by (auto simp: word_less_nat_alt)
  show "\<exists>q'. cq_try_dequeue q = Some (map_option fst (try_dequeue xs), q') \<and>
          ring_holds (Suc n) q' (case try_dequeue xs of None \<Rightarrow> xs | Some (_, xs') \<Rightarrow> xs')"
  proof (cases xs)
    case Nil
    then show ?thesis using size q n unfolding cq_try_dequeue_def ring_holds_def by fastforce
  next
    case (Cons x ys)
    then show ?thesis using size dequeue_item [of b ids p hd t x ys q] q n small(2)
      unfolding cq_try_dequeue_def ring_holds_def by fastforce
  qed
qed

section \<open>The queue of the worker thread\<close>

text \<open>The answers of a queue that never runs out of memory are determined by the operations.\<close>

lemma fifo_answers_unique:
  "fifo_answers enough ops rs xs ys \<Longrightarrow> list_all (\<lambda>a. case a of Enqueue m x \<Rightarrow> enough m | Dequeue \<Rightarrow> True) ops \<Longrightarrow>
   run_queue list_enqueue list_dequeue (map (map_queue_op (\<lambda>_. ()) (\<lambda>x. x)) ops) xs = Some (rs, ys)"
proof (induction enough ops rs xs ys rule: fifo_answers.induct)
  case (3 enough as r rs xs ys)
  then show ?case by (cases xs) (auto simp: list_dequeue_def)
qed (auto simp: list_enqueue_def)

text \<open>
  C30. Refinement: the queue of the worker thread, a ring of blocks of 32 slots found through a
  circular index that doubles when it is full, with indices that are 64-bit numbers, behaves like a list
  for every sequence of up to \<open>2 ^ 57\<close> operations, whatever allocations of memory fail: no operation goes
  through an invalid pointer or an unset entry of the index; an item is refused only when memory is
  missing, and then the queue is as it was; every other item comes out once, in order; the items left
  and their number are those of the list.
\<close>

theorem block_queue_fifo:
  assumes "length ops \<le> 2 ^ 57"
  shows "\<exists>rs q ys.
    run_queue cq_enqueue cq_try_dequeue ops (new_cqueue ok_pool ok_index 192) = Some (rs, q) \<and>
    fifo_answers (\<lambda>m. fst m \<and> snd m) ops rs [] ys \<and>
    q_contents q = ys \<and> unat (producer_size_approx q) = length ys"
proof -
  have "ring_holds 0 (new_cqueue ok_pool ok_index 192) ([] :: 'a list)"
    using new_cqueue_state unfolding ring_holds_def by fastforce
  from ring.run_ok [OF this, of ops] assms obtain rs and q :: "'a cqueue" and ys where
    run: "run_queue cq_enqueue cq_try_dequeue ops (new_cqueue ok_pool ok_index 192) = Some (rs, q)"
    "fifo_answers (\<lambda>m. fst m \<and> snd m) ops rs [] ys" and holds: "ring_holds (length ops) q ys"
    by auto
  obtain b ids p h t where "queue_state b ids p h t ys q" "length ids \<le> 2 ^ 57"
    using holds assms unfolding ring_holds_def by fastforce
  from ring_contents [OF this] producer_size [OF this] show ?thesis using run by blast
qed

text \<open>Three items through the queue of the worker thread.\<close>

theorem block_queue_fifo_witness:
  "\<exists>q. run_queue cq_enqueue cq_try_dequeue
      [Enqueue (True, True) (1 :: nat), Enqueue (True, True) 2, Dequeue, Enqueue (True, True) 3, Dequeue, Dequeue, Dequeue]
      (new_cqueue True True 192) =
    Some ([Stored True, Stored True, Taken (Some 1), Stored True, Taken (Some 2), Taken (Some 3), Taken None], q) \<and>
    q_contents q = [] \<and> unat (producer_size_approx q) = 0"
proof -
  let ?ops = "[Enqueue (True, True) (1 :: nat), Enqueue (True, True) 2, Dequeue, Enqueue (True, True) 3, Dequeue, Dequeue, Dequeue]"
  obtain rs ys and q :: "nat cqueue" where
    r: "run_queue cq_enqueue cq_try_dequeue ?ops (new_cqueue True True 192) = Some (rs, q)"
    "fifo_answers (\<lambda>m. fst m \<and> snd m) ?ops rs [] ys" "q_contents q = ys" "unat (producer_size_approx q) = length ys"
    using block_queue_fifo [of ?ops True True] by auto
  have "run_queue list_enqueue list_dequeue (map (map_queue_op (\<lambda>_. ()) (\<lambda>x. x)) ?ops) [] = Some (rs, ys)"
    by (rule fifo_answers_unique [OF r(2)]) simp
  then have "rs = [Stored True, Stored True, Taken (Some 1), Stored True, Taken (Some 2), Taken (Some 3), Taken None]"
    "ys = []" by (auto simp: list_enqueue_def list_dequeue_def enqueue_def)
  then show ?thesis using r by simp
qed

end
