(* ===== verification/Queue_Threads_Inv.thy ===== *)
theory Queue_Threads_Inv
  imports Queue_Threads Block_Queue_Fifo
begin

text \<open>
  The invariant of the two threads. Each program point of a thread has an assertion over the ring, and
  no step of the other thread invalidates it; the ring itself is the \<^const>\<open>queue_view\<close> of the
  operations that run alone.
\<close>

unbundle bit_operations_syntax

section \<open>Assertions\<close>

fun producer_at :: "u64 \<Rightarrow> nat list \<Rightarrow> nat \<Rightarrow> nat \<Rightarrow> 'a cqueue \<Rightarrow> 'a producer_pc \<Rightarrow> bool" where
  "producer_at b ids ne t q P_idle \<longleftrightarrow> ne = length ids \<and> ring_full ids t"
| "producer_at b ids ne t q (P_begin ok x tail) \<longleftrightarrow> ne = length ids \<and> ring_full ids t \<and> tail = q_tailIndex q"
| "producer_at b ids ne t q (P_middle x tail) \<longleftrightarrow>
     ne = length ids \<and> ring_full ids t \<and> tail = q_tailIndex q \<and> t < 32 * length ids"
| "producer_at b ids ne t q (P_block x tail) \<longleftrightarrow>
     length ids = Suc ne \<and> t = 32 * ne \<and> tail = q_tailIndex q \<and> q_index q \<noteq> None"
| "producer_at b ids ne t q (P_entry x tail) \<longleftrightarrow>
     length ids = Suc ne \<and> t = 32 * ne \<and> tail = q_tailIndex q \<and> q_index q \<noteq> None \<and> slot_holds ids t x q"
| "producer_at b ids ne t q (P_front x tail) \<longleftrightarrow>
     length ids = Suc ne \<and> t = 32 * ne \<and> tail = q_tailIndex q \<and> slot_holds ids t x q \<and> entry_written b ids ne q"
| "producer_at b ids ne t q (P_store x tail) \<longleftrightarrow>
     ne = length ids \<and> t < 32 * ne \<and> 32 * ne \<le> t + 32 \<and> tail = q_tailIndex q \<and> slot_holds ids t x q"
| "producer_at b ids ne t q P_fault \<longleftrightarrow> False"

text \<open>The two counts of the consumer: \<open>h\<close> items removed, \<open>c\<close> claimed and not yet removed.\<close>

definition heads_at :: "u64 \<Rightarrow> nat \<Rightarrow> nat \<Rightarrow> 'a cqueue \<Rightarrow> bool" where
  "heads_at b h c q \<longleftrightarrow>
     q_headIndex q = 32 * b + of_nat h \<and> q_optimistic q - q_overcommit q = 32 * b + of_nat (h + c)"

text \<open>An index and a front of it that lead to the block of the consumer's item: block \<open>m - 1\<close> is in front.\<close>

definition reads :: "u64 \<Rightarrow> nat list \<Rightarrow> nat \<Rightarrow> nat \<Rightarrow> nat \<Rightarrow> 'a cqueue \<Rightarrow> block_index list \<Rightarrow> nat \<Rightarrow> u64 \<Rightarrow> nat \<Rightarrow> bool" where
  "reads b ids ne p f q old r front m \<longleftrightarrow> f div 32 < m \<and> m \<le> ne \<and>
     (if r < length old then \<exists>p' g. front = take_bit p' g \<and> window b ids (f div 32) m p' g (old ! r)
      else r = length old \<and> front = take_bit p (q_front q - of_nat (ne - (m - 1))))"

fun consumer_at :: "u64 \<Rightarrow> nat list \<Rightarrow> nat \<Rightarrow> nat \<Rightarrow> nat \<Rightarrow> nat \<Rightarrow> 'a list \<Rightarrow> 'a cqueue \<Rightarrow> block_index list \<Rightarrow> 'a consumer_pc \<Rightarrow> bool" where
  "consumer_at b ids ne p f t xs q old C_idle \<longleftrightarrow> heads_at b f 0 q"
| "consumer_at b ids ne p f t xs q old C_sized \<longleftrightarrow> heads_at b f 0 q \<and> f < t"
| "consumer_at b ids ne p f t xs q old (C_checked over) \<longleftrightarrow> heads_at b f 0 q \<and> f < t \<and> over = q_overcommit q"
| "consumer_at b ids ne p f t xs q old (C_claimed over my) \<longleftrightarrow>
     heads_at b f 1 q \<and> f < t \<and> over = q_overcommit q \<and> my = q_optimistic q - 1"
| "consumer_at b ids ne p f t xs q old C_ready \<longleftrightarrow> heads_at b f 1 q \<and> f < t"
| "consumer_at b ids ne p f t xs q old (C_index i) \<longleftrightarrow>
     heads_at b (Suc f) 0 q \<and> f < t \<and> i = 32 * b + of_nat f"
| "consumer_at b ids ne p f t xs q old (C_header i r) \<longleftrightarrow>
     heads_at b (Suc f) 0 q \<and> f < t \<and> i = 32 * b + of_nat f \<and> r \<le> length old \<and>
     (r < length old \<longrightarrow> (\<exists>m. reads b ids ne p f q old r (bi_front (old ! r)) m))"
| "consumer_at b ids ne p f t xs q old (C_front i r front) \<longleftrightarrow>
     heads_at b (Suc f) 0 q \<and> f < t \<and> i = 32 * b + of_nat f \<and> (\<exists>m. reads b ids ne p f q old r front m)"
| "consumer_at b ids ne p f t xs q old (C_base i r front hb) \<longleftrightarrow>
     heads_at b (Suc f) 0 q \<and> f < t \<and> i = 32 * b + of_nat f \<and>
     (\<exists>m. reads b ids ne p f q old r front m \<and> hb = 32 * (b + of_nat (m - 1)))"
| "consumer_at b ids ne p f t xs q old (C_block i blk) \<longleftrightarrow>
     heads_at b (Suc f) 0 q \<and> f < t \<and> i = 32 * b + of_nat f \<and> blk = ids ! (f div 32)"
| "consumer_at b ids ne p f t xs q old (C_moved i blk x) \<longleftrightarrow>
     heads_at b (Suc f) 0 q \<and> f < t \<and> i = 32 * b + of_nat f \<and> blk = ids ! (f div 32) \<and> xs \<noteq> [] \<and> x = hd xs"
| "consumer_at b ids ne p f t xs q old C_fault \<longleftrightarrow> False"

definition threads_ok :: "u64 \<Rightarrow> nat list \<Rightarrow> nat \<Rightarrow> nat \<Rightarrow> nat \<Rightarrow> nat \<Rightarrow> 'a list \<Rightarrow> 'a threads \<Rightarrow> bool" where
  "threads_ok b ids ne p f t xs s \<longleftrightarrow>
     queue_view b ids ne p f t xs (th_queue s) \<and> producer_at b ids ne t (th_queue s) (th_producer s) \<and>
     consumer_at b ids ne p f t xs (th_queue s) (th_retired s) (th_consumer s) \<and>
     replay_queue (th_events s) [] = Some xs"

definition threads_inv :: "nat \<Rightarrow> 'a threads \<Rightarrow> bool" where
  "threads_inv n s \<longleftrightarrow> (\<exists>b ids ne p f t xs. threads_ok b ids ne p f t xs s \<and> length ids \<le> n)"

section \<open>Steps of the consumer\<close>

lemma reads_window:
  assumes v: "queue_view b ids ne p f t xs (th_queue s)" and r: "reads b ids ne p f (th_queue s) (th_retired s) r front m"
  obtains bi p' g where "index_header r s = Some bi" "front = take_bit p' g" "window b ids (f div 32) m p' g bi"
proof (cases "r < length (th_retired s)")
  case True
  then show ?thesis using r that unfolding reads_def index_header_def by auto
next
  case False
  have m: "f div 32 < m" "m \<le> ne" and front: "front = take_bit p (q_front (th_queue s) - of_nat (ne - (m - 1)))"
    using r False unfolding reads_def by auto
  have "0 < ne" using m by simp
  then obtain bi where "q_index (th_queue s) = Some bi" by (rule view_index [OF v])
  then show ?thesis using that view_window [OF v _ m] front False unfolding index_header_def by auto
qed

lemma consumer_reads:
  assumes ok: "threads_ok b ids ne p f t xs s" and pc: "th_consumer s = C_header i r \<or> th_consumer s = C_front i r front \<or>
      th_consumer s = C_base i r front hb \<or> th_consumer s = C_block i blk \<or> th_consumer s = C_index i"
  shows "threads_ok b ids ne p f t xs (consumer_step s)"
proof -
  let ?q = "th_queue s"
  have v: "queue_view b ids ne p f t xs ?q" and at: "consumer_at b ids ne p f t xs ?q (th_retired s) (th_consumer s)"
    using ok unfolding threads_ok_def by blast+
  have t: "t \<le> 32 * ne" and ht: "f + length xs = t" using v unfolding queue_view_def ring_state_def by blast+
  have "f < t" using at pc by auto
  then have k: "f div 32 < ne" and xs: "xs \<noteq> []" using t ht by auto
  then have "0 < ne" by simp
  then obtain cur where cur: "q_index ?q = Some cur" "bi_front cur = take_bit p (q_front ?q - 1)" by (rule view_index [OF v])
  have "ne - (ne - 1) = 1" using k by arith
  then have now: "reads b ids ne p f ?q (th_retired s) (length (th_retired s)) (bi_front cur) ne"
    using k cur(2) unfolding reads_def by simp
  obtain x ys where xs: "xs = x # ys" using xs by (cases xs) auto
  have stay: "threads_ok b ids ne p f t xs (s\<lparr>th_consumer := pc\<rparr>)"
    if "consumer_at b ids ne p f t xs ?q (th_retired s) pc" for pc
    using ok that unfolding threads_ok_def by simp
  show ?thesis using pc
  proof (elim disjE)
    assume "th_consumer s = C_index i"
    then show ?thesis using at cur(1) stay [of "C_header i (length (th_retired s))"] unfolding consumer_step_def by simp
  next
    assume c: "th_consumer s = C_header i r"
    obtain bi m where "index_header r s = Some bi" "reads b ids ne p f ?q (th_retired s) r (bi_front bi) m"
      using at now cur(1) unfolding c index_header_def by (cases "r < length (th_retired s)") auto
    moreover have "heads_at b (Suc f) 0 ?q" "f < t" "i = 32 * b + of_nat f" using at unfolding c by simp_all
    ultimately show ?thesis using stay [of "C_front i r (bi_front bi)"] unfolding c consumer_step_def by auto
  next
    assume c: "th_consumer s = C_front i r front"
    then obtain m where r: "reads b ids ne p f ?q (th_retired s) r front m" using at by auto
    obtain bi p' g where w: "index_header r s = Some bi" "front = take_bit p' g" "window b ids (f div 32) m p' g bi"
      by (rule reads_window [OF v r])
    show ?thesis using at r w window_base [OF w(3)] stay [of "C_base i r front (32 * (b + of_nat (m - 1)))"]
      unfolding c consumer_step_def by auto
  next
    assume c: "th_consumer s = C_base i r front hb"
    then obtain m where r: "reads b ids ne p f ?q (th_retired s) r front m" and hb: "hb = 32 * (b + of_nat (m - 1))"
      using at by auto
    obtain bi p' g where w: "index_header r s = Some bi" "front = take_bit p' g" "window b ids (f div 32) m p' g bi"
      by (rule reads_window [OF v r])
    have "i = 32 * b + of_nat f" using at unfolding c by auto
    then show ?thesis using at w window_block [OF w(3)] stay [of "C_block i (ids ! (f div 32))"]
      unfolding c hb consumer_step_def by simp
  next
    assume c: "th_consumer s = C_block i blk"
    have "block_at i (q_blocks ?q ! blk) = Some x" using at take_view(2) [of b ids ne p f t x ys ?q] v unfolding c xs by simp
    then show ?thesis using at stay [of "C_moved i blk x"] xs unfolding c consumer_step_def by simp
  qed
qed

lemma producer_at_heads [simp]:
  "producer_at b ids ne t (q\<lparr>q_headIndex := a\<rparr>) pc \<longleftrightarrow> producer_at b ids ne t q pc"
  "producer_at b ids ne t (q\<lparr>q_optimistic := a\<rparr>) pc \<longleftrightarrow> producer_at b ids ne t q pc"
  by (cases pc; simp add: slot_holds_def entry_written_def)+

lemma replay_snoc:
  "replay_queue es [] = Some xs \<Longrightarrow> replay_queue (es @ [e]) [] = replay_event e xs"
  by (simp add: replay_queue_append) (cases "replay_event e xs"; simp)

text \<open>The steps on the counters: the consumer finds the queue empty only when it is.\<close>

lemma consumer_counts:
  assumes ok: "threads_ok b ids ne p f t xs s" and small: "length ids \<le> 2 ^ 57"
    and pc: "th_consumer s \<in> {C_idle, C_sized, C_ready} \<union> range C_checked \<union> {C_claimed x y |x y. True}"
  shows "threads_ok b ids ne p f t xs (consumer_step s)"
proof -
  let ?q = "th_queue s"
  have v: "queue_view b ids ne p f t xs ?q" and at: "consumer_at b ids ne p f t xs ?q (th_retired s) (th_consumer s)"
    and pr: "producer_at b ids ne t ?q (th_producer s)" and rp: "replay_queue (th_events s) [] = Some xs"
    using ok unfolding threads_ok_def by blast+
  have t: "t \<le> 32 * ne" "ne \<le> length ids" and ht: "f + length xs = t" and tail: "q_tailIndex ?q = 32 * b + of_nat t"
    using v unfolding queue_view_def ring_state_def by blast+
  have t63: "t < 2 ^ 63" and ft: "f \<le> t" using t small ht by auto
  then have less: "circular_less_than (32 * b + of_nat f) (q_tailIndex ?q) \<longleftrightarrow> f < t"
    unfolding tail by (intro indices_less) auto
  consider "th_consumer s = C_idle" | "th_consumer s = C_sized" | over where "th_consumer s = C_checked over"
    | over my where "th_consumer s = C_claimed over my" | "th_consumer s = C_ready" using pc by auto
  then show ?thesis
  proof cases
    case 1
    then have "q_headIndex ?q = 32 * b + of_nat f" using at by (simp add: heads_at_def)
    then have "circular_less_than (q_headIndex ?q) (q_tailIndex ?q) \<longleftrightarrow> f < t" and
      "q_tailIndex ?q - q_headIndex ?q = of_nat (t - f)"
      using less tail ft by (simp_all add: of_nat_diff)
    moreover have "0 < (of_nat (t - f) :: u64) \<longleftrightarrow> f < t"
      using unat_small [of "t - f"] t63 by (simp add: word_less_nat_alt)
    ultimately have "producer_size_approx ?q > 0 \<longleftrightarrow> f < t" unfolding producer_size_approx_def by auto
    then show ?thesis using ok 1 ht replay_snoc [OF rp, of Found_empty]
      unfolding threads_ok_def consumer_step_def by (auto simp: consumer_empty_def try_dequeue_def Let_def)
  next
    case 2
    then have "circular_less_than (q_optimistic ?q - q_overcommit ?q) (q_tailIndex ?q)"
      using at less by (simp add: heads_at_def)
    then show ?thesis using ok 2 unfolding threads_ok_def consumer_step_def by (simp add: Let_def)
  next
    case 3
    then show ?thesis using v pr at rp unfolding threads_ok_def consumer_step_def heads_at_def
      by (simp add: Let_def heads_at_def algebra_simps)
  next
    case 4
    then have e: "my = q_optimistic ?q - 1" "over = q_overcommit ?q"
      and o: "q_optimistic ?q - q_overcommit ?q = 32 * b + of_nat (f + 1)" using at by (simp_all add: heads_at_def)
    have "my - over = q_optimistic ?q - q_overcommit ?q - 1" unfolding e by simp
    then have "my - over = 32 * b + of_nat f" unfolding o by simp
    then have "circular_less_than (my - over) (q_tailIndex ?q)" using at 4 less by simp
    then show ?thesis using ok 4 unfolding threads_ok_def consumer_step_def by (simp add: Let_def)
  next
    case 5
    then show ?thesis using v pr at rp unfolding threads_ok_def consumer_step_def heads_at_def
      by (simp add: Let_def heads_at_def algebra_simps)
  qed
qed

text \<open>The end of a removal leaves the slot of the producer alone.\<close>

lemma producer_at_take:
  assumes v: "queue_view b ids ne p f t (x # xs) q" and pr: "producer_at b ids ne t q pc"
  shows "producer_at b ids ne t
    (on_block (ids ! (f div 32)) (block_set_empty (32 * b + of_nat f) \<circ> block_put (32 * b + of_nat f) None) q) pc"
proof -
  have d: "distinct ids" and ft: "f < t" and n: "ne \<le> length ids" "t \<le> 32 * ne"
    using v unfolding queue_view_def ring_state_def pool_ok_def by auto
  note kb = take_view(3) [OF v]
  have slot: "slot_holds ids t y (on_block (ids ! (f div 32))
      (block_set_empty (32 * b + of_nat f) \<circ> block_put (32 * b + of_nat f) None) q)"
    if y: "slot_holds ids t y q" "t < 32 * length ids" for y
  proof -
    have k: "f div 32 < length ids" "t div 32 < length ids" using ft y(2) by auto
    have "f div 32 = t div 32 \<Longrightarrow> f mod 32 \<noteq> t mod 32" using ft by (metis div_mult_mod_eq less_irrefl)
    then show ?thesis using y(1) k kb d unfolding slot_holds_def
      by (auto simp: nth_block block_set_empty_def block_put_def block_offset_index)
  qed
  show ?thesis using pr slot n by (cases pc) (auto simp: entry_written_def)
qed

lemma consumer_finish:
  assumes ok: "threads_ok b ids ne p f t xs s" and pc: "th_consumer s = C_moved i blk y"
  shows "threads_ok b ids ne p (Suc f) t (tl xs) (consumer_step s)"
proof -
  let ?q = "th_queue s"
  have at: "consumer_at b ids ne p f t xs ?q (th_retired s) (C_moved i blk y)" using ok pc unfolding threads_ok_def by simp
  then obtain ys where xs: "xs = y # ys" by (cases xs) auto
  have v: "queue_view b ids ne p f t (y # ys) ?q" and pr: "producer_at b ids ne t ?q (th_producer s)"
    and rp: "replay_queue (th_events s) [] = Some (y # ys)" using ok unfolding threads_ok_def xs by blast+
  have i: "i = 32 * b + of_nat f" "blk = ids ! (f div 32)" "heads_at b (Suc f) 0 ?q" using at by simp_all
  show ?thesis using take_view(1) [OF v] producer_at_take [OF v pr] replay_snoc [OF rp, of "Took y"] i
    unfolding threads_ok_def consumer_step_def pc xs by (simp add: Let_def heads_at_def del: o_apply)
qed

lemma consumer_step_inv:
  assumes inv: "threads_inv n s" and n: "n \<le> 2 ^ 57"
  shows "threads_inv n (consumer_step s)"
proof -
  obtain b ids ne p f t xs where ok: "threads_ok b ids ne p f t xs s" and ids: "length ids \<le> n"
    using inv unfolding threads_inv_def by blast
  have "\<exists>f xs. threads_ok b ids ne p f t xs (consumer_step s)"
  proof (cases "th_consumer s")
    case (C_moved i blk y)
    then show ?thesis using consumer_finish [OF ok] by blast
  next
    case C_fault
    then show ?thesis using ok unfolding threads_ok_def by simp
  qed (use consumer_counts [OF ok] consumer_reads [OF ok] ids n in auto)
  then show ?thesis using ids unfolding threads_inv_def by blast
qed

section \<open>Steps of the producer\<close>

text \<open>What the consumer relies on: the counters it owns, and the place of the newest entry.\<close>

lemma reads_same: "q_front q' = q_front q \<Longrightarrow> reads b ids ne p f q' = reads b ids ne p f q"
  by (intro ext) (simp add: reads_def)

lemma consumer_at_same:
  assumes "q_headIndex q' = q_headIndex q" "q_optimistic q' = q_optimistic q" "q_overcommit q' = q_overcommit q"
    "q_front q' = q_front q"
  shows "consumer_at b ids ne p f t xs q' old pc \<longleftrightarrow> consumer_at b ids ne p f t xs q old pc"
  by (cases pc; simp add: assms heads_at_def reads_same [OF assms(4)])

lemma reads_publish:
  assumes r: "reads b ids ne p f q old r front m" and p: "p \<le> 58" and q': "q_front q' = take_bit p (q_front q + 1)"
  shows "reads b ids (Suc ne) p f q' old r front m"
proof (cases "r < length old")
  case True
  then show ?thesis using r unfolding reads_def by auto
next
  case False
  then have m: "f div 32 < m" "m \<le> ne" "r = length old" and front: "front = take_bit p (q_front q - of_nat (ne - (m - 1)))"
    using r unfolding reads_def by auto
  have "take_bit p (q_front q' + - of_nat (Suc ne - (m - 1))) = take_bit p (q_front q + 1 + - of_nat (Suc ne - (m - 1)))"
    unfolding q' using p by (intro take_bit_plus_left) simp
  also have "q_front q + 1 + - of_nat (Suc ne - (m - 1)) = q_front q - of_nat (ne - (m - 1))"
    using m(2) by (simp add: Suc_diff_le)
  finally have "front = take_bit p (q_front q' - of_nat (Suc ne - (m - 1)))"
    unfolding front by (simp only: diff_conv_add_uminus)
  then show ?thesis using m unfolding reads_def by simp
qed

lemma consumer_at_publish:
  assumes "consumer_at b ids ne p f t xs q old pc" and p: "p \<le> 58" and q': "q_front q' = take_bit p (q_front q + 1)"
    and same: "q_headIndex q' = q_headIndex q" "q_optimistic q' = q_optimistic q" "q_overcommit q' = q_overcommit q"
  shows "consumer_at b ids (Suc ne) p f t xs q' old pc"
  using assms(1) reads_publish [OF _ p q'] by (cases pc) (auto simp: same heads_at_def; blast)+

lemma consumer_at_store:
  assumes "consumer_at b ids ne p f t xs q old pc" and "q_headIndex q' = q_headIndex q" "q_optimistic q' = q_optimistic q"
    "q_overcommit q' = q_overcommit q" "q_front q' = q_front q"
  shows "consumer_at b ids ne p f (Suc t) (xs @ [x]) q' old pc"
  using assms(1) by (cases pc) (auto simp: heads_at_def assms(2-4) reads_same [OF assms(5)])

lemma producer_writes:
  assumes ok: "threads_ok b ids ne p f t xs s"
    and pc: "th_producer s = P_middle x tail \<or> th_producer s = P_block x tail \<or> th_producer s = P_entry x tail"
  shows "threads_ok b ids ne p f t xs (producer_step okm y s)"
proof -
  let ?q = "th_queue s"
  have v: "queue_view b ids ne p f t xs ?q" and at: "producer_at b ids ne t ?q (th_producer s)"
    and co: "consumer_at b ids ne p f t xs ?q (th_retired s) (th_consumer s)" and rp: "replay_queue (th_events s) [] = Some xs"
    using ok unfolding threads_ok_def by blast+
  have put: "threads_ok b ids ne p f t xs (producer_then pc' (put_item tail x ?q) s)"
    if t: "t < 32 * length ids" "32 * length ids \<le> t + 32" "tail = q_tailIndex ?q"
      and pc': "\<And>bs. slot_holds ids t x (?q\<lparr>q_blocks := bs\<rparr>) \<Longrightarrow> producer_at b ids ne t (?q\<lparr>q_blocks := bs\<rparr>) pc'" for pc'
  proof -
    obtain bs where q': "put_item tail x ?q = Some (?q\<lparr>q_blocks := bs\<rparr>)" "queue_view b ids ne p f t xs (?q\<lparr>q_blocks := bs\<rparr>)"
      "slot_holds ids t x (?q\<lparr>q_blocks := bs\<rparr>)"
      by (rule put_item_view [OF v t])
    have "consumer_at b ids ne p f t xs (?q\<lparr>q_blocks := bs\<rparr>) (th_retired s) (th_consumer s)"
      using co by (subst consumer_at_same [of _ ?q]) simp_all
    then show ?thesis using q'(1,2) pc' [OF q'(3)] rp unfolding threads_ok_def producer_then_def by simp
  qed
  show ?thesis using pc
  proof (elim disjE)
    assume c: "th_producer s = P_middle x tail"
    then have "32 * length ids \<le> t + 32" using at by (auto simp: ring_full_def)
    then show ?thesis using put [of "P_store x tail"] at unfolding producer_step_def c by (simp add: Let_def)
  next
    assume c: "th_producer s = P_block x tail"
    then show ?thesis using put [of "P_entry x tail"] at unfolding producer_step_def c by (simp add: Let_def)
  next
    assume c: "th_producer s = P_entry x tail"
    then have n: "length ids = Suc ne" "t = 32 * ne" "tail = q_tailIndex ?q" "slot_holds ids t x ?q"
      and bi: "q_index ?q \<noteq> None" using at unfolding c producer_at.simps by blast+
    obtain cur where cur: "q_index ?q = Some cur" using bi by blast
    have "tail = 32 * (b + of_nat ne)" using v n unfolding queue_view_def ring_state_def by (simp add: algebra_simps)
    then obtain es where w: "write_entry tail ?q = Some (?q\<lparr>q_index := Some (cur\<lparr>bi_entries := es\<rparr>)\<rparr>)"
      "queue_view b ids ne p f t xs (?q\<lparr>q_index := Some (cur\<lparr>bi_entries := es\<rparr>)\<rparr>)"
      "entry_written b ids ne (?q\<lparr>q_index := Some (cur\<lparr>bi_entries := es\<rparr>)\<rparr>)"
      by (rule write_entry_view [OF v n(1) cur])
    have "consumer_at b ids ne p f t xs (?q\<lparr>q_index := Some (cur\<lparr>bi_entries := es\<rparr>)\<rparr>) (th_retired s) (th_consumer s)"
      using co by (subst consumer_at_same [of _ ?q]) simp_all
    then show ?thesis using w n rp unfolding threads_ok_def producer_step_def c producer_then_def
      by (simp add: slot_holds_def)
  qed
qed

lemma producer_publishes:
  assumes ok: "threads_ok b ids ne p f t xs s" and c: "th_producer s = P_front x tail"
  shows "threads_ok b ids (Suc ne) p f t xs (producer_step okm y s)"
proof -
  let ?q = "th_queue s"
  have v: "queue_view b ids ne p f t xs ?q" and co: "consumer_at b ids ne p f t xs ?q (th_retired s) (th_consumer s)"
    and rp: "replay_queue (th_events s) [] = Some xs" and n: "length ids = Suc ne" "t = 32 * ne" "tail = q_tailIndex ?q"
    "slot_holds ids t x ?q" and w: "entry_written b ids ne ?q"
    using ok unfolding threads_ok_def c producer_at.simps by blast+
  obtain bi where bi: "q_index ?q = Some bi" using w unfolding entry_written_def by blast
  have "p \<le> 58" using v unfolding queue_view_def ring_state_def index_ok_def by blast
  then have "consumer_at b ids (Suc ne) p f t xs
      (?q\<lparr>q_index := Some (bi\<lparr>bi_front := q_front ?q\<rparr>), q_front := take_bit p (q_front ?q + 1)\<rparr>) (th_retired s) (th_consumer s)"
    using consumer_at_publish [OF co] by simp
  then show ?thesis using publish_front_view [OF v n(1) w bi] n rp
    unfolding threads_ok_def producer_step_def c producer_then_def by (simp add: slot_holds_def)
qed

lemma producer_stores:
  assumes ok: "threads_ok b ids ne p f t xs s" and c: "th_producer s = P_store x tail"
  shows "threads_ok b ids ne p f (Suc t) (xs @ [x]) (producer_step okm y s)"
proof -
  let ?q = "th_queue s"
  have v: "queue_view b ids ne p f t xs ?q" and co: "consumer_at b ids ne p f t xs ?q (th_retired s) (th_consumer s)"
    and rp: "replay_queue (th_events s) [] = Some xs" and n: "ne = length ids" "t < 32 * ne" "32 * ne \<le> t + 32"
    "tail = q_tailIndex ?q" "slot_holds ids t x ?q"
    using ok unfolding threads_ok_def c producer_at.simps by blast+
  have "consumer_at b ids ne p f (Suc t) (xs @ [x]) (?q\<lparr>q_tailIndex := 1 + tail\<rparr>) (th_retired s) (th_consumer s)"
    by (rule consumer_at_store [OF co]) simp_all
  moreover have "ring_full ids (Suc t)" using n unfolding ring_full_def by simp
  ultimately show ?thesis using store_view [OF v n(5,2,4)] replay_snoc [OF rp, of "Put x"] n
    unfolding threads_ok_def producer_step_def c by (simp add: Let_def enqueue_def)
qed

section \<open>The start of a block\<close>

text \<open>The numbers of the ring after \<open>d\<close> blocks have gone from its front to its end.\<close>

definition moved_by :: "nat \<Rightarrow> u64 \<Rightarrow> nat list \<Rightarrow> nat \<Rightarrow> nat \<Rightarrow> u64 \<Rightarrow> nat list \<Rightarrow> nat \<Rightarrow> nat \<Rightarrow> bool" where
  "moved_by d b ids f t b' ids' f' t' \<longleftrightarrow> b' = b + of_nat d \<and> f = f' + 32 * d \<and> t = t' + 32 * d \<and>
     (\<forall>k. d \<le> k \<and> k < length ids \<longrightarrow> k - d < length ids' \<and> ids' ! (k - d) = ids ! k)"

lemma ring_moved_by:
  assumes "ring_moved b ids f t b' ids' f' t'"
  obtains d where "moved_by d b ids f t b' ids' f' t'" "length ids' - 1 = length ids - d"
  using assms unfolding ring_moved_def
proof (elim disjE exE conjE)
  fix i rest assume "ids = i # rest" "ids' = rest @ [i]" "b' = b + 1" "32 \<le> f" "32 \<le> t" "f' = f - 32" "t' = t - 32"
  then have "moved_by 1 b ids f t b' ids' f' t'" "length ids' - 1 = length ids - 1"
    unfolding moved_by_def by (auto simp: nth_append nth_Cons' less_Suc_eq)
  then show ?thesis by (rule that)
next
  fix i assume "ids' = ids @ [i]" "b' = b" "f' = f" "t' = t"
  then have "moved_by 0 b ids f t b' ids' f' t'" "length ids' - 1 = length ids - 0"
    unfolding moved_by_def by (auto simp: nth_append)
  then show ?thesis by (rule that)
qed

lemma moved_by_block:
  assumes "moved_by d b ids f t b' ids' f' t'"
  shows "f div 32 = f' div 32 + d" and "32 * b' + of_nat f' = 32 * b + of_nat f"
    and "d < m \<Longrightarrow> b' + of_nat (m - d - 1) = b + of_nat (m - 1)"
  using assms unfolding moved_by_def by (auto simp: algebra_simps of_nat_diff)

lemma window_moved:
  assumes mv: "moved_by d b ids f t b' ids' f' t'" and w: "window b ids (f div 32) m p g bi"
  shows "window b' ids' (f' div 32) (m - d) p g bi"
proof -
  have f: "f div 32 = f' div 32 + d" using moved_by_block(1) [OF mv] .
  have m: "f div 32 < m" "m \<le> length ids" using w unfolding window_def by blast+
  have ids: "\<And>k. d \<le> k \<Longrightarrow> k < length ids \<Longrightarrow> k - d < length ids' \<and> ids' ! (k - d) = ids ! k"
    and b: "b' = b + of_nat d" using mv unfolding moved_by_def by blast+
  have "m - 1 - d < length ids'" using ids [of "m - 1"] m f by simp
  then have len: "m - d \<le> length ids'" by simp
  have "bi_entries bi ! unat (take_bit p (g - of_nat (m - d - 1 - k))) = Some (32 * (b' + of_nat k), ids' ! k)"
    if k: "f' div 32 \<le> k" "k < m - d" for k
  proof -
    have "f div 32 \<le> k + d" "k + d < m" using k f by simp_all
    then have "bi_entries bi ! unat (take_bit p (g - of_nat (m - 1 - (k + d)))) = Some (32 * (b + of_nat (k + d)), ids ! (k + d))"
      using w unfolding window_def by blast
    moreover have "ids' ! k = ids ! (k + d)" using ids [of "k + d"] k(2) m by simp
    moreover have "m - d - 1 - k = m - 1 - (k + d)" by simp
    moreover have "b' + of_nat k = b + of_nat (k + d)" using b by simp
    ultimately show ?thesis by (simp only:)
  qed
  then show ?thesis using w m f len unfolding window_def by auto
qed

lemma reads_moved:
  assumes r: "reads b ids ne p f q old r front m" and mv: "moved_by d b ids f t b' ids' f' t'"
    and q': "q_front q' = q_front q"
  shows "reads b' ids' (ne - d) p f' q' old r front (m - d)"
proof -
  have f: "f div 32 = f' div 32 + d" using moved_by_block(1) [OF mv] .
  have m: "f div 32 < m" "m \<le> ne" using r unfolding reads_def by blast+
  then have m': "f' div 32 < m - d" "m - d \<le> ne - d" "ne - d - (m - d - 1) = ne - (m - 1)" using f by auto
  show ?thesis
  proof (cases "r < length old")
    case True
    then show ?thesis using r m' window_moved [OF mv] unfolding reads_def by fastforce
  next
    case False
    then show ?thesis using r m' q' unfolding reads_def by simp
  qed
qed

text \<open>An index that is replaced keeps its entries.\<close>

lemma reads_retired:
  assumes r: "reads b ids ne p f q old r front m" and v: "queue_view b ids ne p f t xs q" and bi: "q_index q = Some bi"
  shows "reads b ids ne p' f q' (old @ [bi]) r front m"
proof (cases "r < length old")
  case True
  then show ?thesis using r unfolding reads_def by (simp add: nth_append)
next
  case False
  then have "f div 32 < m" "m \<le> ne" "r = length old" "front = take_bit p (q_front q - of_nat (ne - (m - 1)))"
    using r unfolding reads_def by auto
  then show ?thesis using view_window [OF v bi, of "f div 32" m] unfolding reads_def by auto
qed

lemma consumer_at_moved:
  assumes co: "consumer_at b ids ne p f t xs q old pc" and mv: "moved_by d b ids f t b' ids' f' t'"
    and n: "ne \<le> length ids" "t \<le> 32 * ne" and old: "length old \<le> length old'"
    and same: "q_headIndex q' = q_headIndex q" "q_optimistic q' = q_optimistic q" "q_overcommit q' = q_overcommit q"
    and reads: "\<And>r front m. reads b ids ne p f q old r front m \<Longrightarrow> reads b' ids' ne' p' f' q' old' r front (m - d)"
    and header: "\<And>r. r \<le> length old \<Longrightarrow> r < length old' \<Longrightarrow> f < t \<Longrightarrow>
      (r < length old \<Longrightarrow> \<exists>m. reads b ids ne p f q old r (bi_front (old ! r)) m) \<Longrightarrow>
      \<exists>m. reads b' ids' ne' p' f' q' old' r (bi_front (old' ! r)) m"
  shows "consumer_at b' ids' ne' p' f' t' xs q' old' pc"
proof -
  have heads: "heads_at b' (f' + j) c q' \<longleftrightarrow> heads_at b (f + j) c q" for j c
    using mv unfolding moved_by_def heads_at_def same by (auto simp: algebra_simps)
  have lt: "f' < t' \<longleftrightarrow> f < t" using mv unfolding moved_by_def by auto
  note blk = moved_by_block [OF mv]
  have ids: "ids' ! (f' div 32) = ids ! (f div 32)" if "f < t"
  proof -
    have "f div 32 < length ids" using that n by auto
    then show ?thesis using mv blk(1) unfolding moved_by_def by (metis add_diff_cancel_right' le_add2)
  qed
  have base: "32 * (b' + of_nat (m - d - 1)) = 32 * (b + of_nat (m - 1))" if "reads b ids ne p f q old r front m" for r front m
  proof -
    have "d < m" using that blk(1) unfolding reads_def by simp
    then show ?thesis using blk(3) by (simp only:)
  qed
  show ?thesis
  proof (cases pc)
    case (C_header i r)
    then show ?thesis using co header [of r] heads [of 1 0] lt blk(2) old by auto
  next
    case (C_base i r front hb)
    then obtain m where m: "reads b ids ne p f q old r front m" "hb = 32 * (b + of_nat (m - 1))" using co by auto
    then have "reads b' ids' ne' p' f' q' old' r front (m - d) \<and> hb = 32 * (b' + of_nat (m - d - 1))"
      using reads base by simp
    then show ?thesis using co C_base heads [of 1 0] lt blk(2) by auto
  qed (use co heads [of 0 0] heads [of 0 1] heads [of 1 0] lt blk(2) ids reads same in \<open>auto; blast\<close>)+
qed

lemma current_reads:
  assumes v: "queue_view b ids ne p f t xs q" and k: "f div 32 < ne" and cur: "q_index q = Some cur"
  shows "reads b ids ne p f q old (length old) (bi_front cur) ne"
proof -
  have "0 < ne" using k by simp
  then have "bi_front cur = take_bit p (q_front q - 1)" using view_index [OF v] cur by auto
  moreover have "ne - (ne - 1) = 1" using k by arith
  ultimately show ?thesis using k unfolding reads_def by simp
qed

lemma same_exponent:
  assumes "index_ok p q" "index_ok p' q'" "q_index_size q' = q_index_size q"
  shows "p' = p"
proof -
  have "unat (2 ^ p' :: u64) = unat (2 ^ p :: u64)" "p \<le> 58" "p' \<le> 58" using assms unfolding index_ok_def by auto
  then have "(2 :: nat) ^ p' = 2 ^ p" using unat_power [of p] unat_power [of p'] by simp
  then show ?thesis by simp
qed

text \<open>A consumer that holds an index does not notice that it was replaced.\<close>

lemma reads_kept:
  assumes v: "queue_view b ids ne p f t xs q" and ix: "index_ok p' q'" "index_kept q q'"
    and r: "reads b ids ne p f q old r front m"
  shows "reads b ids ne p' f q' (retire_index q q' old) r front m"
proof (cases "q_index_size q' = q_index_size q")
  case True
  then have "q_front q' = q_front q" using ix(2) unfolding index_kept_def by blast
  moreover have "index_ok p q" using v unfolding queue_view_def ring_state_def by blast
  then have "p' = p" using ix(1) True by (rule same_exponent)
  ultimately show ?thesis using r True reads_same [of q' q] unfolding retire_index_def by simp
next
  case False
  have "0 < ne" using r unfolding reads_def by auto
  then obtain bi where bi: "q_index q = Some bi" by (rule view_index [OF v])
  then show ?thesis using reads_retired [OF r v bi] False unfolding retire_index_def by simp
qed

lemma consumer_at_begin:
  assumes v: "queue_view b ids (length ids) p f t xs q" and ix: "index_ok p' q'" "index_kept q q'"
    and same: "q_headIndex q' = q_headIndex q" "q_optimistic q' = q_optimistic q" "q_overcommit q' = q_overcommit q"
    and mv: "moved_by d b ids f t b' ids' f' t'" and co: "consumer_at b ids (length ids) p f t xs q old pc"
  shows "consumer_at b' ids' (length ids - d) p' f' t' xs q' (retire_index q q' old) pc"
proof (rule consumer_at_moved [OF co mv order.refl _ _ same])
  let ?old = "retire_index q q' old" and ?n = "length ids"
  show t: "t \<le> 32 * ?n" using v unfolding queue_view_def by blast
  show "length old \<le> length ?old" unfolding retire_index_def by simp
  have step: "reads b' ids' (?n - d) p' f' q' ?old r front (m - d)" if "reads b ids ?n p f q old r front m" for r front m
    using reads_moved [OF reads_kept [OF v ix that] mv refl] .
  then show "reads b ids ?n p f q old r front m \<Longrightarrow> reads b' ids' (?n - d) p' f' q' ?old r front (m - d)" for r front m .
  show "\<exists>m. reads b' ids' (?n - d) p' f' q' ?old r (bi_front (?old ! r)) m"
    if r: "r \<le> length old" "r < length ?old" and ft: "f < t"
      and h: "r < length old \<Longrightarrow> \<exists>m. reads b ids ?n p f q old r (bi_front (old ! r)) m" for r
  proof (cases "r < length old")
    case True
    then have "?old ! r = old ! r" unfolding retire_index_def by (simp add: nth_append)
    then show ?thesis using h True step by metis
  next
    case False
    then have "r = length old" using r(1) by simp
    moreover have "f div 32 < ?n" using ft t by auto
    moreover obtain bi where "q_index q = Some bi" "?old ! length old = bi"
      using r(2) False unfolding retire_index_def by (auto split: if_splits option.splits)
    ultimately show ?thesis using step current_reads [OF v] by metis
  qed
qed

lemma consumer_head:
  assumes "consumer_at b ids ne p f t xs q old pc" "f \<le> t"
  obtains h where "q_headIndex q = 32 * b + of_nat h" "h \<le> t"
  using assms by (cases pc) (auto simp: heads_at_def intro: that [of f] that [of "Suc f"])

lemma producer_begins:
  assumes ok: "threads_ok b ids ne p f t xs s" and c: "th_producer s = P_begin okm x tail" and small: "length ids < 2 ^ 57"
  shows "\<exists>b ids' ne p f t. threads_ok b ids' ne p f t xs (producer_step okm' y s) \<and> length ids' \<le> Suc (length ids)"
proof -
  let ?q = "th_queue s"
  have v: "queue_view b ids (length ids) p f t xs ?q" and full: "ring_full ids t" and tail: "tail = q_tailIndex ?q"
    and co: "consumer_at b ids (length ids) p f t xs ?q (th_retired s) (th_consumer s)"
    and rp: "replay_queue (th_events s) [] = Some xs"
    using ok unfolding threads_ok_def c producer_at.simps by blast+
  have ft: "f \<le> t" using v unfolding queue_view_def ring_state_def by auto
  have step: "producer_step okm' y s = begin_enqueue okm x tail s" unfolding producer_step_def c by (simp add: Let_def)
  show ?thesis
  proof (cases "tail AND 31 = 0")
    case False
    then have "t < 32 * length ids" using tail_at_boundary(2) [OF v full] tail by simp
    then have "threads_ok b ids (length ids) p f t xs (begin_enqueue okm x tail s)"
      using v full tail co rp False unfolding threads_ok_def begin_enqueue_def by (simp add: Let_def)
    then show ?thesis unfolding step by (meson le_SucI order_refl)
  next
    case True
    then have t: "t = 32 * length ids" using tail_at_boundary(1) [OF v full] tail by simp
    obtain h where h: "q_headIndex ?q = 32 * b + of_nat h" "h \<le> t" by (rule consumer_head [OF co ft])
    from start_block_view [OF v t small h, of "fst okm" "snd okm"] show ?thesis
    proof (elim disjE exE conjE)
      fix q' assume a: "start_block (fst okm) (snd okm) ?q = (True, q')" "block_started b ids f t xs ?q q'"
      note kept = start_block_kept [OF a(1)]
      obtain b' ids' p' f' t' where st: "started b' ids' p' f' t' xs q'" and mv: "ring_moved b ids f t b' ids' f' t'"
        and ik: "index_kept ?q q'" using a(2) unfolding block_started_def by blast
      obtain d where d: "moved_by d b ids f t b' ids' f' t'" "length ids' - 1 = length ids - d" by (rule ring_moved_by [OF mv])
      obtain ne' bi where n: "length ids' = Suc ne'" "t' = 32 * ne'" "queue_view b' ids' ne' p' f' t' xs q'" "q_index q' = Some bi"
        by (rule started_view [OF st])
      have "index_ok p' q'" using n(3) unfolding queue_view_def ring_state_def by blast
      then have "consumer_at b' ids' (length ids - d) p' f' t' xs q' (retire_index ?q q' (th_retired s)) (th_consumer s)"
        using consumer_at_begin [OF v _ ik _ _ _ d(1) co] kept by simp
      moreover have "length ids - d = ne'" using d(2) n(1) by simp
      ultimately have "threads_ok b' ids' ne' p' f' t' xs (begin_enqueue okm x tail s)"
        using n rp True a(1) kept tail unfolding threads_ok_def begin_enqueue_def by (simp add: Let_def)
      then show ?thesis unfolding step using ring_moved_length [OF mv] by blast
    next
      fix q' assume a: "start_block (fst okm) (snd okm) ?q = (False, q')" "block_refused b ids f t xs ?q q'"
      note kept = start_block_kept [OF a(1)]
      obtain p' where v': "queue_view b ids (length ids) p' f t xs q'" and ik: "index_kept ?q q'"
        using a(2) unfolding block_refused_def by blast
      have ix: "index_ok p' q'" using v' unfolding queue_view_def ring_state_def by blast
      have "moved_by 0 b ids f t b ids f t" unfolding moved_by_def by simp
      from consumer_at_begin [OF v ix ik _ _ _ this co] kept
      have "consumer_at b ids (length ids) p' f t xs q' (retire_index ?q q' (th_retired s)) (th_consumer s)" by simp
      then have "threads_ok b ids (length ids) p' f t xs (begin_enqueue okm x tail s)"
        using v' full True a(1) replay_snoc [OF rp, of Refused] unfolding threads_ok_def begin_enqueue_def by (simp add: Let_def)
      then show ?thesis unfolding step by (meson le_SucI order_refl)
    qed
  qed
qed

section \<open>All interleavings\<close>

lemma producer_step_inv:
  assumes inv: "threads_inv n s" and n: "n < 2 ^ 57"
  shows "threads_inv (Suc n) (producer_step okm y s)"
proof -
  obtain b ids ne p f t xs where ok: "threads_ok b ids ne p f t xs s" and ids: "length ids \<le> n"
    using inv unfolding threads_inv_def by blast
  have "\<exists>b ids' ne p f t xs. threads_ok b ids' ne p f t xs (producer_step okm y s) \<and> length ids' \<le> Suc (length ids)"
  proof (cases "th_producer s")
    case P_idle
    then have "threads_ok b ids ne p f t xs (producer_step okm y s)"
      using ok unfolding threads_ok_def producer_step_def by (auto simp: Let_def)
    then show ?thesis by (meson le_SucI order_refl)
  next
    case (P_begin okm' x tail)
    have "length ids < 2 ^ 57" using ids n by simp
    then show ?thesis using producer_begins [OF ok P_begin] by blast
  next
    case (P_front x tail)
    then show ?thesis using producer_publishes [OF ok] by (meson le_SucI order_refl)
  next
    case (P_store x tail)
    then show ?thesis using producer_stores [OF ok] by (meson le_SucI order_refl)
  next
    case P_fault
    then show ?thesis using ok unfolding threads_ok_def by simp
  qed (use producer_writes [OF ok] in \<open>meson le_SucI order_refl\<close>)+
  then show ?thesis using ids unfolding threads_inv_def by (meson Suc_le_mono le_trans)
qed

lemma threads_inv_mono: "threads_inv n s \<Longrightarrow> n \<le> m \<Longrightarrow> threads_inv m s"
  unfolding threads_inv_def by (meson le_trans)

lemma thread_step_inv:
  assumes "threads_inv n s" "n < 2 ^ 57"
  shows "threads_inv (Suc n) (thread_step a s)"
  using assms producer_step_inv consumer_step_inv [of n s] threads_inv_mono [of n _ "Suc n"]
  by (cases a) auto

lemma thread_run_inv:
  "threads_inv n s \<Longrightarrow> n + length turns \<le> 2 ^ 57 \<Longrightarrow> threads_inv (n + length turns) (fold thread_step turns s)"
proof (induction turns arbitrary: n s)
  case (Cons a turns)
  then show ?case using thread_step_inv [of n s a] Cons.IH [of "Suc n"] by simp
qed simp

lemma idle_threads_inv: "threads_inv 0 (idle_threads (new_cqueue ok_pool ok_index 192 :: 'a cqueue))"
proof -
  obtain p where q: "queue_state 0 [] p 0 0 [] (new_cqueue ok_pool ok_index 192 :: 'a cqueue)" using new_cqueue_state by blast
  then have "threads_ok 0 [] 0 p 0 0 [] (idle_threads (new_cqueue ok_pool ok_index 192 :: 'a cqueue))"
    unfolding threads_ok_def idle_threads_def queue_state_def by (auto simp: heads_ok_def heads_at_def)
  then show ?thesis unfolding threads_inv_def by fastforce
qed

lemma thread_run_ok:
  assumes "length turns \<le> 2 ^ 57" "s = fold thread_step turns (idle_threads (new_cqueue ok_pool ok_index 192))"
  obtains b ids ne p f t xs where "threads_ok b ids ne p f t xs s" "length ids \<le> 2 ^ 57"
proof -
  have "threads_inv (length turns) s"
    using thread_run_inv [OF idle_threads_inv, of turns ok_pool ok_index] assms by simp
  then show ?thesis using that assms(1) unfolding threads_inv_def by (meson le_trans)
qed

lemma threads_at_rest:
  assumes "threads_ok b ids ne p f t xs s" "th_producer s = P_idle" "th_consumer s = C_idle"
  shows "queue_state b ids p f t xs (th_queue s)"
  using assms unfolding threads_ok_def queue_state_def by (auto simp: heads_at_def heads_ok_def)

text \<open>
  C31. The queue between the callbacks and the worker thread is safe under every interleaving of
  their accesses to its memory (up to \<open>2 ^ 57\<close> steps): neither thread ever follows a null pointer, reads an
  entry of the index that was not written, or takes an item from a slot that holds none; the events of
  the two threads are a history that a plain list could have had, in particular a dequeue fails only when the
  list is empty and items come out once and in order; when both threads are at rest, what the
  queue holds is that list.
\<close>

theorem queue_linearizable:
  assumes "length turns \<le> 2 ^ 57" and "s = fold thread_step turns (idle_threads (new_cqueue ok_pool ok_index 192))"
  shows "th_producer s \<noteq> P_fault \<and> th_consumer s \<noteq> C_fault \<and>
    (\<exists>xs. replay_queue (th_events s) [] = Some xs \<and>
       (th_producer s = P_idle \<and> th_consumer s = C_idle \<longrightarrow> q_contents (th_queue s) = xs))"
proof -
  obtain b ids ne p f t xs where ok: "threads_ok b ids ne p f t xs s" and ids: "length ids \<le> 2 ^ 57"
    using assms by (rule thread_run_ok)
  have "q_contents (th_queue s) = xs" if "th_producer s = P_idle" "th_consumer s = C_idle"
    using threads_at_rest [OF ok that] ids by (rule ring_contents)
  then show ?thesis using ok unfolding threads_ok_def by (cases "th_producer s"; cases "th_consumer s") auto
qed

text \<open>One item, stored and taken, with the steps of the two threads interleaved.\<close>

theorem queue_linearizable_witness:
  "let s = fold thread_step
      [Produce (True, True) (7 :: nat), Produce (True, True) 0, Consume, Produce (True, True) 0, Produce (True, True) 0,
       Produce (True, True) 0, Consume, Produce (True, True) 0, Consume, Consume, Consume, Consume, Consume, Consume,
       Consume, Consume, Consume, Consume, Consume] (idle_threads (new_cqueue True True 192))
   in th_events s = [Found_empty, Found_empty, Put 7, Took 7] \<and> q_contents (th_queue s) = []"
proof -
  let ?turns = "[Produce (True, True) (7 :: nat), Produce (True, True) 0, Consume, Produce (True, True) 0, Produce (True, True) 0,
       Produce (True, True) 0, Consume, Produce (True, True) 0, Consume, Consume, Consume, Consume, Consume, Consume,
       Consume, Consume, Consume, Consume, Consume]"
  let ?s = "fold thread_step ?turns (idle_threads (new_cqueue True True 192))"
  have e: "th_producer ?s = P_idle" "th_consumer ?s = C_idle" "th_events ?s = [Found_empty, Found_empty, Put 7, Took 7]"
    by code_simp+
  obtain xs where "replay_queue (th_events ?s) [] = Some xs" "q_contents (th_queue ?s) = xs"
    using queue_linearizable [of ?turns ?s True True] e(1,2) by auto
  then show ?thesis using e(3) by (simp add: Let_def enqueue_def)
qed

end
