(* ===== verification/Queue_Race.thy ===== *)
theory Queue_Race
  imports Queue_Threads_Inv
begin

text \<open>
  Two producers on one token. The queue allows a token to one thread at a time. The callbacks take
  \<^verbatim>\<open>m_add_alloc_mutex\<close> before they enqueue, the collection does not: when a thread is between the construction of its
  item and the store of the new tail, the collection enqueues through the same token.
\<close>

unbundle bit_operations_syntax

lemma interrupted_store:
  assumes ok: "threads_ok b ids ne p f t xs s" and pc: "th_producer s = P_store x tail" "th_consumer s = C_idle"
    and mid: "tail AND 31 \<noteq> 0"
  shows "\<exists>q'. cq_enqueue okm y (th_queue s) = Some (True, q') \<and>
    (\<exists>h t. queue_state b ids p h t (xs @ [y]) (th_queue (producer_step okn z (s\<lparr>th_queue := q'\<rparr>))))"
proof -
  let ?q = "th_queue s"
  have n: "ne = length ids" "t < 32 * ne" "32 * ne \<le> t + 32" "tail = q_tailIndex ?q"
    and v: "queue_view b ids ne p f t xs ?q" and heads: "heads_at b f 0 ?q"
    using ok unfolding threads_ok_def pc producer_at.simps consumer_at.simps by blast+
  have tail: "q_tailIndex ?q = 32 * b + of_nat t" using v unfolding queue_view_def ring_state_def by blast
  have "ring_full ids t"
  proof (rule ccontr)
    assume "\<not> ring_full ids t"
    then have "t = 32 * (ne - 1)" using n unfolding ring_full_def by auto
    then have "block_offset tail = 0" unfolding n(4) tail block_offset_index by simp
    then show False using mid unfolding block_offset_def by (simp add: unat_eq_0)
  qed
  then obtain q2 where 2: "put_item (q_tailIndex ?q) y ?q = Some q2"
    "queue_view b ids (length ids) p f (Suc t) (xs @ [y]) (q2\<lparr>q_tailIndex := 1 + q_tailIndex ?q\<rparr>)" "ring_full ids (Suc t)"
    "q_headIndex q2 = q_headIndex ?q" "q_optimistic q2 = q_optimistic ?q" "q_overcommit q2 = q_overcommit ?q"
    using middle_store [of b ids p f t xs ?q y] v n by auto
  let ?q' = "q2\<lparr>q_tailIndex := 1 + tail\<rparr>"
  have "cq_enqueue okm y ?q = Some (True, ?q')"
    using 2(1) mid n(4) unfolding cq_enqueue_def producer_enqueue_def by (simp add: Let_def)
  moreover have "queue_state b ids p f (Suc t) (xs @ [y]) ?q'"
    using 2 heads n(4) unfolding queue_state_def by (simp add: heads_ok_def heads_at_def)
  moreover have "th_queue (producer_step okn z (s\<lparr>th_queue := ?q'\<rparr>)) = ?q'"
    unfolding producer_step_def by (simp add: pc Let_def)
  ultimately show ?thesis by metis
qed

text \<open>
  C33. An event can get lost: when a collection queues the event of a freed object while a callback is
  about to store the new tail of its own event, both events go to the same slot. Both operations
  report success, the queue holds the event of the collection only, and the allocation is
  never reported.
\<close>

theorem interrupted_allocation_lost:
  assumes "length turns \<le> 2 ^ 57" and "s = fold thread_step turns (idle_threads (new_cqueue ok_pool ok_index 192))"
    and "th_producer s = P_store allocation tail" "th_consumer s = C_idle" "tail AND 31 \<noteq> 0"
  shows "\<exists>q' xs. cq_enqueue ok free (th_queue s) = Some (True, q') \<and> replay_queue (th_events s) [] = Some xs \<and>
    th_events (producer_step ok' z (s\<lparr>th_queue := q'\<rparr>)) = th_events s @ [Put allocation] \<and>
    q_contents (th_queue (producer_step ok' z (s\<lparr>th_queue := q'\<rparr>))) = xs @ [free]"
proof -
  obtain b ids ne p f t xs where ok: "threads_ok b ids ne p f t xs s" and ids: "length ids \<le> 2 ^ 57"
    using assms(1,2) by (rule thread_run_ok)
  obtain q' h t' where "cq_enqueue ok free (th_queue s) = Some (True, q')"
    "queue_state b ids p h t' (xs @ [free]) (th_queue (producer_step ok' z (s\<lparr>th_queue := q'\<rparr>)))"
    using interrupted_store [OF ok assms(3-5), of ok free ok' z] by blast
  moreover have "th_events (producer_step ok' z (s\<lparr>th_queue := q'\<rparr>)) = th_events s @ [Put allocation]" for q'
    using assms(3) unfolding producer_step_def by (simp add: Let_def)
  moreover have "replay_queue (th_events s) [] = Some xs" using ok unfolding threads_ok_def by blast
  ultimately show ?thesis using ring_contents ids by blast
qed

text \<open>A second allocation is interrupted by the collection.\<close>

theorem interrupted_allocation_lost_witness:
  "let s = fold thread_step (replicate 9 (Produce (True, True) (7 :: nat))) (idle_threads (new_cqueue True True 192))
   in \<exists>q'. cq_enqueue (True, True) 8 (th_queue s) = Some (True, q') \<and>
        th_events (producer_step (True, True) 0 (s\<lparr>th_queue := q'\<rparr>)) = [Put 7, Put 7] \<and>
        q_contents (th_queue (producer_step (True, True) 0 (s\<lparr>th_queue := q'\<rparr>))) = [7, 8]"
proof -
  let ?turns = "replicate 9 (Produce (True, True) (7 :: nat))"
  let ?s = "fold thread_step ?turns (idle_threads (new_cqueue True True 192))"
  have e: "th_producer ?s = P_store 7 1" "th_consumer ?s = C_idle" "th_events ?s = [Put 7]"
    by code_simp+
  obtain q' xs where r: "cq_enqueue (True, True) 8 (th_queue ?s) = Some (True, q')" "replay_queue (th_events ?s) [] = Some xs"
    "th_events (producer_step (True, True) 0 (?s\<lparr>th_queue := q'\<rparr>)) = th_events ?s @ [Put 7]"
    "q_contents (th_queue (producer_step (True, True) 0 (?s\<lparr>th_queue := q'\<rparr>))) = xs @ [8]"
    using interrupted_allocation_lost [of ?turns ?s True True 7 1 "(True, True)" 8 "(True, True)" 0] e(1,2) by auto
  have "xs = [7]" using r(2) e(3) by (simp add: enqueue_def)
  then show ?thesis using r e(3) by (simp add: Let_def)
qed

end
