(* ===== verification/Queue_Teardown.thy ===== *)
theory Queue_Teardown
  imports Queue_Race
begin

text \<open>
  The end of the queue: the destructor of the producer destroys the items that were not taken,
  walking the ring from the block behind the tail block, and gives its blocks back; the destructor of the
  queue releases the memory. A slot without an item cannot be destroyed and the memory of a block that was
  released cannot be read: both are \<open>None\<close>. The fuel of the loops is the size of the index and the number of
  blocks: each goes once around. The token of the producer is part of \<open>Worker\<close>; the chain of replaced indices, which
  the destructor frees too, is left out.
\<close>

unbundle bit_operations_syntax

section \<open>The destructor of the producer\<close>

fun find_half_block :: "nat \<Rightarrow> block_index \<Rightarrow> u64 \<Rightarrow> u64 \<Rightarrow> u64 \<Rightarrow> nat option" where
  "find_half_block 0 bi msk head i = None"
| "find_half_block (Suc n) bi msk head i =
     (case bi_entries bi ! unat i of
        None \<Rightarrow> None
      | Some (base, blk) \<Rightarrow>
          if circular_less_than (base + 32) head then find_half_block n bi msk head ((i + 1) AND msk) else Some blk)"

text \<open>The block that is partially dequeued, if there is one.\<close>

definition half_dequeued_block :: "'a cqueue \<Rightarrow> nat option option" where
  "half_dequeued_block q =
     (if q_headIndex q AND 31 = 0 then Some None
      else case q_index q of
             None \<Rightarrow> None
           | Some bi \<Rightarrow>
               (let msk = q_index_size q - 1
                in map_option Some (find_half_block (unat (q_index_size q)) bi msk (q_headIndex q)
                     ((q_front q - q_slots_used q) AND msk))))"

text \<open>The items of a block from a slot on; in the tail block they end before the tail. The first slot is
  never behind the block.\<close>

function destroy_items :: "bool \<Rightarrow> nat \<Rightarrow> nat \<Rightarrow> 'a cq_block \<Rightarrow> ('a list \<times> 'a cq_block) option" where
  "destroy_items is_tail last_valid i b =
     (if i < block_size \<and> (\<not> is_tail \<or> i \<noteq> last_valid)
      then case blk_elements b ! i of
             None \<Rightarrow> None
           | Some x \<Rightarrow> map_option (\<lambda>(xs, b'). (x # xs, b'))
               (destroy_items is_tail last_valid (i + 1) (b\<lparr>blk_elements := (blk_elements b)[i := None]\<rparr>))
      else Some ([], b))"
  by pat_completeness auto
termination by (relation "measure (\<lambda>(_, _, i, _). block_size - i)") auto

declare destroy_items.simps [simp del]

definition last_valid_index :: "'a cqueue \<Rightarrow> nat" where
  "last_valid_index q = (if q_tailIndex q AND 31 = 0 then block_size else unat (q_tailIndex q AND 31))"

fun destroy_ring :: "nat \<Rightarrow> nat option \<Rightarrow> nat \<Rightarrow> nat \<Rightarrow> 'a cqueue \<Rightarrow> ('a list \<times> 'a cqueue) option" where
  "destroy_ring 0 half tail block q = None"
| "destroy_ring (Suc n) half tail block q =
     (case blk_next (q_blocks q ! block) of
        None \<Rightarrow> None
      | Some blk \<Rightarrow>
          (let b = q_blocks q ! blk
           in case (if block_is_empty b then Some ([], b)
                    else destroy_items (blk = tail) (last_valid_index q)
                           (if half = Some blk then block_offset (q_headIndex q) else 0) b) of
                None \<Rightarrow> None
              | Some (xs, b') \<Rightarrow>
                  (let q' = on_block blk (\<lambda>_. b') q
                   in if blk = tail then Some (xs, q')
                      else map_option (\<lambda>(ys, q''). (xs @ ys, q'')) (destroy_ring n half tail blk q'))))"

text \<open>Blocks behind those of the pool were allocated one by one; the others go to the free list of the queue.\<close>

definition block_dynamic :: "'a cqueue \<Rightarrow> nat \<Rightarrow> bool" where
  "block_dynamic q blk \<longleftrightarrow> unat (q_pool_size q) \<le> blk"

lemma block_dynamic_fields [simp]:
  "block_dynamic (q\<lparr>q_blocks := bs\<rparr>) = block_dynamic q" "block_dynamic (q\<lparr>q_free_list := fl\<rparr>) = block_dynamic q"
  by (simp_all add: fun_eq_iff block_dynamic_def)

definition add_block_to_free_list :: "nat \<Rightarrow> 'a cqueue \<Rightarrow> 'a cqueue" where
  "add_block_to_free_list blk q = q\<lparr>q_free_list := blk # q_free_list q\<rparr>"

fun release_ring :: "nat \<Rightarrow> nat \<Rightarrow> nat \<Rightarrow> nat list \<Rightarrow> 'a cqueue \<Rightarrow> (nat list \<times> 'a cqueue) option" where
  "release_ring 0 tail block freed q = None"
| "release_ring (Suc n) tail block freed q =
     (if block \<in> set freed then None
      else case blk_next (q_blocks q ! block) of
             None \<Rightarrow> None
           | Some nxt \<Rightarrow>
               (let (freed', q') = (if block_dynamic q block then (freed @ [block], q)
                                    else (freed, add_block_to_free_list block q))
                in if nxt = tail then Some (freed', q') else release_ring n tail nxt freed' q'))"

definition destroy_producer :: "'a cqueue \<Rightarrow> ('a list \<times> nat list \<times> 'a cqueue) option" where
  "destroy_producer q =
     (case q_tailBlock q of
        None \<Rightarrow> Some ([], [], q)
      | Some tail \<Rightarrow>
          Option.bind (half_dequeued_block q) (\<lambda>half.
          Option.bind (destroy_ring (length (q_blocks q)) half tail tail q) (\<lambda>(xs, q1).
          map_option (Pair xs) (release_ring (length (q_blocks q)) tail tail [] q1))))"

text \<open>The destructor of the queue: the items destroyed and the blocks released, those of the pool at once.\<close>

definition destroy_cqueue :: "'a cqueue \<Rightarrow> ('a list \<times> nat list) option" where
  "destroy_cqueue q =
     map_option (\<lambda>(xs, freed, q1).
         (xs, freed @ filter (block_dynamic q1) (q_free_list q1) @ [0..<unat (q_pool_size q1)]))
       (destroy_producer q)"

text \<open>
  After a copy that threw, the new block is in the ring and counts as full: the destructor destroys its slots
  although none of them holds an item.
\<close>

lemma destroy_no_item:
  assumes "blk_elements b = replicate 32 None" "i < 32" "is_tail \<longrightarrow> i \<noteq> last_valid"
  shows "destroy_items is_tail last_valid i b = None"
  using assms by (subst destroy_items.simps) auto

lemma thrown_copy_destroyed:
  assumes "q_tailIndex q AND 31 = 0" "start_block (fst ok) (snd ok) q = (True, q1)" "q_tailBlock q1 = Some i"
    "blk_next (q_blocks q1 ! (case q_tailBlock q of None \<Rightarrow> i | Some u \<Rightarrow> u)) = Some i"
    "\<not> block_is_empty (q_blocks q1 ! i)" "blk_elements (q_blocks q1 ! i) = replicate 32 None" "q_tailIndex q1 = q_tailIndex q"
  shows "\<exists>q'. producer_enqueue ok False x q = Some (Copy_threw, q') \<and> destroy_cqueue q' = None"
proof -
  let ?u = "case q_tailBlock q of None \<Rightarrow> i | Some u \<Rightarrow> u"
  let ?q = "q1\<lparr>q_slots_used := q_slots_used q, q_tailBlock := Some ?u\<rparr>"
  have "producer_enqueue ok False x q = Some (Copy_threw, ?q)"
    using assms(1-3) unfolding producer_enqueue_def by (cases "q_tailBlock q") (simp_all add: Let_def)
  moreover have "last_valid_index ?q = 32" using assms(1,7) unfolding last_valid_index_def by simp
  moreover have "block_offset j < 32" for j unfolding block_offset_def and_31 unat_take_bit by simp
  moreover from this have "block_offset j \<noteq> 32" for j by (metis nat_neq_iff)
  ultimately have "destroy_ring n half ?u ?u ?q = None" for n half
    using assms(4-6) by (cases n) (simp_all add: Let_def destroy_no_item)
  then have "destroy_producer ?q = None" unfolding destroy_producer_def by (simp split: bind_split)
  then show ?thesis using \<open>producer_enqueue ok False x q = _\<close> unfolding destroy_cqueue_def by simp
qed

text \<open>It may be the first item of the queue.\<close>

lemma first_copy_destroyed:
  "map_option (\<lambda>(r, q). (r, destroy_cqueue q)) (producer_enqueue (True, True) False () (new_cqueue True True 192)) =
     Some (Copy_threw, None)"
  by code_simp

section \<open>The items of a block\<close>

lemma destroy_items_range:
  assumes "i \<le> e" "e \<le> block_size" "\<And>j. i \<le> j \<Longrightarrow> j < e \<Longrightarrow> blk_elements b ! j = Some (f j)"
    "length (blk_elements b) = block_size" "if is_tail then e = last_valid else e = block_size"
  shows "\<exists>es. destroy_items is_tail last_valid i b = Some (map f [i..<e], b\<lparr>blk_elements := es\<rparr>) \<and>
    length es = block_size"
  using assms
proof (induction "e - i" arbitrary: i b)
  case 0
  then show ?case by (auto simp: destroy_items.simps split: if_splits intro!: exI [of _ "blk_elements b"])
next
  case (Suc n)
  let ?b = "b\<lparr>blk_elements := (blk_elements b)[i := None]\<rparr>"
  have i: "i < e" using Suc.hyps(2) by simp
  have "n = e - Suc i" using Suc.hyps(2) by simp
  moreover have "blk_elements ?b ! j = Some (f j)" if "Suc i \<le> j" "j < e" for j using Suc.prems(3) that by simp
  ultimately obtain es where "destroy_items is_tail last_valid (Suc i) ?b =
      Some (map f [Suc i..<e], ?b\<lparr>blk_elements := es\<rparr>)" "length es = block_size"
    using Suc.hyps(1) [of "Suc i" ?b] Suc.prems i by auto
  then show ?case using Suc.prems i by (subst destroy_items.simps) (auto simp: upt_conv_Cons split: if_splits)
qed

section \<open>The walks around the ring\<close>

lemma div_within: "m \<le> 32 * n \<Longrightarrow> m mod 32 \<noteq> 0 \<Longrightarrow> m div 32 < n" for m n :: nat
  using mult_div_mod_eq [of 32 m] by linarith

lemma upt_join: "i \<le> j \<Longrightarrow> j \<le> k \<Longrightarrow> [i..<j] @ [j..<k] = [i..<k]"
  by (metis upt_add_eq_append le_iff_add)

lemma offset_zero: "(32 * b + of_nat j :: u64) AND 31 = 0 \<longleftrightarrow> j mod 32 = 0"
proof -
  have "unat ((32 * b + of_nat j :: u64) AND 31) = j mod 32" using block_offset_index [of b j] unfolding block_offset_def .
  then show ?thesis by (simp add: unat_eq_0 [symmetric])
qed

lemma last_valid:
  assumes "q_tailIndex q = 32 * b + of_nat t" "32 * n < t + 32" "t \<le> 32 * n" "0 < n"
  shows "32 * (n - 1) + last_valid_index q = t"
proof -
  have o: "unat (q_tailIndex q AND 31) = t mod 32"
    using block_offset_index [of b t] unfolding assms(1) block_offset_def .
  have z: "q_tailIndex q AND 31 = 0 \<longleftrightarrow> t mod 32 = 0" unfolding assms(1) by (rule offset_zero)
  show ?thesis
  proof (cases "t mod 32 = 0")
    case True
    then have "t = 32 * n" using assms(2,3) by auto
    then show ?thesis using z True assms(4) unfolding last_valid_index_def by (cases n) auto
  next
    case False
    then have "t div 32 = n - 1" using div_within [OF assms(3)] assms(2) mult_div_mod_eq [of 32 t] mod_less_divisor [of 32 t] by linarith
    then show ?thesis using z o False mult_div_mod_eq [of 32 t] unfolding last_valid_index_def by simp
  qed
qed

text \<open>The blocks from position \<open>k\<close> of the ring on still hold their items; \<open>f j\<close> is the one at position \<open>j\<close>.\<close>

definition items_from :: "nat list \<Rightarrow> nat \<Rightarrow> nat \<Rightarrow> nat \<Rightarrow> (nat \<Rightarrow> 'a) \<Rightarrow> 'a cq_block list \<Rightarrow> bool" where
  "items_from ids h t k f bs \<longleftrightarrow>
     (\<forall>j. h \<le> j \<and> 32 * k \<le> j \<and> j < t \<longrightarrow> blk_elements (bs ! (ids ! (j div 32))) ! (j mod 32) = Some (f j))"

definition ring_shape :: "u64 \<Rightarrow> nat list \<Rightarrow> nat \<Rightarrow> nat \<Rightarrow> 'a cqueue \<Rightarrow> bool" where
  "ring_shape b ids h t q \<longleftrightarrow> ring_ok ids (q_blocks q) \<and> flags_ok ids h (q_blocks q) \<and> distinct ids \<and>
     (\<forall>i\<in>set ids. i < length (q_blocks q) \<and> length (blk_elements (q_blocks q ! i)) = 32 \<and>
        length (blk_empty (q_blocks q ! i)) = 32) \<and>
     h \<le> t \<and> t \<le> 32 * length ids \<and> 32 * length ids < t + 32 \<and>
     q_headIndex q = 32 * b + of_nat h \<and> q_tailIndex q = 32 * b + of_nat t"

definition half_at :: "nat list \<Rightarrow> nat \<Rightarrow> nat option" where
  "half_at ids h = (if h mod 32 = 0 then None else Some (ids ! (h div 32)))"

lemma destroy_block_items:
  assumes s: "ring_shape b ids h t q" and items: "items_from ids h t k f (q_blocks q)" and k: "k < length ids"
  shows "\<exists>es. (if block_is_empty (q_blocks q ! (ids ! k)) then Some ([], q_blocks q ! (ids ! k))
      else destroy_items (ids ! k = last ids) (last_valid_index q)
        (if half_at ids h = Some (ids ! k) then block_offset (q_headIndex q) else 0) (q_blocks q ! (ids ! k))) =
    Some (map f [max h (32 * k)..<min t (32 * Suc k)], (q_blocks q ! (ids ! k))\<lparr>blk_elements := es\<rparr>) \<and> length es = 32"
proof -
  let ?b = "q_blocks q ! (ids ! k)" and ?n = "length ids"
  let ?i = "if half_at ids h = Some (ids ! k) then h mod 32 else 0"
  let ?e = "if k = ?n - 1 then last_valid_index q else 32"
  have len: "length (blk_empty ?b) = 32" "length (blk_elements ?b) = 32" and d: "distinct ids"
    and fl: "flags_ok ids h (q_blocks q)" and ht: "h \<le> t" "t \<le> 32 * ?n" "32 * ?n < t + 32"
    and ti: "q_tailIndex q = 32 * b + of_nat t" and hi: "q_headIndex q = 32 * b + of_nat h"
    using s nth_mem [OF k] unfolding ring_shape_def by blast+
  have empty: "block_is_empty ?b \<longleftrightarrow> 32 * Suc k \<le> h" using fl k len(1) by (rule nth_block_is_empty)
  have last: "ids ! k = last ids \<longleftrightarrow> k = ?n - 1" using d k by (subst last_conv_nth) (auto simp: nth_eq_iff_index_eq)
  have off: "block_offset (q_headIndex q) = h mod 32" unfolding hi by (rule block_offset_index)
  show ?thesis
  proof (cases "32 * Suc k \<le> h")
    case True
    then show ?thesis using empty len(2) ht by (auto intro!: exI [of _ "blk_elements ?b"])
  next
    case False
    have half: "half_at ids h = Some (ids ! k) \<longleftrightarrow> h mod 32 \<noteq> 0 \<and> h div 32 = k"
    proof (cases "h mod 32 = 0")
      case False
      then have "h div 32 < ?n" using ht by (intro div_within) auto
      then show ?thesis using False d k unfolding half_at_def by (simp add: nth_eq_iff_index_eq)
    qed (simp add: half_at_def)
    have i: "32 * k + ?i = max h (32 * k)"
    proof (cases "h div 32 = k")
      case True
      then show ?thesis using half mult_div_mod_eq [of 32 h] by (auto simp: max_def)
    next
      case other: False
      then have "h div 32 < k" using False by (simp add: div_less_iff_less_mult not_le)
      then have "h < 32 * k" by (simp add: div_less_iff_less_mult mult.commute)
      then show ?thesis using half other by (simp add: max_def)
    qed
    have e: "32 * k + ?e = min t (32 * Suc k)"
    proof (cases "k = ?n - 1")
      case True
      then have "32 * k + last_valid_index q = t" using last_valid [OF ti ht(3,2)] k by fastforce
      moreover have "Suc k = ?n" using True k by simp
      ultimately show ?thesis using True ht by (simp add: min_def)
    next
      case other: False
      then have "Suc k < ?n" using k by simp
      then have "32 * Suc k < t" using ht(3) by simp
      then show ?thesis using other by (simp add: min_def)
    qed
    have "blk_elements ?b ! j = Some (f (32 * k + j))" if "?i \<le> j" "j < ?e" for j
    proof -
      have "max h (32 * k) \<le> 32 * k + j" unfolding i [symmetric] using that(1) by (rule add_left_mono)
      moreover have "32 * k + j < min t (32 * Suc k)" unfolding e [symmetric] using that(2) by (rule add_strict_left_mono)
      ultimately have "h \<le> 32 * k + j" "32 * k + j < t" "j < 32" by auto
      then show ?thesis using items unfolding items_from_def by (auto dest!: spec [of _ "32 * k + j"])
    qed
    moreover have "32 * k + ?i \<le> 32 * k + ?e" "32 * k + ?e \<le> 32 * k + 32" unfolding i e using False ht k by simp_all
    then have "?i \<le> ?e" "?e \<le> 32" by (simp_all only: add_le_cancel_left)
    ultimately have "\<exists>es. destroy_items (k = ?n - 1) (last_valid_index q) ?i ?b =
        Some (map (\<lambda>j. f (32 * k + j)) [?i..<?e], ?b\<lparr>blk_elements := es\<rparr>) \<and> length es = 32"
      using len(2) by (intro destroy_items_range) auto
    moreover have "map (\<lambda>j. f (32 * k + j)) [?i..<?e] = map f [32 * k + ?i..<32 * k + ?e]"
      by (rule nth_equalityI) (simp_all add: add.assoc)
    ultimately show ?thesis using empty False unfolding last off i e by simp
  qed
qed

text \<open>Only the items of the blocks change during the walk.\<close>

definition same_links :: "'a cq_block list \<Rightarrow> 'a cq_block list \<Rightarrow> bool" where
  "same_links bs bs' \<longleftrightarrow> length bs' = length bs \<and> (\<forall>i. blk_next (bs' ! i) = blk_next (bs ! i))"

lemma destroy_ring_items:
  assumes "ring_shape b ids h t q" "items_from ids h t k f (q_blocks q)" "k < length ids" "length ids \<le> n + k"
    "blk_next (q_blocks q ! prev) = Some (ids ! k)"
  shows "\<exists>bs. destroy_ring n (half_at ids h) (last ids) prev q = Some (map f [max h (32 * k)..<t], q\<lparr>q_blocks := bs\<rparr>) \<and>
    same_links (q_blocks q) bs"
  using assms
proof (induction n arbitrary: k prev q)
  case (Suc n)
  let ?q = "q_blocks q" and ?p = "ids ! k"
  obtain es where es: "(if block_is_empty (?q ! ?p) then Some ([], ?q ! ?p)
      else destroy_items (?p = last ids) (last_valid_index q)
        (if half_at ids h = Some ?p then block_offset (q_headIndex q) else 0) (?q ! ?p)) =
    Some (map f [max h (32 * k)..<min t (32 * Suc k)], (?q ! ?p)\<lparr>blk_elements := es\<rparr>)" "length es = 32"
    using destroy_block_items [OF Suc.prems(1-3)] by blast
  let ?b = "(?q ! ?p)\<lparr>blk_elements := es\<rparr>"
  let ?bs = "?q[?p := ?b]"
  let ?q' = "on_block ?p (\<lambda>_. ?b) q"
  have q': "?q' = q\<lparr>q_blocks := ?bs\<rparr>" by (simp add: on_block_def)
  have d: "distinct ids" and pl: "?p < length ?q" and ht: "h \<le> t" "t \<le> 32 * length ids" "32 * length ids < t + 32"
    using Suc.prems(1) nth_mem [OF Suc.prems(3)] unfolding ring_shape_def by blast+
  have "blk_next (?bs ! i) = blk_next (?q ! i)" for i using pl by (cases "i = ?p") simp_all
  then have links: "same_links ?q ?bs" unfolding same_links_def by simp
  have last: "?p = last ids \<longleftrightarrow> k = length ids - 1"
    using d Suc.prems(3) by (subst last_conv_nth) (auto simp: nth_eq_iff_index_eq)
  have step: "destroy_ring (Suc n) (half_at ids h) (last ids) prev q =
      (if k = length ids - 1 then Some (map f [max h (32 * k)..<min t (32 * Suc k)], ?q')
       else map_option (\<lambda>(ys, q''). (map f [max h (32 * k)..<min t (32 * Suc k)] @ ys, q''))
         (destroy_ring n (half_at ids h) (last ids) ?p ?q'))"
    unfolding destroy_ring.simps Suc.prems(5) option.case Let_def last es(1) [unfolded last] prod.case ..
  show ?case
  proof (cases "k = length ids - 1")
    case True
    then have "min t (32 * Suc k) = t" using ht Suc.prems(3) by simp
    then show ?thesis using True links unfolding step q' by auto
  next
    case False
    then have k: "Suc k < length ids" using Suc.prems(3) by simp
    have "ring_shape b ids h t ?q'"
    proof -
      have "ring_ok ids ?bs" using Suc.prems(1) unfolding ring_shape_def
        by (subst ring_ok_update [where f = "\<lambda>b. b\<lparr>blk_elements := es\<rparr>"]) auto
      moreover have "flags_ok ids h ?bs" using Suc.prems(1) unfolding ring_shape_def
        by (subst flags_ok_update [where f = "\<lambda>b. b\<lparr>blk_elements := es\<rparr>"]) auto
      moreover have "\<forall>i\<in>set ids. i < length ?bs \<and> length (blk_elements (?bs ! i)) = 32 \<and> length (blk_empty (?bs ! i)) = 32"
        using Suc.prems(1) es(2) pl unfolding ring_shape_def by (auto simp: nth_list_update)
      ultimately show ?thesis using Suc.prems(1) unfolding ring_shape_def q' by simp
    qed
    moreover have "items_from ids h t (Suc k) f (q_blocks ?q')"
      unfolding items_from_def q'
    proof (intro allI impI)
      fix j assume j: "h \<le> j \<and> 32 * Suc k \<le> j \<and> j < t"
      then have "k < j div 32" "j div 32 < length ids" using ht by auto
      then have "ids ! (j div 32) \<noteq> ?p" using d Suc.prems(3) by (simp add: nth_eq_iff_index_eq)
      then show "blk_elements (q_blocks (q\<lparr>q_blocks := ?bs\<rparr>) ! (ids ! (j div 32))) ! (j mod 32) = Some (f j)"
        using Suc.prems(2) j unfolding items_from_def by simp
    qed
    moreover have "blk_next (q_blocks ?q' ! ?p) = Some (ids ! Suc k)"
      using links Suc.prems(1) k unfolding same_links_def ring_shape_def ring_ok_def q' by auto
    ultimately obtain bs where bs: "destroy_ring n (half_at ids h) (last ids) ?p ?q' =
        Some (map f [max h (32 * Suc k)..<t], ?q'\<lparr>q_blocks := bs\<rparr>)" "same_links (q_blocks ?q') bs"
      using Suc.IH [of ?q' "Suc k" ?p] k Suc.prems(4) by auto
    have "map f [max h (32 * k)..<min t (32 * Suc k)] @ map f [max h (32 * Suc k)..<t] = map f [max h (32 * k)..<t]"
    proof -
      have "32 * Suc k < t" using k ht by simp
      then show ?thesis using upt_join [of "max h (32 * k)" "32 * Suc k" t]
        by (cases "h \<le> 32 * Suc k") (simp_all add: max_def min_def flip: map_append)
    qed
    then show ?thesis using bs links False unfolding step by (auto simp: q' same_links_def)
  qed
qed simp

text \<open>The blocks behind a block up to the one before the tail block.\<close>

primrec ring_path :: "'a cq_block list \<Rightarrow> nat \<Rightarrow> nat list \<Rightarrow> nat \<Rightarrow> bool" where
  "ring_path bs p [] tail \<longleftrightarrow> blk_next (bs ! p) = Some tail"
| "ring_path bs p (r # rs) tail \<longleftrightarrow> blk_next (bs ! p) = Some r \<and> ring_path bs r rs tail"

lemma ring_path_nth:
  "ring_path bs p rs tail \<longleftrightarrow>
   (\<forall>k<Suc (length rs). blk_next (bs ! ((p # rs) ! k)) = Some ((rs @ [tail]) ! k))"
proof (induction rs arbitrary: p)
  case (Cons r rs)
  then show ?case by (simp add: All_less_Suc2 [of "Suc _"])
qed simp

lemma release_ring_path:
  assumes "ring_path (q_blocks q) p rs tail" "distinct (p # rs)" "set (p # rs) \<inter> set freed = {}" "tail \<notin> set rs" "length rs < n"
  shows "release_ring n tail p freed q =
    Some (freed @ filter (block_dynamic q) (p # rs),
      q\<lparr>q_free_list := rev (filter (\<lambda>r. \<not> block_dynamic q r) (p # rs)) @ q_free_list q\<rparr>)"
  using assms
proof (induction rs arbitrary: n p freed q)
  case Nil
  then show ?case by (cases n) (auto simp: Let_def add_block_to_free_list_def)
next
  case (Cons r rs)
  then obtain m where n: "n = Suc m" by (cases n) auto
  have d: "block_dynamic (add_block_to_free_list x q) = block_dynamic q" for x
    by (simp add: add_block_to_free_list_def)
  have "q_blocks (add_block_to_free_list p q) = q_blocks q" by (simp add: add_block_to_free_list_def)
  then show ?case
    using Cons.prems Cons.IH [of q r "freed @ [p]" m] Cons.IH [of "add_block_to_free_list p q" r freed m] unfolding n d
    by (auto simp: add_block_to_free_list_def)
qed

section \<open>The block that is partially dequeued\<close>

lemma circular_not_less: "n < 2 ^ 63 \<Longrightarrow> \<not> circular_less_than (a + of_nat n) a"
  unfolding circular_less_than_def word_less_nat_alt by (simp add: unat_small push_bit_eq_mult)

lemma find_half_block_ring:
  assumes e: "entries_ok b ids (length ids) p q" and bi: "q_index q = Some bi" and p: "p \<le> 58"
    and h: "32 * k \<le> h" "h mod 32 \<noteq> 0" "h \<le> 32 * length ids" "q_headIndex q = 32 * b + of_nat h" and small: "length ids \<le> 2 ^ 57"
    and n: "h div 32 < n + k"
  shows "find_half_block n bi (2 ^ p - 1) (q_headIndex q) (take_bit p (q_front q - of_nat (length ids - k))) =
    Some (ids ! (h div 32))"
  using h(1) n
proof (induction n arbitrary: k)
  case (Suc n)
  have hn: "h div 32 < length ids" using h(3,2) by (rule div_within)
  have k: "k \<le> h div 32" using Suc.prems(1) by (simp add: less_eq_div_iff_mult_less_eq mult.commute)
  have "\<exists>bi'. q_index q = Some bi' \<and> bi_entries bi' ! unat (take_bit p (q_front q - of_nat (length ids - k))) =
      Some (32 * (b + of_nat k), ids ! k)"
    using e k hn unfolding entries_ok_def by simp
  then have entry: "bi_entries bi ! unat (take_bit p (q_front q - of_nat (length ids - k))) = Some (32 * (b + of_nat k), ids ! k)"
    using bi by simp
  have base: "32 * (b + of_nat k) + 32 = (32 * b + of_nat (32 * Suc k) :: u64)" by (simp add: algebra_simps)
  show ?case
  proof (cases "k = h div 32")
    case True
    have "h \<le> 32 * Suc k" "32 * Suc k - h < 2 ^ 63" using True mult_div_mod_eq [of 32 h] mod_less_divisor [of 32 h] by simp_all
    then have "\<not> circular_less_than (32 * b + of_nat (32 * Suc k)) (32 * b + of_nat h)"
      using circular_not_less [of "32 * Suc k - h" "32 * b + of_nat h"] by (simp add: of_nat_diff)
    then have "\<not> circular_less_than (32 * (b + of_nat k) + 32) (q_headIndex q)" unfolding base h(4) .
    then show ?thesis using entry True by simp
  next
    case False
    then have lt: "Suc k \<le> h div 32" using k by simp
    then have "32 * Suc k \<le> 32 * (h div 32)" by (rule mult_le_mono2)
    then have "32 * Suc k < h" using h(2) mult_div_mod_eq [of 32 h] by linarith
    moreover have "h < 32 * Suc k + 2 ^ 63" using h(3) small by simp
    ultimately have less: "circular_less_than (32 * (b + of_nat k) + 32) (q_headIndex q)"
      unfolding base h(4) by (subst indices_less) simp_all
    have "length ids - k = Suc (length ids - Suc k)" using lt hn by simp
    then have succ: "q_front q - of_nat (length ids - k) + 1 = q_front q - of_nat (length ids - Suc k)" by simp
    have "take_bit p (take_bit p (q_front q - of_nat (length ids - k)) + 1) = take_bit p (q_front q - of_nat (length ids - k) + 1)"
      using p by (intro take_bit_plus_left) simp
    then have "(take_bit p (q_front q - of_nat (length ids - k)) + 1) AND (2 ^ p - 1) =
        take_bit p (q_front q - of_nat (length ids - Suc k))"
      unfolding and_size succ .
    moreover have "32 * Suc k \<le> h" "h div 32 < n + Suc k" using \<open>32 * Suc k < h\<close> Suc.prems(2) by simp_all
    ultimately show ?thesis using Suc.IH [of "Suc k"] entry less by simp
  qed
qed simp

lemma half_dequeued_ring:
  assumes q: "queue_state b ids p h t xs q" and small: "length ids \<le> 2 ^ 57" and ne: "ids \<noteq> []"
  shows "half_dequeued_block q = Some (half_at ids h)"
proof (cases "h mod 32 = 0")
  case True
  then show ?thesis using q offset_zero [of b h] unfolding queue_state_def heads_ok_def half_dequeued_block_def half_at_def by simp
next
  case False
  have v: "queue_view b ids (length ids) p h t xs q" and hi: "q_headIndex q = 32 * b + of_nat h"
    using q unfolding queue_state_def heads_ok_def by blast+
  have e: "entries_ok b ids (length ids) p q" and i: "index_ok p q" and slots: "q_slots_used q = of_nat (length ids)"
    and np: "length ids \<le> 2 ^ p" and ht: "h + length xs = t" "t \<le> 32 * length ids"
    using v unfolding queue_view_def ring_state_def by blast+
  obtain bi where bi: "q_index q = Some bi" using view_index [OF v] ne by blast
  have p: "p \<le> 58" and size: "q_index_size q = 2 ^ p" using i unfolding index_ok_def by blast+
  have h: "h \<le> 32 * length ids" using ht by simp
  then have "h div 32 < 2 ^ p + 0" using div_within [OF _ False] np by fastforce
  then have "find_half_block (2 ^ p) bi (2 ^ p - 1) (q_headIndex q) (take_bit p (q_front q - of_nat (length ids - 0))) =
      Some (ids ! (h div 32))"
    using h False by (intro find_half_block_ring [OF e bi p _ _ _ hi small]) simp_all
  then show ?thesis using False offset_zero [of b h] p bi
    unfolding half_dequeued_block_def half_at_def hi size slots Let_def and_size by (simp add: unat_power)
qed

section \<open>The destructor of the queue\<close>

lemma ring_ok_path:
  assumes "ring_ok ids bs" "ids \<noteq> []"
  shows "ring_path bs (last ids) (butlast ids) (last ids)"
  unfolding ring_path_nth
proof (intro allI impI)
  fix k assume "k < Suc (length (butlast ids))"
  then have k: "k < length ids" using assms(2) by simp
  have a: "butlast ids @ [last ids] = ids" using assms(2) by simp
  have "blk_next (bs ! ((last ids # butlast ids) ! k)) = Some (ids ! k)"
  proof (cases k)
    case 0
    have "length ids - 1 < length ids" using assms(2) by simp
    then show ?thesis using assms 0 unfolding ring_ok_def by (auto simp: last_conv_nth dest!: spec [of _ "length ids - 1"])
  next
    case (Suc m)
    then have "blk_next (bs ! (ids ! m)) = Some (ids ! k)" using assms(1) k unfolding ring_ok_def by auto
    then show ?thesis using Suc k assms(2) by (simp add: nth_butlast)
  qed
  then show "blk_next (bs ! ((last ids # butlast ids) ! k)) = Some ((butlast ids @ [last ids]) ! k)" unfolding a .
qed

lemma released_once:
  assumes pool: "pool_ok ids q" and perm: "distinct blks" "set blks = set ids"
  shows "mset (filter (block_dynamic q) blks @ filter (block_dynamic q) (q_free_list q) @ [0..<unat (q_pool_size q)]) =
    mset [0..<length (q_blocks q)]"
proof -
  let ?bs = "filter (block_dynamic q) blks @ filter (block_dynamic q) (q_free_list q) @ [0..<unat (q_pool_size q)]"
  have d: "distinct (ids @ q_free_list q)" and le: "unat (q_pool_size q) \<le> length (q_blocks q)"
    and lt: "\<forall>i\<in>set (ids @ q_free_list q). i < length (q_blocks q)"
    using pool unfolding pool_ok_def by blast+
  have "distinct ?bs" using d perm by (auto simp: block_dynamic_def)
  moreover have "set ?bs \<subseteq> set [0..<length (q_blocks q)]" using le lt perm(2) by auto
  moreover have "i \<in> set ?bs" if i: "i < length (q_blocks q)" for i
  proof (cases "unat (q_pool_size q) \<le> i")
    case True
    then have "i \<in> set (ids @ q_free_list q)" using pool_ok_held [OF pool] i unfolding blocks_held_def by blast
    then show ?thesis using True perm(2) by (auto simp: block_dynamic_def)
  qed simp
  then have "set [0..<length (q_blocks q)] \<subseteq> set ?bs" by (simp only: set_upt atLeastLessThan_iff subset_iff) blast
  ultimately show ?thesis by (metis subset_antisym distinct_upt set_eq_iff_mset_eq_distinct)
qed

lemma queue_state_destroyed:
  assumes q: "queue_state b ids p h t xs q" and small: "length ids \<le> 2 ^ 57"
  shows "\<exists>blks. destroy_cqueue q = Some (xs, blks) \<and> mset blks = mset [0..<length (q_blocks q)]"
proof -
  have v: "queue_view b ids (length ids) p h t xs q" and full: "ring_full ids t" and hi: "q_headIndex q = 32 * b + of_nat h"
    using q unfolding queue_state_def heads_ok_def by blast+
  have r: "ring_ok ids (q_blocks q)" and fl: "flags_ok ids h (q_blocks q)" and it: "items_ok ids h xs (q_blocks q)"
    and pool: "pool_ok ids q" and ti: "q_tailIndex q = 32 * b + of_nat t" and ht: "h + length xs = t" "t \<le> 32 * length ids"
    and tb: "q_tailBlock q = (if ids = [] then None else Some (last ids))"
    using v unfolding queue_view_def ring_state_def by blast+
  show ?thesis
  proof (cases "ids = []")
    case True
    then show ?thesis using tb ht released_once [OF pool, of "[]"] unfolding destroy_cqueue_def destroy_producer_def by simp
  next
    case False
    have d: "distinct ids" and lt: "\<forall>i\<in>set ids. i < length (q_blocks q)"
      and ok: "\<forall>blk\<in>set (q_blocks q). length (blk_elements blk) = 32 \<and> length (blk_empty blk) = 32"
      using pool unfolding pool_ok_def by simp_all
    have "card (set ids) \<le> card {..<length (q_blocks q)}" using lt by (intro card_mono) auto
    then have len: "length ids \<le> length (q_blocks q)" using d by (simp add: distinct_card)
    have shape: "ring_shape b ids h t q"
      using r fl d lt ok ht hi ti full False unfolding ring_shape_def ring_full_def by simp
    have "items_from ids h t 0 (\<lambda>j. xs ! (j - h)) (q_blocks q)"
      using it ht unfolding items_from_def items_ok_def by (metis le_add_diff_inverse less_diff_conv2 add.commute)
    moreover have path: "ring_path (q_blocks q) (last ids) (butlast ids) (last ids)" using r False by (rule ring_ok_path)
    then have "blk_next (q_blocks q ! last ids) = Some (ids ! 0)"
      using ring_path_nth [of "q_blocks q" "last ids" "butlast ids" "last ids"] False
      by (auto simp: append_butlast_last_id simp del: butlast_conv_take dest: spec [of _ 0])
    ultimately obtain bs where bs: "destroy_ring (length (q_blocks q)) (half_at ids h) (last ids) (last ids) q =
        Some (map (\<lambda>j. xs ! (j - h)) [h..<t], q\<lparr>q_blocks := bs\<rparr>)" "same_links (q_blocks q) bs"
      using destroy_ring_items [OF shape, of 0] len False by fastforce
    have items: "map (\<lambda>j. xs ! (j - h)) [h..<t] = xs" using ht(1) by (intro nth_equalityI) auto
    let ?q = "q\<lparr>q_blocks := bs\<rparr>" and ?blks = "last ids # butlast ids"
    have "ring_path bs (last ids) (butlast ids) (last ids)" using path bs(2) unfolding ring_path_nth same_links_def by simp
    moreover have ids: "butlast ids @ [last ids] = ids" using False by simp
    have perm: "distinct ?blks" "set ?blks = set ids" using d by (subst (asm) ids [symmetric], simp, metis ids list.set(2) set_append Un_insert_right append_Nil2 empty_set sup_bot_right)
    ultimately have "release_ring (length (q_blocks q)) (last ids) (last ids) [] ?q = Some (filter (block_dynamic q) ?blks,
        ?q\<lparr>q_free_list := rev (filter (\<lambda>r. \<not> block_dynamic q r) ?blks) @ q_free_list q\<rparr>)"
    proof -
      have "length (butlast ids) < length ids" using False by simp
      then have "length (butlast ids) < length (q_blocks q)" using len by (rule less_le_trans)
      moreover have "last ids \<notin> set (butlast ids)" using perm(1) by simp
      ultimately show ?thesis
        using release_ring_path [of ?q "last ids" "butlast ids" "last ids" "[]" "length (q_blocks q)"] perm(1)
          \<open>ring_path bs (last ids) (butlast ids) (last ids)\<close> by simp
    qed
    then show ?thesis using half_dequeued_ring [OF q small False] tb bs(1) items False
        released_once [OF pool \<open>distinct ?blks\<close> \<open>set ?blks = set ids\<close>]
      unfolding destroy_cqueue_def destroy_producer_def by simp
  qed
qed



end
