(* ===== verification/Logger.thy ===== *)
theory Logger
  imports Prelude
begin

text \<open>
  The log (\<^verbatim>\<open>logger/src/logger.cpp\<close>, \<^verbatim>\<open>sink_file.cpp\<close>): a logger passes each line to its sinks, which it knows by
  pointer and does not own; a sink is a file that may have failed to open. The files are lists of lines;
  the memory is a map from pointers to sinks and a line for a sink that was destroyed is \<open>None\<close>.
\<close>

section \<open>Sinks\<close>

record sink_file =
  m_file :: "string list option"

definition new_sink_file :: "bool \<Rightarrow> sink_file" where
  "new_sink_file opened = \<lparr>m_file = (if opened then Some [] else None)\<rparr>"

definition sink_log_str :: "string \<Rightarrow> sink_file \<Rightarrow> sink_file" where
  "sink_log_str str s =
     (case m_file s of None \<Rightarrow> s | Some ls \<Rightarrow> s\<lparr>m_file := Some (ls @ [str])\<rparr>)"

text \<open>The destructor closes the file, with the null pointer too; what it leaves is the content.\<close>

definition close_sink_file :: "sink_file \<Rightarrow> string list option" where
  "close_sink_file s = m_file s"

section \<open>The logger\<close>

record logger =
  m_sinks :: "nat list"

definition add_sink :: "nat \<Rightarrow> logger \<Rightarrow> logger" where
  "add_sink p l = l\<lparr>m_sinks := m_sinks l @ [p]\<rparr>"

primrec log_sinks :: "string \<Rightarrow> nat list \<Rightarrow> (nat \<rightharpoonup> sink_file) \<Rightarrow> (nat \<rightharpoonup> sink_file) option" where
  "log_sinks str [] mem = Some mem"
| "log_sinks str (p # ps) mem =
     (case mem p of None \<Rightarrow> None | Some s \<Rightarrow> log_sinks str ps (mem(p \<mapsto> sink_log_str str s)))"

definition logger_log_str :: "string \<Rightarrow> logger \<Rightarrow> (nat \<rightharpoonup> sink_file) \<Rightarrow> (nat \<rightharpoonup> sink_file) option" where
  "logger_log_str str l mem = log_sinks str (m_sinks l) mem"

fun log_lines :: "string list \<Rightarrow> logger \<Rightarrow> (nat \<rightharpoonup> sink_file) \<Rightarrow> (nat \<rightharpoonup> sink_file) option" where
  "log_lines [] l mem = Some mem"
| "log_lines (str # strs) l mem = Option.bind (logger_log_str str l mem) (log_lines strs l)"

section \<open>What the files hold\<close>

lemma log_sinks_once:
  assumes "distinct ps" "set ps \<subseteq> dom mem"
  shows "log_sinks str ps mem =
    Some (\<lambda>p. if p \<in> set ps then map_option (sink_log_str str) (mem p) else mem p)"
  using assms
proof (induction ps arbitrary: mem)
  case (Cons p ps)
  then obtain s where s: "mem p = Some s" by auto
  have "set ps \<subseteq> dom (mem(p \<mapsto> sink_log_str str s))" using Cons.prems by auto
  then have "log_sinks str (p # ps) mem = Some (\<lambda>r. if r \<in> set ps then map_option (sink_log_str str) ((mem(p \<mapsto> sink_log_str str s)) r)
      else (mem(p \<mapsto> sink_log_str str s)) r)"
    using Cons.IH Cons.prems(1) s by simp
  moreover have "(\<lambda>r. if r \<in> set ps then map_option (sink_log_str str) ((mem(p \<mapsto> sink_log_str str s)) r)
      else (mem(p \<mapsto> sink_log_str str s)) r) =
    (\<lambda>r. if r \<in> set (p # ps) then map_option (sink_log_str str) (mem r) else mem r)"
    using Cons.prems(1) s by (intro ext) auto
  ultimately show ?case by (simp only:)
qed simp

text \<open>Every line reaches every sink, in order; a file that was not opened swallows them.\<close>

lemma log_lines_written:
  assumes "distinct (m_sinks l)" "set (m_sinks l) \<subseteq> dom mem" "p \<in> set (m_sinks l)" "mem p = Some s"
  shows "\<exists>mem'. log_lines strs l mem = Some mem' \<and>
    mem' p = Some (s\<lparr>m_file := map_option (\<lambda>ls. ls @ strs) (m_file s)\<rparr>)"
  using assms
proof (induction strs arbitrary: mem s)
  case Nil
  then show ?case by (auto simp: option.map_ident)
next
  case (Cons str strs)
  let ?mem = "\<lambda>p. if p \<in> set (m_sinks l) then map_option (sink_log_str str) (mem p) else mem p"
  have step: "logger_log_str str l mem = Some ?mem"
    unfolding logger_log_str_def using Cons.prems(1,2) by (rule log_sinks_once)
  have "set (m_sinks l) \<subseteq> dom ?mem" using Cons.prems(2) by auto
  moreover have "?mem p = Some (sink_log_str str s)" using Cons.prems(3,4) by simp
  ultimately obtain mem' where "log_lines strs l ?mem = Some mem'"
    "mem' p = Some ((sink_log_str str s)\<lparr>m_file := map_option (\<lambda>ls. ls @ strs) (m_file (sink_log_str str s))\<rparr>)"
    using Cons.IH [of ?mem] Cons.prems(1,3) by blast
  then show ?case using step by (cases "m_file s") (simp_all add: sink_log_str_def)
qed

text \<open>A sink that is destroyed while the logger knows it is written to all the same.\<close>

lemma destroyed_sink_used: "p \<in> set (m_sinks l) \<Longrightarrow> mem p = None \<Longrightarrow> logger_log_str str l mem = None"
proof -
  have "log_sinks str ps mem = None" if "p \<in> set ps" "mem p = None" for ps mem
    using that by (induction ps arbitrary: mem) (auto split: option.splits, metis fun_upd_other option.distinct(1))
  then show "p \<in> set (m_sinks l) \<Longrightarrow> mem p = None \<Longrightarrow> logger_log_str str l mem = None"
    unfolding logger_log_str_def by blast
qed

lemma unopened_file_closed: "close_sink_file (sink_log_str str (new_sink_file False)) = None"
  by (simp add: close_sink_file_def sink_log_str_def new_sink_file_def)

end
