(* ===== verification/Spec2Isabelle.thy ===== *)
theory Spec2Isabelle
  imports End_To_End Injection Main_Window Queue_Teardown Logger
begin

text \<open>
  Verification of the Owlcat Mono Profiler, a memory profiler for applications that run on the Mono
  runtime.

  \<^bold>\<open>The program.\<close> A library inside the profiled process is told about every allocation and every
  garbage collection. A worker thread keeps a table of live objects and finds the dead ones by a
  collection of its own; a server sends allocation and free events over TCP to a client and
  executes the client's commands (references, pause, resume). The client writes the events into
  an SQLite database, one transaction per frame, and answers the queries of the user interface.

  \<^bold>\<open>The theories\<close>, bottom up:

  \<^item> \<open>Prelude\<close>: types, hash tables as association lists with distinct keys, generic invariants of
    step relations, list and word lemmas.
  \<^item> \<open>Wire\<close> (\<^verbatim>\<open>common/memory_writer.h\<close>, \<^verbatim>\<open>memory_reader.h\<close>): the byte codec with the
    \<^verbatim>\<open>size_t\<close> arithmetic of its bounds checks. The locale \<open>codec\<close> is the contract of a pair of
    writer and reader; it is interpreted for every pair.
  \<^item> \<open>Queue\<close> (\<^verbatim>\<open>common/concurrentqueue.h\<close>): the promise of the queue that the program uses,
    first in first out for one producer. \<open>Block_Queue\<close> models the producer behind a token, a ring of
    blocks with a circular index and indices that wrap around; \<open>Block_Queue_Inv\<close> and
    \<open>Block_Queue_Ring\<close> hold its invariant, \<open>Block_Queue_Fifo\<close> shows that it keeps the promise for up to
    \<open>2 ^ 57\<close> operations (the bound keeps every distance below half the range of an index).
    \<open>Queue_Threads\<close> splits the operations of a producer and a consumer into their accesses to
    memory, \<open>Queue_Threads_Inv\<close> annotates every program point of the two threads with an
    assertion, shows that the steps of the other thread do not disturb it, and concludes that every
    interleaving is a history of a list. \<open>Queue_Race\<close> shows what two producers on one token do, as
    the collection and the callbacks are; \<open>Queue_Teardown\<close> is the destruction of the queue when the worker thread
    ends.
  \<^item> \<open>Worker\<close> (\<^verbatim>\<open>server/src/worker_thread.h\<close>, \<^verbatim>\<open>worker_thread.cpp\<close>): all methods of the worker.
    The runtime's functions and the memory of the process are parameters. \<open>Worker_GC\<close> shows that a
    collection keeps exactly what is reachable, \<open>Worker_Refs\<close> that the search for references is
    complete, \<open>Worker_Inv\<close> the invariants over all interleavings of callers and worker thread.
    \<open>Worker_Spec\<close> states what the worker promises as an abstract tracker of roots and live objects,
    shows that every interleaving is a run of it, and that the worker thread drains its queue.
  \<^item> \<open>Network\<close> (\<^verbatim>\<open>network/\<close>): framing, completion handlers, status flags; the socket library appears
    through its documented completions.
  \<^item> \<open>Protocol\<close>: contents of the messages, encoders and decoders of both sides.
  \<^item> \<open>Profiler\<close> (\<^verbatim>\<open>server/src/mono_profiler.cpp\<close>, \<^verbatim>\<open>functor.h\<close>, \<^verbatim>\<open>load_library.cpp\<close>,
    \<^verbatim>\<open>mono_profiler_server.cpp\<close>): lookup of the runtime's functions, callbacks, restart, the server
    with its watchdog and command loop.
  \<^item> \<open>Storage\<close> (\<^verbatim>\<open>persistent_storage/\<close>): values, binding, statements, cursors, transactions over a
    database engine given by its documented effects. \<open>Queries\<close> (\<^verbatim>\<open>client/src/db_queries.cpp\<close>,
    \<^verbatim>\<open>db_migrations.cpp\<close>): tables and statements.
  \<^item> \<open>Client\<close> (\<^verbatim>\<open>client/src/mono_profiler_client.cpp\<close>): the whole client. \<open>Client_Events\<close> shows what
    a stream of events leaves in the database, \<open>Client_Views\<close> what the queries of the user interface
    return and that the buffer of events is bounded.
  \<^item> \<open>Grouping\<close>: grouping by keys with and without a table of positions, and sorting by a comparer,
    as locales. \<open>Live_Views\<close> (\<^verbatim>\<open>ui/src/live_objects_data.cpp\<close>, \<^verbatim>\<open>search_results_data.cpp\<close>): the
    tables of types, call stacks and search results. \<open>References_Tree\<close>
    (\<^verbatim>\<open>ui/src/object_references_model.cpp\<close>): the tree of referrers and its expansion. \<open>Graphs\<close>
    (\<^verbatim>\<open>ui/src/graphs_data.cpp\<close>): the visible region and the nearest collection. \<open>Main_Window\<close>
    (\<^verbatim>\<open>ui/src/main_window.cpp\<close>, \<^verbatim>\<open>run_dialog.cpp\<close>, \<^verbatim>\<open>connect_dialog.cpp\<close>): sessions, files and
    remembered settings, as operations on a record; which file may be deleted is an invariant of
    its step relation.
  \<^item> \<open>Injection\<close> (\<^verbatim>\<open>server/src/dll_main.cpp\<close>): loading the library into a launched application, its
    two detours and the messages that the client's \<^verbatim>\<open>launch_executable\<close> waits for.
  \<^item> \<open>Logger\<close> (\<^verbatim>\<open>logger/\<close>): sinks and the lines that reach them.
  \<^item> \<open>Client_Types\<close>: the database as a typed store; whatever messages arrive, ids and names are
    unique and no row names a missing type or call stack. \<open>Client_Files\<close>: traces in files, what a client
    shows of a file and how the names of two traces get mixed up.
  \<^item> \<open>Session\<close>: both sides joined by a stream that may be cut anywhere. \<open>Profiled_Run\<close>: all runs of the
    callbacks, the worker thread and the frame counter, with the order of frames as invariant.
    \<open>End_To_End\<close>: from the table of the worker to the list of live objects of the user interface.
    This theory states the other properties of whole sessions.

  \<^bold>\<open>Conventions.\<close> Machine integers are words and wrap around; \<open>option\<close>, \<open>read_result\<close> and \<open>call\<close> make
  failure, waiting and invalid accesses visible as values. The loops of the program are total
  functions: the marking loop and the search for references end because each pass consumes a mark
  or a stack entry, the completion loop of the transport because it consumes bytes. The only fuel
  is that of the loops around the ring of the queue (the copy of its index, the destructors): the size of the index or
  the number of blocks, and each loop ends after one round. The wait of the injected library for its client, which
  need not end, is a \<open>partial_function\<close>. Uninitialised variables are parameters called \<open>junk\<close>, bytes of padding are parameters too.

  \<^bold>\<open>Not modelled.\<close> Widgets, drawing, text filters and signals of the user interface (calls of
  Qt and Qwt), what the program writes to its log, and the third-party code under \<^verbatim>\<open>external/\<close>, \<^verbatim>\<open>mono_headers/\<close>
  and \<^verbatim>\<open>persistent_storage/src/sqlite3.c\<close>. Of \<^verbatim>\<open>concurrentqueue.h\<close>, which is lock-free, an explicit
  producer is modelled, its interleavings for one producer and one consumer under sequential
  consistency: weaker orders of memory, several consumers, implicit producers, bulk operations and
  consumer tokens are left out.
\<close>

section \<open>Whole sessions\<close>


text \<open>
  C4. A pause request is answered: over an established connection the request reaches the server,
  the application is paused, and the answer calls the callback of this request, once, with
  success; no other pending request is touched and the connection is ready for the next one.
\<close>

theorem pause_request_answered:
  assumes "linked c s" "length padding = 3" "any_split split_up"
    and "\<forall>cm\<in>set (c_commands c). request_id cm \<noteq> c_next_request_id c"
    and "length (c_frame_events c) \<le> 10000" "p_worker (s_profiler s) = Some w"
  shows "\<exists>c1 c2 s2. client_pause_app padding c = Some c1 \<and>
    exchange split_up junk padding api mem c1 s = Returns (c2, s2) \<and>
    c_callbacks c2 = c_callbacks c @ [Cb_pause True] \<and> c_commands c2 = c_commands c \<and>
    (\<exists>w2. p_worker (s_profiler s2) = Some w2 \<and> is_paused w2) \<and> linked c2 s2"
proof -
  let ?rid = "c_next_request_id c"
  let ?cm = "command_pause_app ?rid"
  let ?b = "enc_cmd ?rid"
  let ?e = "Report_paused ?rid True"
  let ?p = "(s_profiler s)\<lparr>p_worker := Some (worker_pause_app ?rid w)\<rparr>"
  have b: "0 < length ?b" "length ?b < 2 ^ 32" by (simp_all add: enc_cmd_def enc_puts length_puts)
  have ex: "execute_command junk api mem (message_of (cmd_code CMD_PAUSE) ?b) (s_profiler s) = Returns ?p"
    using assms(6) dec_commands_enc [of ?rid "[]" junk]
    by (simp add: execute_command_def message_of_def profiler_pause_app_def on_worker_def
        enc_cmd_references_def enc_puts length_puts)
  have ev: "p_events ?p = p_events (s_profiler s) @ [?e]"
    using assms(6) by (simp add: p_events_def worker_pause_app_def report_def)
  have pl: "length (snd (sink_payload ?e)) < 2 ^ 32" by (simp add: enc_ack_def enc_puts length_puts put_uint8_def)
  have get: "get_command ?rid CMD_PAUSE (c_commands (with_command ?cm c)) = Some (Some ?cm, c_commands c)"
    using get_command_last [of "c_commands c" ?cm] assms(4) by simp
  have "process_message junk (message_of (srv_code (fst (sink_payload ?e))) (snd (sink_payload ?e)))
      (with_command ?cm c) =
      Some ((with_command ?cm c)\<lparr>c_commands := c_commands c, c_callbacks := c_callbacks c @ [Cb_pause True]\<rparr>)"
    using ack_processed [OF get] assms(5)
    by (simp add: process_message_def message_of_def limit_events_def)
  from request_answered [OF assms(1-3) b ex ev pl this]
  obtain c1 c2 s2 where r: "send padding CMD_PAUSE ?b (with_command ?cm c) = Some c1"
    "exchange split_up junk padding api mem c1 s = Returns (c2, s2)"
    "c_callbacks c2 = c_callbacks c @ [Cb_pause True]" "c_commands c2 = c_commands c"
    "s_profiler s2 = ?p" "linked c2 s2" by blast
  moreover have "client_pause_app padding c = send padding CMD_PAUSE ?b (with_command ?cm c)"
    by (simp add: client_pause_app_def with_command_def add_command_def)
  moreover have "is_paused (worker_pause_app ?rid w)" by (simp add: is_paused_def worker_pause_app_def report_def)
  ultimately show ?thesis by auto
qed

text \<open>
  C3. A request for references is answered with what the worker found: the callback of the request
  is called once, with the requested addresses and, for each object of the worker's answer, its
  address, type and parents in order.
\<close>

theorem references_request_answered:
  assumes "linked c s" "length padding = 3" "any_split split_up"
    and "\<forall>cm\<in>set (c_commands c). request_id cm \<noteq> c_next_request_id c"
    and "length (c_frame_events c) \<le> 10000" "p_worker (s_profiler s) = Some w"
    and "m_work_items_empty w" "length (enc_cmd_references (c_next_request_id c) addrs) < 2 ^ 32"
    and "worker_find_references api mem (c_next_request_id c) addrs (p_frame_index (s_profiler s)) w = Some w'"
    and "m_reported w' = m_reported w @ [Report_references (c_next_request_id c) refs]"
    and "length (enc_references (c_next_request_id c) refs) < 2 ^ 32"
  shows "\<exists>c1 c2 s2. find_objects_references padding addrs c = Some c1 \<and>
    exchange split_up junk padding api mem c1 s = Returns (c2, s2) \<and>
    c_callbacks c2 = c_callbacks c @ [Cb_references addrs (map shown_reference refs)] \<and>
    c_commands c2 = c_commands c \<and> p_worker (s_profiler s2) = Some w' \<and> linked c2 s2"
proof -
  let ?rid = "c_next_request_id c"
  let ?cm = "command_find_references ?rid addrs"
  let ?b = "enc_cmd_references ?rid addrs"
  let ?e = "Report_references ?rid refs"
  let ?p = "(s_profiler s)\<lparr>p_worker := Some w'\<rparr>"
  have b: "0 < length ?b" by (simp add: enc_cmd_references_def c64.fold_enc enc_puts length_puts)
  have ex: "execute_command junk api mem (message_of (cmd_code CMD_REFERENCES) ?b) (s_profiler s) = Returns ?p"
    using assms(6,7,9) dec_commands_enc [of ?rid addrs junk] assms(8)
    by (simp add: execute_command_def message_of_def profiler_find_references_def on_worker_def)
  have ev: "p_events ?p = p_events (s_profiler s) @ [?e]" using assms(6,10) by (simp add: p_events_def)
  have pl: "length (snd (sink_payload ?e)) < 2 ^ 32" using assms(11) by simp
  have get: "get_command ?rid CMD_REFERENCES (c_commands (with_command ?cm c)) = Some (Some ?cm, c_commands c)"
    using get_command_last [of "c_commands c" ?cm] assms(4) by simp
  have "length (enc_references ?rid refs) < 2 ^ 63" using assms(11) by simp
  from references_processed [OF get this] assms(5)
  have "process_message junk (message_of (srv_code (fst (sink_payload ?e))) (snd (sink_payload ?e)))
      (with_command ?cm c) = Some ((with_command ?cm c)\<lparr>c_commands := c_commands c,
        c_callbacks := c_callbacks c @ [Cb_references addrs (map shown_reference refs)]\<rparr>)"
    by (simp add: process_message_def message_of_def limit_events_def)
  from request_answered [OF assms(1-3) b assms(8) ex ev pl this]
  obtain c1 c2 s2 where r: "send padding CMD_REFERENCES ?b (with_command ?cm c) = Some c1"
    "exchange split_up junk padding api mem c1 s = Returns (c2, s2)"
    "c_callbacks c2 = c_callbacks c @ [Cb_references addrs (map shown_reference refs)]"
    "c_commands c2 = c_commands c" "s_profiler s2 = ?p" "linked c2 s2" by blast
  moreover have "find_objects_references padding addrs c = send padding CMD_REFERENCES ?b (with_command ?cm c)"
    by (simp add: find_objects_references_def with_command_def add_command_def)
  ultimately show ?thesis by auto
qed

section \<open>Examples\<close>


theorem pause_request_answered_witness:
  "\<exists>c1 c2 s2. client_pause_app [0, 0, 0] fresh_client = Some c1 \<and>
     exchange bytewise 0 [0, 0, 0] tiny_api (\<lambda>_. None) c1 example_server = Returns (c2, s2) \<and>
     c_callbacks c2 = [Cb_pause True]"
proof -
  have "p_worker (s_profiler example_server) = Some example_worker" by (simp add: example_server_def)
  with pause_request_answered [OF example_linked _ bytewise_split, of "[0, 0, 0]" example_worker 0 tiny_api "\<lambda>_. None"]
  show ?thesis by (auto simp: fresh_client_empty)
qed

theorem references_request_answered_witness:
  "\<exists>c1 c2 s2. find_objects_references [0, 0, 0] [64] fresh_client = Some c1 \<and>
     exchange bytewise 0 [0, 0, 0] tiny_api (\<lambda>_. None) c1 example_server = Returns (c2, s2) \<and>
     c_callbacks c2 = [Cb_references [64]
       [\<lparr>or_addr = 64, or_type = chars ''<global>.C'', or_parents = []\<rparr>]]"
proof -
  let ?ref = "\<lparr>or_addr = 64, or_type = chars ''<global>.C'', or_parents = []\<rparr>"
  have wk: "p_worker (s_profiler example_server) = Some example_worker" "p_frame_index (s_profiler example_server) = 0"
    by (simp_all add: example_server_def new_profiler_def)
  have "\<exists>w'. worker_find_references tiny_api (\<lambda>_. None) 0 [64] 0 example_worker = Some w' \<and>
      m_reported w' = m_reported example_worker @ [Report_references 0 [?ref]]"
    by (simp add: worker_find_references_def example_worker_def new_worker_def find_references_internal_def
        um_wf_def get_full_class_name_at_def get_full_class_name_def tiny_api_def snprintf_def c_str_def chars_def
        reference_entry_def report_def flag_def Let_def)
  then obtain w' where w': "worker_find_references tiny_api (\<lambda>_. None) 0 [64] 0 example_worker = Some w'"
    "m_reported w' = m_reported example_worker @ [Report_references 0 [?ref]]" by blast
  have len: "length (enc_cmd_references 0 [64]) < 2 ^ 32" "length (enc_references 0 [?ref]) < 2 ^ 32"
    by (simp_all add: enc_cmd_references_def enc_references_def enc_reference_def write_varint_def
        write_string_def c_str_def chars_def write_defs)
  have "m_work_items_empty example_worker" by (simp add: example_worker_def new_worker_def)
  moreover have "shown_reference ?ref = ?ref" by (simp add: shown_reference_def c_str_def chars_def)
  ultimately show ?thesis
    using references_request_answered [OF example_linked _ bytewise_split, of "[0, 0, 0]" example_worker "[64]"
        tiny_api "\<lambda>_. None" w' "[?ref]" 0] wk w' len by (auto simp: fresh_client_empty)
qed

end
